(* ===== verification/Prelude.thy ===== *)
theory Prelude
  imports Main "HOL-Library.Word" "HOL-Library.Signed_Division"
begin

text \<open>
  Shared vocabulary of the development: machine integers and byte strings, the error values
  that stand for \<open>anyhow::bail!\<close>, \<open>?\<close> and panics, the big-endian encodings of
  \<open>to_be_bytes\<close> and \<open>from_be_bytes\<close>, slices of arrays, bit lengths of generalized indices,
  and Rust's shifts. All profiles of the workspace switch overflow checks off, so \<open>+\<close>, \<open>-\<close>
  and \<open>*\<close> wrap around as they do on \<open>word\<close>, and a shift amount is reduced modulo the width.
\<close>

unbundle bit_operations_syntax

section \<open>Types\<close>

type_synonym u8 = "8 word"
type_synonym u32 = "32 word"
type_synonym u64 = "64 word"
type_synonym bytes = "u8 list"

text \<open>
  Errors as values. The first group are \<open>Err\<close> results of \<open>anyhow::bail!\<close> and of fallible
  library calls, the second group are panics (out of range slices, \<open>panic!\<close>, division by zero,
  a stack overflow by unbounded recursion), which abort the program.
\<close>

datatype error =
    UnalignedAccess u32
  | InvalidPageAddress u32
  | PageGindexTooDeep nat
  | GindexTooDeep
  | IntermediateNode
  | TraversedTooDeep
  | ProofConversion
  | UnexpectedMemAccess u32 u32
  | BranchInDelaySlot u32
  | JumpInDelaySlot u32
  | InvalidRegister u32
  | InvalidFunction u32
  | InvalidOpcode u32
  | OracleError
  | WriteZero
  | UnexpectedEof
  | IoError
  | DuplicatePage nat nat
  | SerdeError
  | SegmentTooLarge nat
  | SegmentPadding nat
  | SegmentOutOfRange nat
  | InvalidPattern string
  | ElfError
  | HintFailed
  | NoStepWitness
  | ServerExited
  | MissingServer
  | InvalidPatchKind string
  | MissingDatabase
  | DeployFailed
  | OracleInputMissing
  | PreimageCommitFailed
  | EvmStepFailed
  | UnexpectedLogs nat
  | PostStateLength
  | PostStateMismatch bytes bytes
  | HexError
  | SubscriberSet
  | PanicUnaligned u32
  | PanicSlice
  | PanicDivide
  | PanicRemainder
  | PanicStackOverflow
  | PanicUnwrap
  | PanicCapacity
  | PanicAssert
  | PanicHint
  | PanicDatabase

type_synonym 'a res = "error + 'a"

section \<open>Collections of simplification rules\<close>

named_theorems mem_simps \<open>reading back the fields of a memory after an operation\<close>
named_theorems bit_len_simps \<open>bit lengths and ancestors of generalized indices\<close>
named_theorems vm_simps \<open>fields of the machine state after an operation\<close>

section \<open>The result monad\<close>

text \<open>\<open>rbind\<close> is the \<open>?\<close> operator: an error is returned at once.\<close>

definition rbind :: "'a res \<Rightarrow> ('a \<Rightarrow> 'b res) \<Rightarrow> 'b res" where
  "rbind r f = (case r of Inl e \<Rightarrow> Inl e | Inr x \<Rightarrow> f x)"

lemma rbind_Inl [simp]: "rbind (Inl e) f = Inl e"
  by (simp add: rbind_def)

lemma rbind_Inr [simp]: "rbind (Inr x) f = f x"
  by (simp add: rbind_def)

lemma rbind_eq_Inr [simp]: "rbind r f = Inr y \<longleftrightarrow> (\<exists>x. r = Inr x \<and> f x = Inr y)"
  by (cases r) simp_all

lemma rbind_InrE:
  assumes "rbind r f = Inr y"
  obtains x where "r = Inr x" and "f x = Inr y"
  using assms by auto

lemma rbind_cong [fundef_cong]:
  assumes "r = r'" and "\<And>x. r' = Inr x \<Longrightarrow> f x = f' x"
  shows "rbind r f = rbind r' f'"
  using assms by (cases r') simp_all

lemma rbind_assoc: "rbind (rbind r f) g = rbind r (\<lambda>x. rbind (f x) g)"
  by (cases r) simp_all

lemma rbind_Inr_id: "rbind r Inr = r"
  by (cases r) simp_all

text \<open>\<open>unwrap\<close> and \<open>assert!\<close> panic; the tests of the program use them throughout.\<close>

definition unwrap_res :: "'a res \<Rightarrow> 'a res" where
  "unwrap_res r = (case r of Inl e \<Rightarrow> Inl PanicUnwrap | Inr x \<Rightarrow> Inr x)"

definition assert_that :: "bool \<Rightarrow> unit res" where
  "assert_that b = (if b then Inr () else Inl PanicAssert)"

section \<open>Slices\<close>

text \<open>\<open>slice_at s e xs\<close> is \<open>&xs[s..e]\<close>, and \<open>copy_from_slice s ys xs\<close> is
  \<open>xs[s..s + ys.len()].copy_from_slice(ys)\<close>, both inside the bounds of \<open>xs\<close>.\<close>

definition slice_at :: "nat \<Rightarrow> nat \<Rightarrow> 'a list \<Rightarrow> 'a list" where
  "slice_at s e xs = take (e - s) (drop s xs)"

definition copy_from_slice :: "nat \<Rightarrow> 'a list \<Rightarrow> 'a list \<Rightarrow> 'a list" where
  "copy_from_slice s ys xs = take s xs @ ys @ drop (s + length ys) xs"

lemma length_slice [simp]: "e \<le> length xs \<Longrightarrow> length (slice_at s e xs) = e - s"
  by (simp add: slice_at_def)

lemma nth_slice: "e \<le> length xs \<Longrightarrow> i < e - s \<Longrightarrow> slice_at s e xs ! i = xs ! (s + i)"
  by (simp add: slice_at_def)

lemma slice_append_slice:
  "s \<le> m \<Longrightarrow> m \<le> e \<Longrightarrow> e \<le> length xs \<Longrightarrow> slice_at s m xs @ slice_at m e xs = slice_at s e xs"
  by (rule nth_equalityI) (auto simp: nth_append nth_slice add.commute)

lemma slice_eqI:
  assumes "length xs = length ys" and "e \<le> length ys"
    and "\<And>i. s \<le> i \<Longrightarrow> i < e \<Longrightarrow> xs ! i = ys ! i"
  shows "slice_at s e xs = slice_at s e ys"
  using assms by (intro nth_equalityI) (simp_all add: nth_slice)

lemma length_copy_from_slice [simp]:
  "s + length ys \<le> length xs \<Longrightarrow> length (copy_from_slice s ys xs) = length xs"
  by (simp add: copy_from_slice_def)

lemma nth_copy_from_slice:
  "s + length ys \<le> length xs \<Longrightarrow> i < length xs \<Longrightarrow>
   copy_from_slice s ys xs ! i = (if s \<le> i \<and> i < s + length ys then ys ! (i - s) else xs ! i)"
  by (auto simp: copy_from_slice_def nth_append min_def)

lemma slice_copy_same [simp]:
  "s + length ys \<le> length xs \<Longrightarrow> e = s + length ys \<Longrightarrow> slice_at s e (copy_from_slice s ys xs) = ys"
  by (simp add: slice_at_def copy_from_slice_def)

lemma slice_copy_other:
  assumes "s + length ys \<le> length xs" and "e \<le> length xs" and "e \<le> s \<or> s + length ys \<le> b"
  shows "slice_at b e (copy_from_slice s ys xs) = slice_at b e xs"
  using assms by (intro slice_eqI) (auto simp: nth_copy_from_slice)

lemma slice_replicate [simp]: "e \<le> n \<Longrightarrow> slice_at s e (replicate n x) = replicate (e - s) x"
  by (simp add: slice_at_def)

section \<open>Big-endian encodings\<close>

primrec be_bytes :: "nat \<Rightarrow> 'a::len word \<Rightarrow> bytes" where
  "be_bytes 0 w = []"
| "be_bytes (Suc n) w = be_bytes n (drop_bit 8 w) @ [ucast w]"

definition from_be :: "bytes \<Rightarrow> 'a::len word" where
  "from_be bs = foldl (\<lambda>acc b. push_bit 8 acc OR ucast b) 0 bs"

abbreviation u32_be :: "u32 \<Rightarrow> bytes" where
  "u32_be \<equiv> be_bytes 4"

abbreviation u64_be :: "u64 \<Rightarrow> bytes" where
  "u64_be \<equiv> be_bytes 8"

lemma length_be_bytes [simp]: "length (be_bytes n w) = n"
  by (induction n arbitrary: w) simp_all

lemma from_be_Nil [simp]: "from_be [] = 0"
  by (simp add: from_be_def)

lemma from_be_snoc: "from_be (bs @ [b]) = push_bit 8 (from_be bs) OR ucast b"
  by (simp add: from_be_def)

lemma from_be_be_bytes: "from_be (be_bytes n w) = take_bit (8 * n) w"
proof (induction n arbitrary: w)
  case 0
  show ?case by simp
next
  case (Suc n)
  have "from_be (be_bytes (Suc n) w) = push_bit 8 (take_bit (8 * n) (drop_bit 8 w)) OR ucast (ucast w :: u8)"
    by (simp add: from_be_snoc Suc.IH)
  also have "\<dots> = take_bit (8 * Suc n) w"
    by (rule bit_word_eqI) (auto simp: bit_simps)
  finally show ?case .
qed

lemma take_bit_from_be: "take_bit (8 * length bs) (from_be bs) = (from_be bs :: 'a::len word)"
proof (induction bs rule: rev_induct)
  case Nil
  show ?case by simp
next
  case (snoc b bs)
  have "take_bit (8 * length (bs @ [b])) (from_be (bs @ [b]) :: 'a word)
        = push_bit 8 (take_bit (8 * length bs) (from_be bs)) OR ucast b"
    by (rule bit_word_eqI) (auto simp: bit_simps from_be_snoc dest: bit_imp_le_length)
  then show ?case by (simp add: snoc.IH from_be_snoc)
qed

lemma be_bytes_from_be:
  assumes "8 * length bs \<le> LENGTH('a)"
  shows "be_bytes (length bs) (from_be bs :: 'a::len word) = bs"
  using assms
proof (induction bs rule: rev_induct)
  case Nil
  show ?case by simp
next
  case (snoc b bs)
  let ?w = "from_be bs :: 'a word"
  have low: "ucast (push_bit 8 ?w OR ucast b) = b"
    using snoc.prems by (intro bit_word_eqI) (auto simp: bit_simps)
  have "drop_bit 8 (push_bit 8 (take_bit (8 * length bs) ?w) OR ucast b) = take_bit (8 * length bs) ?w"
    using snoc.prems by (intro bit_word_eqI) (auto simp: bit_simps dest: bit_imp_le_length)
  then have "drop_bit 8 (push_bit 8 ?w OR ucast b) = ?w"
    by (simp add: take_bit_from_be)
  with low snoc show ?case by (simp add: from_be_snoc)
qed

lemma take_bit_word_full: "LENGTH('a) \<le> n \<Longrightarrow> take_bit n w = (w :: 'a::len word)"
  by (rule bit_word_eqI) (auto simp: bit_simps)

lemma u32_of_be [simp]: "(from_be (u32_be w) :: u32) = w"
  by (simp add: from_be_be_bytes take_bit_word_full)

lemma u64_of_be [simp]: "(from_be (u64_be w) :: u64) = w"
  by (simp add: from_be_be_bytes take_bit_word_full)

lemma be_bytes_inject:
  assumes "be_bytes n v = be_bytes n w" and "LENGTH('a) \<le> 8 * n"
  shows "v = (w :: 'a::len word)"
proof -
  have "take_bit (8 * n) v = take_bit (8 * n) w"
    using assms(1) by (metis from_be_be_bytes)
  with assms(2) show ?thesis by (simp add: take_bit_word_full)
qed

section \<open>Shifts of 32 bit words\<close>

text \<open>\<open>x << n\<close> and \<open>x >> n\<close> on \<open>u32\<close> without overflow checks: the amount is masked.\<close>

definition shl32 :: "u32 \<Rightarrow> u32 \<Rightarrow> u32" where
  "shl32 x n = push_bit (unat (n AND 31)) x"

definition shr32 :: "u32 \<Rightarrow> u32 \<Rightarrow> u32" where
  "shr32 x n = drop_bit (unat (n AND 31)) x"

lemma unat_and_mask: "unat (n AND mask k :: 'a::len word) = unat n mod 2 ^ k"
  by (metis take_bit_eq_mask take_bit_eq_mod unsigned_take_bit_eq)

lemma and_31_mod: "unat (n AND 31 :: u32) = unat n mod 32"
  using unat_and_mask [of n 5] by (simp add: mask_eq_exp_minus_1)

lemma and_3_mod: "unat (n AND 3 :: u32) = unat n mod 4"
  using unat_and_mask [of n 2] by (simp add: mask_eq_exp_minus_1)

lemma u32_less: "unat (a :: u32) < 4294967296"
  using unsigned_less [of a, where ?'a = nat] by simp

section \<open>Tagged indices\<close>

text \<open>\<open>(1 << k) | n\<close> with \<open>n\<close> below the tag is an addition.\<close>

lemma or_pow_add: "n < 2 ^ k \<Longrightarrow> push_bit k m OR n = push_bit k m + (n::nat)"
proof -
  assume "n < 2 ^ k"
  then have t: "take_bit k n = n" by (rule take_bit_nat_eq_self)
  have "push_bit k m + take_bit k n = push_bit k m OR take_bit k n"
    by (rule disjunctive_add) (auto simp: bit_simps)
  then show ?thesis by (simp add: t)
qed

lemma and_low_mask: "n AND (2 ^ k - 1) = n mod (2 ^ k :: nat)"
  using take_bit_eq_mask [of k n] by (simp add: mask_eq_exp_minus_1 take_bit_eq_mod)

end
