(* ===== verification/Merkle.thy ===== *)
theory Merkle
  imports Prelude
begin

text \<open>
  Hashing helpers of \<open>utils.rs\<close>, the table of zero hashes of \<open>page.rs\<close>, and the reference
  definition of the binary Merkle tree that the caches of \<open>page.rs\<close> and \<open>memory.rs\<close> have to
  agree with: \<open>subtree k leaf h j\<close> is the root of the \<open>j\<close>-th perfect subtree of height \<open>h\<close>,
  \<open>ghash\<close> addresses the same nodes by generalized index, and \<open>verify_branch\<close> is the check of a
  Merkle branch against a root. The hash function itself (\<open>xkcp_rs::keccak256\<close>) is a parameter.
\<close>

section \<open>Hashing\<close>

type_synonym hash_fn = "bytes \<Rightarrow> bytes"

text \<open>The hash writes its digest into a \<open>B256\<close>: 32 bytes for every input.\<close>

definition hash32 :: "hash_fn \<Rightarrow> bool" where
  "hash32 keccak \<longleftrightarrow> (\<forall>xs. length (keccak xs) = 32)"

definition concat_fixed :: "'a list \<Rightarrow> 'a list \<Rightarrow> 'a list" where
  "concat_fixed a b = a @ b"

definition keccak_concat_hashes :: "hash_fn \<Rightarrow> bytes \<Rightarrow> bytes \<Rightarrow> bytes" where
  "keccak_concat_hashes keccak a b = keccak (concat_fixed a b)"

definition zero32 :: bytes where
  "zero32 = replicate 32 0"

text \<open>The loop \<open>for i in 1..256\<close> that fills the table.\<close>

definition ZERO_HASHES :: "hash_fn \<Rightarrow> bytes list" where
  "ZERO_HASHES keccak =
     foldl (\<lambda>out i. out[i := keccak_concat_hashes keccak (out ! (i - 1)) (out ! (i - 1))])
       (replicate 256 zero32) [1..<256]"

section \<open>Bit lengths of generalized indices\<close>

text \<open>\<open>bit_len g\<close> is \<open>64 - g.leading_zeros()\<close>.\<close>

fun bit_len :: "nat \<Rightarrow> nat" where
  "bit_len g = (if g = 0 then 0 else Suc (bit_len (g div 2)))"

declare bit_len.simps [simp del]

lemma bit_len_0 [simp]: "bit_len 0 = 0"
  by (subst bit_len.simps) simp

lemma bit_len_half: "0 < g \<Longrightarrow> bit_len g = Suc (bit_len (g div 2))"
  by (subst bit_len.simps) simp

lemma bit_len_bounds: "0 < g \<Longrightarrow> 2 ^ (bit_len g - 1) \<le> g \<and> g < 2 ^ bit_len g"
proof (induction g rule: bit_len.induct)
  case (1 g)
  show ?case
  proof (cases "g div 2 = 0")
    case True
    with "1.prems" have "g = 1" by simp
    then show ?thesis by (simp add: bit_len.simps)
  next
    case False
    with "1" have "2 ^ (bit_len (g div 2) - 1) \<le> g div 2" and "g div 2 < 2 ^ bit_len (g div 2)"
      by simp_all
    moreover from False have "2 * 2 ^ (bit_len (g div 2) - 1) = (2::nat) ^ bit_len (g div 2)"
      by (metis bit_len_half gr0I power_Suc diff_Suc_1)
    moreover from "1.prems" have "bit_len g = Suc (bit_len (g div 2))" by (rule bit_len_half)
    ultimately show ?thesis by auto linarith+
  qed
qed

lemma bit_len_le_iff: "bit_len g \<le> n \<longleftrightarrow> g < 2 ^ n"
proof (cases "g = 0")
  case False
  then have b: "2 ^ (bit_len g - 1) \<le> g" "g < 2 ^ bit_len g" "0 < bit_len g"
    using bit_len_bounds [of g] by (auto simp: bit_len_half [of g])
  show ?thesis
  proof
    assume "bit_len g \<le> n"
    then have "(2::nat) ^ bit_len g \<le> 2 ^ n" by simp
    with b(2) show "g < 2 ^ n" by (rule less_le_trans)
  next
    assume "g < 2 ^ n"
    with b(1) have "(2::nat) ^ (bit_len g - 1) < 2 ^ n" by (rule le_less_trans)
    then show "bit_len g \<le> n" using b(3) by simp
  qed
qed simp

lemma bit_len_unique: "2 ^ n \<le> g \<Longrightarrow> g < 2 ^ Suc n \<Longrightarrow> bit_len g = Suc n"
  using bit_len_le_iff [of g n] bit_len_le_iff [of g "Suc n"] by simp

lemma bit_len_double [bit_len_simps]: "0 < g \<Longrightarrow> bit_len (2 * g) = Suc (bit_len g)"
  by (simp add: bit_len_half)

lemma bit_len_double1 [bit_len_simps]: "bit_len (Suc (2 * g)) = Suc (bit_len g)"
  by (simp add: bit_len_half)

lemma bit_len_shift:
  assumes "0 < g" and "j < 2 ^ d"
  shows "bit_len (g * 2 ^ d + j) = bit_len g + d"
  using assms
proof (induction d arbitrary: j)
  case (Suc d)
  have "(g * 2 ^ Suc d + j) div 2 = g * 2 ^ d + j div 2"
    by simp
  moreover have "j div 2 < 2 ^ d" using Suc.prems by simp
  ultimately show ?case
    using Suc by (subst bit_len_half) simp_all
qed simp

section \<open>The reference tree\<close>

primrec subtree :: "hash_fn \<Rightarrow> (nat \<Rightarrow> bytes) \<Rightarrow> nat \<Rightarrow> nat \<Rightarrow> bytes" where
  "subtree k leaf 0 j = leaf j"
| "subtree k leaf (Suc h) j = k (subtree k leaf h (2 * j) @ subtree k leaf h (Suc (2 * j)))"

text \<open>Node \<open>g\<close> of a tree of depth \<open>D\<close>, by generalized index.\<close>

definition ghash :: "hash_fn \<Rightarrow> (nat \<Rightarrow> bytes) \<Rightarrow> nat \<Rightarrow> nat \<Rightarrow> bytes" where
  "ghash k leaf D g = subtree k leaf (Suc D - bit_len g) (g - 2 ^ (bit_len g - 1))"

lemma ghash_node:
  assumes "0 < g" and "bit_len g \<le> D"
  shows "ghash k leaf D g = keccak_concat_hashes k (ghash k leaf D (2 * g)) (ghash k leaf D (Suc (2 * g)))"
proof -
  let ?b = "bit_len g"
  from assms(1) have pos: "0 < ?b" and lo: "2 ^ (?b - 1) \<le> g"
    using bit_len_bounds [of g] by (auto simp: bit_len_half [of g])
  from pos have p2: "(2::nat) ^ ?b = 2 * 2 ^ (?b - 1)"
    by (cases ?b) simp_all
  have h: "Suc D - ?b = Suc (D - ?b)" using assms(2) by simp
  have "2 * g - 2 ^ ?b = 2 * (g - 2 ^ (?b - 1))" and "Suc (2 * g) - 2 ^ ?b = Suc (2 * (g - 2 ^ (?b - 1)))"
    using lo by (simp_all add: p2)
  with assms(1) h show ?thesis
    by (simp add: ghash_def bit_len_simps keccak_concat_hashes_def concat_fixed_def del: power_Suc)
qed

lemma ghash_leaf:
  assumes "2 ^ D \<le> g" and "g < 2 ^ Suc D"
  shows "ghash k leaf D g = leaf (g - 2 ^ D)"
  using bit_len_unique [OF assms] by (simp add: ghash_def)

lemma length_subtree:
  assumes "hash32 k" and "\<And>j. length (leaf j) = 32"
  shows "length (subtree k leaf h j) = 32"
  using assms by (cases h) (simp_all add: hash32_def)

lemma length_ghash:
  "hash32 k \<Longrightarrow> (\<And>j. length (leaf j) = 32) \<Longrightarrow> length (ghash k leaf D g) = 32"
  by (simp add: ghash_def length_subtree)

lemma subtree_cong:
  assumes "\<And>i. j * 2 ^ h \<le> i \<Longrightarrow> i < Suc j * 2 ^ h \<Longrightarrow> leaf i = leaf' i"
  shows "subtree k leaf h j = subtree k leaf' h j"
  using assms
proof (induction h arbitrary: j)
  case (Suc h)
  have "subtree k leaf h (2 * j) = subtree k leaf' h (2 * j)"
    by (rule Suc.IH) (rule Suc.prems, auto simp: algebra_simps)
  moreover have "subtree k leaf h (Suc (2 * j)) = subtree k leaf' h (Suc (2 * j))"
    by (rule Suc.IH) (rule Suc.prems, auto simp: algebra_simps)
  ultimately show ?case by simp
qed simp

text \<open>A node of height \<open>h + d\<close> seen as the root of a tree of its own, whose leaves start later.\<close>

lemma subtree_offset:
  assumes "\<And>i. i < 2 ^ (h + d) \<Longrightarrow> leaf (b * 2 ^ (h + d) + i) = leaf' i" and "j < 2 ^ d"
  shows "subtree k leaf h (b * 2 ^ d + j) = subtree k leaf' h j"
  using assms
proof (induction h arbitrary: j d)
  case (Suc h)
  have eq: "subtree k leaf h (b * 2 ^ Suc d + i) = subtree k leaf' h i" if "i < 2 ^ Suc d" for i
    by (rule Suc.IH [OF _ that]) (use Suc.prems(1) in simp)
  have "2 * j < 2 ^ Suc d" and "Suc (2 * j) < 2 ^ Suc d"
    using Suc.prems(2) by simp_all
  from eq [OF this(1)] eq [OF this(2)] show ?case
    by (simp add: algebra_simps)
qed simp

subsection \<open>Zero subtrees\<close>

primrec zero_hash :: "hash_fn \<Rightarrow> nat \<Rightarrow> bytes" where
  "zero_hash k 0 = zero32"
| "zero_hash k (Suc n) = keccak_concat_hashes k (zero_hash k n) (zero_hash k n)"

lemma subtree_zero:
  assumes "\<And>i. j * 2 ^ h \<le> i \<Longrightarrow> i < Suc j * 2 ^ h \<Longrightarrow> leaf i = zero32"
  shows "subtree k leaf h j = zero_hash k h"
proof -
  have "subtree k leaf h j = subtree k (\<lambda>_. zero32) h j"
    by (rule subtree_cong) (use assms in simp)
  also have "\<dots> = zero_hash k h"
    by (induction h arbitrary: j) (simp_all add: keccak_concat_hashes_def concat_fixed_def)
  finally show ?thesis .
qed

lemma ZERO_HASHES_prefix:
  assumes "n \<le> 256" and "0 < n"
  shows "length (foldl (\<lambda>out i. out[i := keccak_concat_hashes k (out ! (i - 1)) (out ! (i - 1))])
           (replicate 256 zero32) [1..<n]) = 256
    \<and> (\<forall>i < n. foldl (\<lambda>out i. out[i := keccak_concat_hashes k (out ! (i - 1)) (out ! (i - 1))])
           (replicate 256 zero32) [1..<n] ! i = zero_hash k i)"
  using assms
proof (induction n)
  case (Suc n)
  show ?case
  proof (cases "n = 0")
    case False
    then obtain m where m: "n = Suc m" by (cases n) auto
    from Suc False show ?thesis
      by (auto simp: nth_list_update less_Suc_eq m simp del: upt_rec_numeral)
  qed simp
qed simp

lemma ZERO_HASHES_nth: "i < 256 \<Longrightarrow> ZERO_HASHES k ! i = zero_hash k i"
  using ZERO_HASHES_prefix [of 256 k] by (simp add: ZERO_HASHES_def del: upt_rec_numeral)

section \<open>Branches\<close>

text \<open>
  The check of a branch: the siblings from the leaf upwards, the parity of the leaf's index
  saying on which side each sibling stands.
\<close>

fun verify_branch :: "hash_fn \<Rightarrow> bytes \<Rightarrow> nat \<Rightarrow> bytes list \<Rightarrow> bytes" where
  "verify_branch k node idx [] = node"
| "verify_branch k node idx (s # ss) =
     verify_branch k (if odd idx then keccak_concat_hashes k s node else keccak_concat_hashes k node s)
       (idx div 2) ss"

definition sibling :: "nat \<Rightarrow> nat" where
  "sibling j = (if odd j then j - 1 else Suc j)"

definition siblings :: "hash_fn \<Rightarrow> (nat \<Rightarrow> bytes) \<Rightarrow> nat \<Rightarrow> nat \<Rightarrow> nat \<Rightarrow> bytes list" where
  "siblings k leaf h H j = map (\<lambda>t. subtree k leaf (h + t) (sibling (j div 2 ^ t))) [0..<H - h]"

lemma siblings_Nil [simp]: "siblings k leaf h h j = []"
  by (simp add: siblings_def)

lemma siblings_Cons:
  assumes "h < H"
  shows "siblings k leaf h H j = subtree k leaf h (sibling j) # siblings k leaf (Suc h) H (j div 2)"
proof -
  have "[0..<H - h] = 0 # map Suc [0..<H - Suc h]"
    using assms by (simp add: upt_conv_Cons map_Suc_upt Suc_diff_Suc del: upt_Suc)
  then show ?thesis
    by (simp add: siblings_def div_mult2_eq comp_def)
qed

lemma siblings_snoc:
  assumes "h \<le> H"
  shows "siblings k leaf h (Suc H) j = siblings k leaf h H j @ [subtree k leaf H (sibling (j div 2 ^ (H - h)))]"
  using assms by (simp add: siblings_def Suc_diff_le)

lemma subtree_parent:
  "(if odd j then keccak_concat_hashes k (subtree k leaf h (sibling j)) (subtree k leaf h j)
    else keccak_concat_hashes k (subtree k leaf h j) (subtree k leaf h (sibling j)))
   = subtree k leaf (Suc h) (j div 2)"
  by (auto simp: sibling_def keccak_concat_hashes_def concat_fixed_def elim!: oddE evenE)

lemma verify_siblings:
  assumes "h \<le> H"
  shows "verify_branch k (subtree k leaf h j) j (siblings k leaf h H j) = subtree k leaf H (j div 2 ^ (H - h))"
  using assms
proof (induction "H - h" arbitrary: h j)
  case (Suc n)
  then have "h < H" and n: "n = H - Suc h" by simp_all
  from \<open>h < H\<close> have H: "2 ^ (H - h) = (2::nat) * 2 ^ (H - Suc h)"
    by (metis Suc_diff_Suc power_Suc)
  have "verify_branch k (subtree k leaf h j) j (siblings k leaf h H j)
        = verify_branch k (subtree k leaf (Suc h) (j div 2)) (j div 2) (siblings k leaf (Suc h) H (j div 2))"
    using \<open>h < H\<close> by (simp add: siblings_Cons subtree_parent del: subtree.simps)
  also have "\<dots> = subtree k leaf H (j div 2 div 2 ^ (H - Suc h))"
    using Suc.hyps(1) [OF n] \<open>h < H\<close> by simp
  finally show ?case by (simp add: H div_mult2_eq)
qed simp

section \<open>The interface of a merkleized component\<close>

text \<open>
  What a page promises to the memory, and the memory to its users: merkleizing any node returns
  the hash of the reference tree over the component's leaves, and changes nothing but caches.
\<close>

locale merkleized =
  fixes k :: hash_fn
    and depth :: nat
    and merkleize :: "nat \<Rightarrow> 's \<Rightarrow> (bytes \<times> 's) res"
    and invar :: "'s \<Rightarrow> bool"
    and leaves :: "'s \<Rightarrow> nat \<Rightarrow> bytes"
  assumes merkleize_node: "invar s \<Longrightarrow> 0 < g \<Longrightarrow> g < 2 ^ Suc depth \<Longrightarrow>
      \<exists>s'. merkleize g s = Inr (ghash k (leaves s) depth g, s') \<and> invar s' \<and> leaves s' = leaves s"
begin

lemma root:
  assumes "invar s"
  shows "\<exists>s'. merkleize 1 s = Inr (subtree k (leaves s) depth 0, s') \<and> invar s' \<and> leaves s' = leaves s"
proof -
  have "(1::nat) < 2 ^ Suc depth" by (rule one_less_power) simp_all
  moreover have "bit_len 1 = 1" by (simp add: bit_len.simps)
  ultimately show ?thesis
    using merkleize_node [OF assms, of 1] by (simp add: ghash_def)
qed

lemma repeat:
  assumes "invar s" and "0 < g" and "g < 2 ^ Suc depth" and "merkleize g s = Inr (h, s')"
  shows "\<exists>s''. merkleize g s' = Inr (h, s'')"
  using merkleize_node [OF assms(1-3)] merkleize_node [OF _ assms(2,3), of s'] assms(4) by auto

lemma determined:
  assumes "invar s" and "invar t" and "\<And>j. j < 2 ^ depth \<Longrightarrow> leaves s j = leaves t j"
  shows "map_sum id fst (merkleize 1 s) = map_sum id fst (merkleize 1 t)"
proof -
  have "subtree k (leaves s) depth 0 = subtree k (leaves t) depth 0"
    by (rule subtree_cong) (use assms(3) in simp)
  with root [OF assms(1)] root [OF assms(2)] show ?thesis by auto
qed

end

end
