(* ===== verification/Page.thy ===== *)
theory Page
  imports Merkle
begin

text \<open>
  The page of \<open>page.rs\<close>: 4096 bytes of data with a cache of the 127 inner nodes of its Merkle
  tree and a bitmap of the cache entries that are still valid. The invariant \<open>page_ok\<close> says that
  every entry marked valid holds the hash of the reference tree, and the lemmas show that
  merkleization returns the reference hashes and that invalidation keeps the invariant when the
  data of the invalidated block changes.
\<close>

section \<open>Constants\<close>

definition PAGE_ADDRESS_SIZE :: nat where
  [simp]: "PAGE_ADDRESS_SIZE = 12"

definition PAGE_KEY_SIZE :: nat where
  [simp]: "PAGE_KEY_SIZE = 32 - PAGE_ADDRESS_SIZE"

definition PAGE_SIZE :: nat where
  [simp]: "PAGE_SIZE = push_bit PAGE_ADDRESS_SIZE 1"

definition PAGE_SIZE_WORDS :: nat where
  [simp]: "PAGE_SIZE_WORDS = drop_bit 5 PAGE_SIZE"

definition PAGE_ADDRESS_MASK :: nat where
  [simp]: "PAGE_ADDRESS_MASK = PAGE_SIZE - 1"

definition MAX_PAGE_COUNT :: nat where
  [simp]: "MAX_PAGE_COUNT = push_bit PAGE_KEY_SIZE 1"

definition PAGE_KEY_MASK :: nat where
  [simp]: "PAGE_KEY_MASK = MAX_PAGE_COUNT - 1"

section \<open>Cached pages\<close>

record cached_page =
  data :: bytes
  cache :: "bytes list"
  valid :: "bool list"

text \<open>
  The merkleization of a subtree. On index 0 with an invalid entry the code calls itself on index
  \<open>0 << 1 = 0\<close> in the same state without end, which overflows the stack; every other recursive
  call is on a larger index.
\<close>

function page_merkleize_subtree :: "hash_fn \<Rightarrow> nat \<Rightarrow> cached_page \<Rightarrow> (bytes \<times> cached_page) res" where
  "page_merkleize_subtree keccak g_index p =
    (if PAGE_SIZE_WORDS \<le> g_index \<and> g_index < PAGE_SIZE_WORDS * 2 then
       (let node_index = push_bit 5 (g_index AND drop_bit 5 PAGE_ADDRESS_MASK)
        in Inr (slice_at node_index (node_index + 32) (data p), p))
     else if PAGE_SIZE_WORDS * 2 \<le> g_index then Inl (PageGindexTooDeep g_index)
     else if valid p ! g_index then Inr (cache p ! g_index, p)
     else rbind
       (if drop_bit 1 PAGE_SIZE_WORDS \<le> g_index then
          (let data_idx = push_bit 6 (g_index - drop_bit 1 PAGE_SIZE_WORDS)
           in Inr (keccak (slice_at data_idx (data_idx + 64) (data p)), p))
        else if g_index = 0 then Inl PanicStackOverflow
        else rbind (page_merkleize_subtree keccak (2 * g_index) p) (\<lambda>(left, p1).
             rbind (page_merkleize_subtree keccak (2 * g_index + 1) p1) (\<lambda>(right, p2).
               Inr (keccak_concat_hashes keccak left right, p2))))
       (\<lambda>(hash, p'). Inr (hash, p'\<lparr>valid := (valid p')[g_index := True],
                                 cache := (cache p')[g_index := hash]\<rparr>)))"
  by pat_completeness auto
termination
  by (relation "measure (\<lambda>(keccak, g, p). 256 - g)") auto

declare page_merkleize_subtree.simps [simp del]

definition page_merkle_root :: "hash_fn \<Rightarrow> cached_page \<Rightarrow> (bytes \<times> cached_page) res" where
  "page_merkle_root keccak p = page_merkleize_subtree keccak 1 p"

definition zero_page :: cached_page where
  "zero_page = \<lparr>data = replicate PAGE_SIZE 0, cache = replicate PAGE_SIZE_WORDS zero32,
                valid = replicate (PAGE_SIZE div 32) False\<rparr>"

text \<open>\<open>page.merkle_root().unwrap()\<close> on the zero page, then its cache.\<close>

definition DEFAULT_CACHE :: "hash_fn \<Rightarrow> bytes list" where
  "DEFAULT_CACHE keccak =
     (case page_merkle_root keccak zero_page of Inl e \<Rightarrow> [] | Inr (r, p) \<Rightarrow> cache p)"

definition default_page :: "hash_fn \<Rightarrow> cached_page" where
  "default_page keccak = \<lparr>data = replicate PAGE_SIZE 0, cache = DEFAULT_CACHE keccak,
                          valid = replicate (PAGE_SIZE div 32) True\<rparr>"

definition page_invalidate :: "u32 \<Rightarrow> cached_page \<Rightarrow> cached_page res" where
  "page_invalidate page_addr p =
    (if of_nat PAGE_SIZE \<le> page_addr then Inl (InvalidPageAddress page_addr)
     else
       (let key = drop_bit 6 (push_bit PAGE_ADDRESS_SIZE 1 OR page_addr)
        in Inr (p\<lparr>valid := replicate (Suc (unat key)) False @ drop (Suc (unat key)) (valid p)\<rparr>)))"

definition page_invalidate_full :: "cached_page \<Rightarrow> cached_page" where
  "page_invalidate_full p = p\<lparr>valid := replicate (PAGE_SIZE div 32) False\<rparr>"

section \<open>The invariant\<close>

definition page_leaf :: "bytes \<Rightarrow> nat \<Rightarrow> bytes" where
  "page_leaf d j = slice_at (32 * j) (32 * j + 32) d"

definition wf_page :: "cached_page \<Rightarrow> bool" where
  "wf_page p \<longleftrightarrow> length (data p) = 4096 \<and> length (cache p) = 128 \<and> length (valid p) = 128"

text \<open>A valid entry stands above valid entries only, so a valid root means a filled cache.\<close>

definition valid_closed :: "bool list \<Rightarrow> bool" where
  "valid_closed v \<longleftrightarrow> (\<forall>g. 0 < g \<longrightarrow> g < 64 \<longrightarrow> v ! g \<longrightarrow> v ! (2 * g) \<and> v ! (2 * g + 1))"

definition page_ok :: "hash_fn \<Rightarrow> cached_page \<Rightarrow> bool" where
  "page_ok k p \<longleftrightarrow> wf_page p \<and> valid_closed (valid p) \<and>
     (\<forall>g. 0 < g \<longrightarrow> g < 128 \<longrightarrow> valid p ! g \<longrightarrow> cache p ! g = ghash k (page_leaf (data p)) 7 g)"

lemma page_okD:
  assumes "page_ok k p"
  shows "length (data p) = 4096" "length (cache p) = 128" "length (valid p) = 128"
    and "0 < g \<Longrightarrow> g < 128 \<Longrightarrow> valid p ! g \<Longrightarrow> cache p ! g = ghash k (page_leaf (data p)) 7 g"
  using assms by (auto simp: page_ok_def wf_page_def)

lemma length_page_leaf: "length d = 4096 \<Longrightarrow> j < 128 \<Longrightarrow> length (page_leaf d j) = 32"
  by (simp add: page_leaf_def)

section \<open>Merkleization\<close>

lemma and_127_mod: "g AND 127 = g mod (128::nat)"
  using and_low_mask [of g 7] by simp

text \<open>What the three kinds of nodes return, over the reference tree.\<close>

lemma page_leaf_node:
  assumes "128 \<le> g" and "g < 256"
  shows "slice_at (push_bit 5 (g AND 127)) (push_bit 5 (g AND 127) + 32) d = ghash k (page_leaf d) 7 g"
proof -
  have "g mod 128 = g - 128" using assms by (simp add: mod_if)
  then have "ghash k (page_leaf d) 7 g = page_leaf d (g mod 128)"
    using ghash_leaf [of 7 g k "page_leaf d"] assms by simp
  then show ?thesis
    by (simp add: page_leaf_def and_127_mod push_bit_eq_mult mult.commute)
qed

lemma page_pair_node:
  assumes "64 \<le> g" and "g < 128" and "length d = 4096"
  shows "k (slice_at (push_bit 6 (g - 64)) (push_bit 6 (g - 64) + 64) d) = ghash k (page_leaf d) 7 g"
proof -
  have b: "bit_len g = 7"
    using bit_len_unique [of 6 g] assms by simp
  then have "ghash k (page_leaf d) 7 g = k (ghash k (page_leaf d) 7 (2 * g) @ ghash k (page_leaf d) 7 (Suc (2 * g)))"
    using ghash_node [of g 7 k "page_leaf d"] assms by (simp add: keccak_concat_hashes_def concat_fixed_def)
  also have "ghash k (page_leaf d) 7 (2 * g) = page_leaf d (2 * (g - 64))"
    using ghash_leaf [of 7 "2 * g" k "page_leaf d"] assms by (simp add: right_diff_distrib')
  also have "2 * g - 127 = Suc (2 * (g - 64))"
    using assms by arith
  then have "ghash k (page_leaf d) 7 (Suc (2 * g)) = page_leaf d (Suc (2 * (g - 64)))"
    using ghash_leaf [of 7 "Suc (2 * g)" k "page_leaf d"] assms by simp
  also have "page_leaf d (2 * (g - 64)) @ page_leaf d (Suc (2 * (g - 64)))
      = slice_at (push_bit 6 (g - 64)) (push_bit 6 (g - 64) + 64) d"
    using assms slice_append_slice [of "64 * (g - 64)" "64 * (g - 64) + 32" "64 * (g - 64) + 64" d]
    by (simp add: page_leaf_def push_bit_eq_mult ac_simps)
  finally show ?thesis by simp
qed

text \<open>Filling a cache entry, and the pages a merkleization can lead to.\<close>

abbreviation page_mark :: "nat \<Rightarrow> bytes \<Rightarrow> cached_page \<Rightarrow> cached_page" where
  "page_mark g h p \<equiv> p\<lparr>valid := (valid p)[g := True], cache := (cache p)[g := h]\<rparr>"

definition page_extends :: "cached_page \<Rightarrow> cached_page \<Rightarrow> bool" where
  "page_extends p p' \<longleftrightarrow> data p' = data p \<and> (\<forall>i < 128. valid p ! i \<longrightarrow> valid p' ! i)"

lemma page_extends_refl [simp]: "page_extends p p"
  by (simp add: page_extends_def)

lemma page_extends_trans: "page_extends p q \<Longrightarrow> page_extends q r \<Longrightarrow> page_extends p r"
  by (simp add: page_extends_def)

lemma page_extends_data: "page_extends p q \<Longrightarrow> data q = data p"
  by (simp add: page_extends_def)

lemma page_mark_ok:
  assumes "page_ok k p" and "g < 128" and "h = ghash k (page_leaf (data p)) 7 g"
    and "g < 64 \<Longrightarrow> valid p ! (2 * g) \<and> valid p ! (2 * g + 1)"
  shows "page_ok k (page_mark g h p) \<and> page_extends p (page_mark g h p) \<and> valid (page_mark g h p) ! g"
  using assms by (auto simp: page_ok_def page_extends_def wf_page_def valid_closed_def nth_list_update)

lemma page_merkleize_pair:
  assumes "64 \<le> g" and "g < 128" and "\<not> valid p ! g" and "length (data p) = 4096"
  shows "page_merkleize_subtree k g p
    = Inr (ghash k (page_leaf (data p)) 7 g, page_mark g (ghash k (page_leaf (data p)) 7 g) p)"
  using assms by (subst page_merkleize_subtree.simps) (simp add: page_pair_node)

lemma page_merkleize_inner:
  assumes "0 < g" and "g < 64" and "\<not> valid p ! g"
    and "page_merkleize_subtree k (2 * g) p = Inr (l, p1)"
    and "page_merkleize_subtree k (2 * g + 1) p1 = Inr (r, p2)"
  shows "page_merkleize_subtree k g p
    = Inr (keccak_concat_hashes k l r, page_mark g (keccak_concat_hashes k l r) p2)"
  using assms by (subst page_merkleize_subtree.simps) simp

lemma page_merkleize_correct:
  assumes "page_ok k p" and "0 < g" and "g < 256"
  shows "\<exists>p'. page_merkleize_subtree k g p = Inr (ghash k (page_leaf (data p)) 7 g, p')
           \<and> page_ok k p' \<and> page_extends p p' \<and> (g < 128 \<longrightarrow> valid p' ! g)"
  using assms
proof (induction "256 - g" arbitrary: g p rule: less_induct)
  case less
  note ok = page_okD [OF less.prems(1)]
  let ?h = "ghash k (page_leaf (data p)) 7"
  consider (leaf) "128 \<le> g" | (hit) "g < 128" "valid p ! g" | (pair) "64 \<le> g" "g < 128" "\<not> valid p ! g"
    | (inner) "g < 64" "\<not> valid p ! g" by linarith
  then show ?case
  proof cases
    case leaf
    with less.prems show ?thesis
      by (subst page_merkleize_subtree.simps) (simp add: page_leaf_node Let_def del: push_bit_and)
  next
    case hit
    with less.prems ok show ?thesis
      by (subst page_merkleize_subtree.simps) simp
  next
    case pair
    with less.prems(1) ok show ?thesis
      by (auto simp: page_merkleize_pair page_mark_ok)
  next
    case inner
    obtain p1 where p1: "page_merkleize_subtree k (2 * g) p = Inr (?h (2 * g), p1)"
      "page_ok k p1" "page_extends p p1" "valid p1 ! (2 * g)"
      using less.hyps [of "2 * g" p] inner less.prems by force
    obtain p2 where p2: "page_merkleize_subtree k (2 * g + 1) p1 = Inr (?h (2 * g + 1), p2)"
      "page_ok k p2" "page_extends p1 p2" "valid p2 ! (2 * g + 1)"
      using less.hyps [of "2 * g + 1" p1] inner less.prems p1(2) page_extends_data [OF p1(3)] by force
    have "bit_len g \<le> 7" using inner bit_len_le_iff [of g 7] by simp
    with less.prems have "?h g = keccak_concat_hashes k (?h (2 * g)) (?h (2 * g + 1))"
      by (simp add: ghash_node)
    moreover have "page_extends p p2" by (rule page_extends_trans [OF p1(3) p2(3)])
    moreover have "valid p2 ! (2 * g)" using p1(4) p2(3) inner by (simp add: page_extends_def)
    ultimately show ?thesis
      using page_mark_ok [OF p2(2), of g "?h g"] p2(4) page_merkleize_inner [OF _ _ _ p1(1) p2(1)] inner less.prems
      by (auto simp: page_extends_data intro: page_extends_trans)
  qed
qed

lemma page_merkleize_too_deep: "256 \<le> g \<Longrightarrow> page_merkleize_subtree k g p = Inl (PageGindexTooDeep g)"
  by (subst page_merkleize_subtree.simps) simp

lemma page_leaves_merkleized:
  "merkleized k 7 (page_merkleize_subtree k) (page_ok k) (\<lambda>p. page_leaf (data p))"
proof
  fix p and g :: nat
  assume "page_ok k p" and "0 < g" and "g < 2 ^ Suc 7"
  then show "\<exists>p'. page_merkleize_subtree k g p = Inr (ghash k (page_leaf (data p)) 7 g, p')
      \<and> page_ok k p' \<and> page_leaf (data p') = page_leaf (data p)"
    using page_merkleize_correct [of k p g] by (auto simp: page_extends_data)
qed

interpretation pg: merkleized k 7 "page_merkleize_subtree k" "page_ok k" "\<lambda>p. page_leaf (data p)"
  for k
  by (rule page_leaves_merkleized)

section \<open>The default page\<close>

lemma valid_closed_all:
  assumes "valid_closed v" and "v ! 1" and "0 < g" and "g < 128"
  shows "v ! g"
  using assms(3,4)
proof (induction g rule: less_induct)
  case (less g)
  show ?case
  proof (cases "g = 1")
    case False
    with less have "v ! (g div 2)" and "0 < g div 2" and "g div 2 < 64" by simp_all
    with assms(1) have "v ! (2 * (g div 2))" and "v ! (2 * (g div 2) + 1)"
      by (auto simp: valid_closed_def)
    then show ?thesis by (cases "even g") auto
  qed (use assms(2) in simp)
qed

lemma zero_page_ok: "page_ok k zero_page"
  by (simp add: page_ok_def wf_page_def zero_page_def valid_closed_def)

lemma default_page_ok: "page_ok k (default_page k)"
proof -
  obtain p where p: "page_merkle_root k zero_page = Inr (ghash k (page_leaf (data zero_page)) 7 1, p)"
    "page_ok k p" "page_extends zero_page p" "valid p ! 1"
    using page_merkleize_correct [OF zero_page_ok, of 1] by (auto simp: page_merkle_root_def)
  then have "DEFAULT_CACHE k = cache p" by (simp add: DEFAULT_CACHE_def)
  moreover have "data p = replicate 4096 0"
    using page_extends_data [OF p(3)] by (simp add: zero_page_def)
  moreover have "valid p ! g" if "0 < g" "g < 128" for g
    using valid_closed_all [of "valid p"] p(2,4) that by (simp add: page_ok_def)
  ultimately show ?thesis
    using p(2) by (auto simp: page_ok_def wf_page_def default_page_def valid_closed_def)
qed

section \<open>Invalidation\<close>

lemma page_key:
  assumes "unat page_addr < 4096"
  shows "unat (drop_bit 6 (push_bit 12 1 OR page_addr) :: u32) = 64 + unat page_addr div 64"
proof -
  have "4096 OR unat page_addr = 4096 + unat page_addr"
    using or_pow_add [of "unat page_addr" 12 1] assms by (simp add: push_bit_eq_mult)
  then have "unat (4096 OR page_addr) = 4096 + unat page_addr"
    by (simp add: unsigned_or_eq)
  then show ?thesis
    by (simp add: drop_bit_eq_div unat_div)
qed

text \<open>
  Invalidation of one address and a change of the data inside the 64 byte block of that address:
  the entries that stay valid are those of other blocks.
\<close>

definition page_invalidated :: "nat \<Rightarrow> cached_page \<Rightarrow> cached_page" where
  "page_invalidated a p = p\<lparr>valid := replicate (Suc (64 + a div 64)) False @ drop (Suc (64 + a div 64)) (valid p)\<rparr>"

lemma page_invalidate_eq:
  assumes "unat page_addr < 4096"
  shows "page_invalidate page_addr p = Inr (page_invalidated (unat page_addr) p)"
  using assms page_key [OF assms]
  by (simp add: page_invalidate_def page_invalidated_def word_le_nat_alt not_le del: replicate_Suc)

lemma page_invalidate_error: "4096 \<le> unat page_addr \<Longrightarrow> page_invalidate page_addr p = Inl (InvalidPageAddress page_addr)"
  by (simp add: page_invalidate_def word_le_nat_alt)

lemma data_page_invalidated [simp]: "data (page_invalidated a p) = data p"
  by (simp add: page_invalidated_def)

lemma valid_page_invalidated:
  assumes "length (valid p) = 128" and "a < 4096" and "g < 128"
  shows "valid (page_invalidated a p) ! g \<longleftrightarrow> 64 + a div 64 < g \<and> valid p ! g"
proof -
  have "Suc (64 + a div 64) \<le> 128" using assms(2) by simp
  with assms(1,3) show ?thesis
    by (auto simp: page_invalidated_def nth_append simp del: replicate_Suc)
qed

lemma page_pair_block:
  assumes "64 \<le> g" and "g < 128" and "length d = 4096" and "length d' = 4096"
    and "\<And>i. 64 * (g - 64) \<le> i \<Longrightarrow> i < 64 * (g - 64) + 64 \<Longrightarrow> d' ! i = d ! i"
  shows "ghash k (page_leaf d') 7 g = ghash k (page_leaf d) 7 g"
proof -
  have "slice_at (64 * (g - 64)) (64 * (g - 64) + 64) d' = slice_at (64 * (g - 64)) (64 * (g - 64) + 64) d"
    using assms by (intro slice_eqI) auto
  then show ?thesis
    using assms(1-4) by (simp add: page_pair_node [symmetric] push_bit_eq_mult mult.commute)
qed

text \<open>An invalidation clears the entries up to the one of its address, so all data up to there may change.\<close>

lemma page_invalidated_up_to:
  assumes ok: "page_ok k p" and a: "a < 4096" and d': "length d' = 4096"
    and same: "\<And>i. i < 4096 \<Longrightarrow> a div 64 < i div 64 \<Longrightarrow> d' ! i = data p ! i"
  shows "page_ok k (page_invalidated a p\<lparr>data := d'\<rparr>)"
proof -
  note lens = page_okD(1-3) [OF ok]
  note v = valid_page_invalidated [OF lens(3) a]
  have wf: "wf_page (page_invalidated a p\<lparr>data := d'\<rparr>)"
    using lens d' a by (simp add: wf_page_def page_invalidated_def)
  have closed: "valid_closed (valid (page_invalidated a p))"
    using ok v by (auto simp: valid_closed_def page_ok_def)
  have "cache p ! g = ghash k (page_leaf d') 7 g" if "g < 128" "64 + a div 64 < g" "valid p ! g" for g
  proof -
    have "d' ! i = data p ! i" if "64 * (g - 64) \<le> i" "i < 64 * (g - 64) + 64" for i
    proof -
      have "i div 64 = g - 64" using that by (intro div_nat_eqI) simp_all
      with that show ?thesis
        using \<open>64 + a div 64 < g\<close> \<open>g < 128\<close> by (intro same) auto
    qed
    then have "ghash k (page_leaf d') 7 g = ghash k (page_leaf (data p)) 7 g"
      using that lens d' by (intro page_pair_block) auto
    then show ?thesis
      using page_okD(4) [OF ok, of g] that by simp
  qed
  then show ?thesis
    using wf closed v by (auto simp: page_ok_def) (simp add: page_invalidated_def)
qed

lemma page_invalidated_ok:
  assumes "page_ok k p" and "a < 4096" and "length d' = 4096"
    and "\<And>i. i < 4096 \<Longrightarrow> i div 64 \<noteq> a div 64 \<Longrightarrow> d' ! i = data p ! i"
  shows "page_ok k (page_invalidated a p\<lparr>data := d'\<rparr>)"
  using assms(4) by (intro page_invalidated_up_to [OF assms(1-3)]) simp

lemma page_invalidate_full_ok:
  "page_ok k p \<Longrightarrow> length d' = 4096 \<Longrightarrow> page_ok k (page_invalidate_full p\<lparr>data := d'\<rparr>)"
  by (auto simp: page_ok_def wf_page_def page_invalidate_full_def valid_closed_def)

end
