(* ===== verification/Memory.thy ===== *)
theory Memory
  imports Page
begin

text \<open>
  The memory of \<open>memory.rs\<close>: a map from page indices to shared cached pages, a map of the inner
  nodes of the Merkle tree above the pages, and the two most recently used pages. Pages are
  \<open>Rc<RefCell<CachedPage>>\<close>, shared between the map and the two last pages, so the model has an
  explicit store: a pointer is an index into \<open>page_heap\<close>, and both maps hold pointers. Page indices and
  generalized indices are \<open>u64\<close> in the code; they are natural numbers here, with the wrap-around
  written out where a shift could lose bits.
\<close>

section \<open>Data\<close>

record memory =
  nodes :: "nat \<rightharpoonup> bytes option"
  pages :: "nat \<rightharpoonup> nat"
  last_page :: "(nat \<times> nat option) list"
  page_heap :: "cached_page list"

definition memory_default :: memory where
  "memory_default = \<lparr>nodes = Map.empty, pages = Map.empty,
     last_page = [(2 ^ 64 - 1, None), (2 ^ 64 - 1, None)], page_heap = []\<rparr>"

abbreviation cell :: "memory \<Rightarrow> nat \<Rightarrow> cached_page" where
  "cell m r \<equiv> page_heap m ! r"

abbreviation set_cell :: "nat \<Rightarrow> cached_page \<Rightarrow> memory \<Rightarrow> memory" where
  "set_cell r p m \<equiv> m\<lparr>page_heap := (page_heap m)[r := p]\<rparr>"

section \<open>Operations\<close>

definition page_lookup :: "nat \<Rightarrow> memory \<Rightarrow> nat option \<times> memory" where
  "page_lookup page_index m =
    (case find (\<lambda>(key, _). key = page_index) (last_page m) of
       Some (_, Some page) \<Rightarrow> (Some page, m)
     | _ \<Rightarrow>
       (case pages m page_index of
          Some page \<Rightarrow> (Some page, m\<lparr>last_page := [(page_index, Some page), last_page m ! 0]\<rparr>)
        | None \<Rightarrow> (None, m)))"

text \<open>The loops that invalidate a node and all nodes above it.\<close>

function invalidate_path :: "nat \<Rightarrow> (nat \<rightharpoonup> bytes option) \<Rightarrow> (nat \<rightharpoonup> bytes option)" where
  "invalidate_path g_index ns =
    (if 0 < g_index then invalidate_path (drop_bit 1 g_index) (ns(g_index \<mapsto> None)) else ns)"
  by pat_completeness auto
termination
  by (relation "measure fst") (auto simp: drop_bit_eq_div)

declare invalidate_path.simps [simp del]

definition mem_invalidate :: "u32 \<Rightarrow> memory \<Rightarrow> memory res" where
  "mem_invalidate address m =
    (if address AND 3 \<noteq> 0 then Inl (PanicUnaligned address)
     else
       (case page_lookup (drop_bit PAGE_ADDRESS_SIZE (unat address)) m of
          (Some r, m1) \<Rightarrow>
            (let prev_valid = (\<not> valid (cell m1 r) ! 1)
             in rbind (page_invalidate (address AND of_nat PAGE_ADDRESS_MASK) (cell m1 r)) (\<lambda>p.
                let m2 = set_cell r p m1
                in if prev_valid then Inr m2
                   else
                     (let g_index = drop_bit PAGE_ADDRESS_SIZE (push_bit 32 1 OR unat address)
                      in Inr (m2\<lparr>nodes := invalidate_path g_index (nodes m2)\<rparr>))))
        | (None, m1) \<Rightarrow> Inr m1))"

definition alloc_page :: "hash_fn \<Rightarrow> nat \<Rightarrow> memory \<Rightarrow> nat \<times> memory" where
  "alloc_page keccak page_index m =
    (let page = length (page_heap m);
         key = push_bit PAGE_KEY_SIZE 1 OR page_index
     in (page, m\<lparr>page_heap := page_heap m @ [default_page keccak],
                 pages := (pages m)(page_index \<mapsto> page),
                 nodes := invalidate_path key (nodes m)\<rparr>))"

definition set_memory :: "hash_fn \<Rightarrow> u32 \<Rightarrow> u32 \<Rightarrow> memory \<Rightarrow> memory res" where
  "set_memory keccak address value m =
    (if address AND 3 \<noteq> 0 then Inl (UnalignedAccess address)
     else
       (let page_index = drop_bit PAGE_ADDRESS_SIZE (unat address);
            page_address = unat address AND PAGE_ADDRESS_MASK
        in rbind
          (case page_lookup page_index m of
             (Some r, m1) \<Rightarrow> rbind (mem_invalidate address m1) (\<lambda>m2. Inr (r, m2))
           | (None, m1) \<Rightarrow>
               (let (r, m2) = alloc_page keccak page_index m1
                in case page_invalidate (of_nat page_address) (cell m2 r) of
                     Inl _ \<Rightarrow> Inr (r, m2)
                   | Inr p \<Rightarrow> Inr (r, set_cell r p m2)))
          (\<lambda>(r, m3). Inr (set_cell r
             ((cell m3 r)\<lparr>data := copy_from_slice page_address (u32_be value) (data (cell m3 r))\<rparr>) m3))))"

definition get_memory :: "u32 \<Rightarrow> memory \<Rightarrow> (u32 \<times> memory) res" where
  "get_memory address m =
    (if address AND 3 \<noteq> 0 then Inl (UnalignedAccess address)
     else
       (case page_lookup (drop_bit PAGE_ADDRESS_SIZE (unat address)) m of
          (Some r, m1) \<Rightarrow>
            (let page_address = unat address AND PAGE_ADDRESS_MASK
             in Inr (from_be (slice_at page_address (page_address + 4) (data (cell m1 r))), m1))
        | (None, m1) \<Rightarrow> Inr (0, m1)))"

definition page_count :: "memory \<Rightarrow> nat" where
  "page_count m = card (dom (pages m))"

text \<open>
  Merkleization of a node of the memory. On index 0 the code would call itself on index 0 again,
  which overflows the stack; every other recursive call is on a larger index.
\<close>

function mem_merkleize_subtree :: "hash_fn \<Rightarrow> nat \<Rightarrow> memory \<Rightarrow> (bytes \<times> memory) res" where
  "mem_merkleize_subtree keccak g_index m =
    (let bits = bit_len g_index
     in if 28 < bits then Inl GindexTooDeep
        else if PAGE_KEY_SIZE < bits then
          (let depth_into_page = bits - 1 - PAGE_KEY_SIZE;
               page_index = drop_bit depth_into_page g_index AND PAGE_KEY_MASK
           in case pages m page_index of
                None \<Rightarrow> Inr (ZERO_HASHES keccak ! (28 - bits), m)
              | Some r \<Rightarrow>
                  (let page_g_index = push_bit depth_into_page 1
                         OR (g_index AND (push_bit depth_into_page 1 - 1))
                   in rbind (page_merkleize_subtree keccak page_g_index (cell m r))
                        (\<lambda>(hash, p). Inr (hash, set_cell r p m))))
        else if PAGE_KEY_SIZE + 1 < bits then Inl IntermediateNode
        else
          (case nodes m g_index of
             Some (Some node) \<Rightarrow> Inr (node, m)
           | None \<Rightarrow> Inr (ZERO_HASHES keccak ! (28 - bits), m)
           | Some None \<Rightarrow>
               if g_index = 0 then Inl PanicStackOverflow
               else
                 rbind (mem_merkleize_subtree keccak (2 * g_index) m) (\<lambda>(left, m1).
                 rbind (mem_merkleize_subtree keccak (2 * g_index + 1) m1) (\<lambda>(right, m2).
                   let result = keccak_concat_hashes keccak left right
                   in Inr (result, m2\<lparr>nodes := (nodes m2)(g_index \<mapsto> Some result)\<rparr>)))))"
  by pat_completeness auto
termination
proof (relation "measure (\<lambda>(keccak, g, m). 2 ^ 20 - g)", goal_cases)
  case (2 keccak g m bits)
  then show ?case using bit_len_le_iff [of g 20] by simp
next
  case (3 keccak g m bits)
  then show ?case using bit_len_le_iff [of g 20] by simp
qed simp

declare mem_merkleize_subtree.simps [simp del]

definition merkle_root :: "hash_fn \<Rightarrow> memory \<Rightarrow> (bytes \<times> memory) res" where
  "merkle_root keccak m = mem_merkleize_subtree keccak 1 m"

function traverse_branch :: "hash_fn \<Rightarrow> nat \<Rightarrow> u32 \<Rightarrow> nat \<Rightarrow> memory \<Rightarrow> (bytes list \<times> memory) res" where
  "traverse_branch keccak parent address depth m =
    (if depth = 32 - 5 then
       rbind (mem_merkleize_subtree keccak parent m) (\<lambda>(node, m1). Inr ([node], m1))
     else if 32 - 5 < depth then Inl TraversedTooDeep
     else
       (let left = (2 * parent) mod 2 ^ 64;
            right = left OR 1;
            (local, sibling) =
              (if address AND push_bit (31 - depth) 1 \<noteq> 0 then (right, left) else (left, right))
        in rbind (traverse_branch keccak local address (depth + 1) m) (\<lambda>(proof_nodes, m1).
           rbind (mem_merkleize_subtree keccak sibling m1) (\<lambda>(sibling_node, m2).
             Inr (proof_nodes @ [sibling_node], m2)))))"
  by pat_completeness auto
termination
  by (relation "measure (\<lambda>(keccak, parent, address, depth, m). 27 - depth)") auto

declare traverse_branch.simps [simp del]

definition merkle_proof :: "hash_fn \<Rightarrow> u32 \<Rightarrow> memory \<Rightarrow> (bytes \<times> memory) res" where
  "merkle_proof keccak address m =
     rbind (traverse_branch keccak 1 address 0 m) (\<lambda>(proof_nodes, m1).
       let flat = concat proof_nodes
       in if length flat = 28 * 32 then Inr (flat, m1) else Inl ProofConversion)"

end
