(* ===== verification/Memory_Spec.thy ===== *)
theory Memory_Spec
  imports Memory
begin

text \<open>
  The contract of the memory: its contents as a function from byte addresses, the invariant
  \<open>mem_ok\<close> that ties the page map, the two last pages, the shared pages and the cached inner
  nodes together, and the lemmas that every operation of \<open>memory.rs\<close> keeps it. The contents never
  depend on the caches.
\<close>

section \<open>Contents\<close>

definition mem_byte :: "memory \<Rightarrow> nat \<Rightarrow> u8" where
  "mem_byte m a = (case pages m (a div 4096) of None \<Rightarrow> 0 | Some r \<Rightarrow> data (cell m r) ! (a mod 4096))"

definition mem_word :: "memory \<Rightarrow> u32 \<Rightarrow> u32" where
  "mem_word m a = from_be (map (\<lambda>i. mem_byte m (unat a + i)) [0..<4])"

definition mem_leaf :: "memory \<Rightarrow> nat \<Rightarrow> bytes" where
  "mem_leaf m j = map (mem_byte m) [32 * j..<32 * j + 32]"

text \<open>Writing a byte string at an address of the contents.\<close>

definition overwrite :: "nat \<Rightarrow> bytes \<Rightarrow> (nat \<Rightarrow> u8) \<Rightarrow> nat \<Rightarrow> u8" where
  "overwrite a bs f b = (if a \<le> b \<and> b < a + length bs then bs ! (b - a) else f b)"

section \<open>The invariant\<close>

text \<open>The node \<open>s\<close> levels above the root of page \<open>i\<close>.\<close>

definition ancestor :: "nat \<Rightarrow> nat \<Rightarrow> nat" where
  "ancestor i s = (1048576 + i) div 2 ^ s"

definition pages_ok :: "hash_fn \<Rightarrow> memory \<Rightarrow> bool" where
  "pages_ok k m \<longleftrightarrow>
     (\<forall>i r. pages m i = Some r \<longrightarrow> i < 1048576 \<and> r < length (page_heap m) \<and> page_ok k (cell m r)) \<and>
     (\<forall>i j r. pages m i = Some r \<longrightarrow> pages m j = Some r \<longrightarrow> i = j)"

definition last_page_ok :: "memory \<Rightarrow> bool" where
  "last_page_ok m \<longleftrightarrow> length (last_page m) = 2 \<and>
     (\<forall>key r. (key, Some r) \<in> set (last_page m) \<longrightarrow> pages m key = Some r)"

text \<open>
  A cached node holds the hash of the reference tree, a node without an entry has no page below
  it, and every node above a page whose own root is invalid is invalidated: the last point is what
  lets \<open>invalidate\<close> stop early.
\<close>

definition nodes_ok :: "hash_fn \<Rightarrow> memory \<Rightarrow> bool" where
  "nodes_ok k m \<longleftrightarrow>
     (\<forall>g h. 0 < g \<longrightarrow> g < 1048576 \<longrightarrow> nodes m g = Some (Some h) \<longrightarrow> h = ghash k (mem_leaf m) 27 g) \<and>
     (\<forall>i r s. pages m i = Some r \<longrightarrow> 0 < s \<longrightarrow> s \<le> 20 \<longrightarrow> nodes m (ancestor i s) \<noteq> None) \<and>
     (\<forall>i r s. pages m i = Some r \<longrightarrow> \<not> valid (cell m r) ! 1 \<longrightarrow> 0 < s \<longrightarrow> s \<le> 20 \<longrightarrow>
        nodes m (ancestor i s) = Some None)"

definition mem_ok :: "hash_fn \<Rightarrow> memory \<Rightarrow> bool" where
  "mem_ok k m \<longleftrightarrow> pages_ok k m \<and> last_page_ok m \<and> nodes_ok k m"

lemma pages_okD:
  assumes "pages_ok k m" and "pages m i = Some r"
  shows "i < 1048576" "r < length (page_heap m)" "page_ok k (cell m r)" "pages m j = Some r \<Longrightarrow> j = i"
  using assms unfolding pages_ok_def by blast+

lemma mem_okD:
  assumes "mem_ok k m"
  shows "pages_ok k m" "last_page_ok m" "nodes_ok k m"
  using assms by (simp_all add: mem_ok_def)

lemma nodes_okD:
  assumes "nodes_ok k m"
  shows "0 < g \<Longrightarrow> g < 1048576 \<Longrightarrow> nodes m g = Some (Some h) \<Longrightarrow> h = ghash k (mem_leaf m) 27 g"
    and "pages m i = Some r \<Longrightarrow> 0 < s \<Longrightarrow> s \<le> 20 \<Longrightarrow> nodes m (ancestor i s) \<noteq> None"
    and "pages m i = Some r \<Longrightarrow> \<not> valid (cell m r) ! 1 \<Longrightarrow> 0 < s \<Longrightarrow> s \<le> 20 \<Longrightarrow>
           nodes m (ancestor i s) = Some None"
  using assms unfolding nodes_ok_def by blast+

lemma memory_default_ok: "mem_ok k memory_default"
  by (auto simp: mem_ok_def pages_ok_def last_page_ok_def nodes_ok_def memory_default_def)

lemma mem_byte_default [simp]: "mem_byte memory_default a = 0"
  by (simp add: mem_byte_def memory_default_def)

text \<open>Contents and invariant look at fields only, so updates of other fields pass through.\<close>

lemma mem_byte_fields [mem_simps]:
  "mem_byte (m\<lparr>last_page := lp\<rparr>) = mem_byte m"
  "mem_byte (m\<lparr>nodes := ns\<rparr>) = mem_byte m"
  by (auto simp: mem_byte_def fun_eq_iff split: option.split)

lemma mem_leaf_fields [mem_simps]:
  "mem_leaf (m\<lparr>last_page := lp\<rparr>) = mem_leaf m"
  "mem_leaf (m\<lparr>nodes := ns\<rparr>) = mem_leaf m"
  by (simp_all add: mem_leaf_def mem_byte_fields fun_eq_iff)

lemma length_mem_leaf [simp]: "length (mem_leaf m j) = 32"
  by (simp add: mem_leaf_def)

lemma nth_mem_leaf: "i < 32 \<Longrightarrow> mem_leaf m j ! i = mem_byte m (32 * j + i)"
  by (simp add: mem_leaf_def)

lemma mem_leaf_eqI:
  "(\<And>a. 32 * j \<le> a \<Longrightarrow> a < 32 * j + 32 \<Longrightarrow> mem_byte m a = mem_byte m' a) \<Longrightarrow> mem_leaf m j = mem_leaf m' j"
  by (simp add: mem_leaf_def)

section \<open>Ancestors\<close>

lemma ancestor_pos: "i < 1048576 \<Longrightarrow> s \<le> 20 \<Longrightarrow> 0 < ancestor i s"
proof -
  assume "s \<le> 20"
  then have "(2::nat) ^ s \<le> 2 ^ 20" by (rule power_increasing) simp
  then show ?thesis by (simp add: ancestor_def div_greater_zero_iff)
qed

lemma ancestor_0: "ancestor i 0 = 1048576 + i"
  by (simp add: ancestor_def)

lemma ancestor_Suc: "ancestor i (Suc s) = ancestor i s div 2"
  by (simp add: ancestor_def div_mult2_eq [symmetric] mult.commute)

lemma bit_len_ancestor: "i < 1048576 \<Longrightarrow> s \<le> 20 \<Longrightarrow> bit_len (ancestor i s) = 21 - s"
proof (induction s)
  case 0
  then show ?case using bit_len_unique [of 20 "ancestor i 0"] by (simp add: ancestor_0)
next
  case (Suc s)
  then have "bit_len (ancestor i s) = Suc (bit_len (ancestor i s div 2))"
    by (intro bit_len_half ancestor_pos) simp_all
  with Suc show ?case by (simp add: ancestor_Suc)
qed

lemma ancestor_less: "i < 1048576 \<Longrightarrow> 0 < s \<Longrightarrow> s \<le> 20 \<Longrightarrow> ancestor i s < 1048576"
  using bit_len_le_iff [of "ancestor i s" 20] bit_len_ancestor [of i s] by auto

lemma ancestor_level:
  assumes "i < 1048576" and "s \<le> 20" and "ancestor i s = g"
  shows "s = 21 - bit_len g"
  using bit_len_ancestor [OF assms(1,2)] assms(2,3) by simp

lemma invalidate_path_eq:
  "invalidate_path g ns x = (if 0 < x \<and> (\<exists>s. g div 2 ^ s = x) then Some None else ns x)"
proof (induction g ns rule: invalidate_path.induct)
  case (1 g ns)
  have split: "(\<exists>s. g div 2 ^ s = x) \<longleftrightarrow> g = x \<or> (\<exists>s. g div 2 div 2 ^ s = x)" for g x :: nat
  proof
    assume "\<exists>s. g div 2 ^ s = x"
    then obtain s where "g div 2 ^ s = x" ..
    then show "g = x \<or> (\<exists>s. g div 2 div 2 ^ s = x)"
      by (cases s) (auto simp: div_mult2_eq)
  next
    assume "g = x \<or> (\<exists>s. g div 2 div 2 ^ s = x)"
    then show "\<exists>s. g div 2 ^ s = x"
      by (metis div_by_1 div_mult2_eq power_0 power_Suc)
  qed
  show ?case
  proof (cases "0 < g")
    case True
    have half: "drop_bit 1 g = g div 2" by (simp add: drop_bit_eq_div)
    have "invalidate_path g ns x = invalidate_path (g div 2) (ns(g \<mapsto> None)) x"
      using True by (subst invalidate_path.simps) (simp only: half if_True)
    also have "\<dots> = (if 0 < x \<and> (\<exists>s. g div 2 div 2 ^ s = x) then Some None else (ns(g \<mapsto> None)) x)"
      using "1.IH" [OF True] by (simp only: half)
    finally show ?thesis
      using True split [of g x] by auto
  next
    case False
    then show ?thesis by (subst invalidate_path.simps) auto
  qed
qed

lemma invalidate_path_ancestor:
  assumes "i < 1048576"
  shows "invalidate_path (1048576 + i) ns x = (if \<exists>s \<le> 20. ancestor i s = x then Some None else ns x)"
proof -
  have "(0 < x \<and> (\<exists>s. (1048576 + i) div 2 ^ s = x)) \<longleftrightarrow> (\<exists>s \<le> 20. ancestor i s = x)"
  proof
    assume "0 < x \<and> (\<exists>s. (1048576 + i) div 2 ^ s = x)"
    then obtain s where s: "ancestor i s = x" "0 < x" by (auto simp: ancestor_def)
    have "s \<le> 20"
    proof (rule ccontr)
      assume "\<not> s \<le> 20"
      then have "(2::nat) ^ 21 \<le> 2 ^ s" by (intro power_increasing) simp_all
      with assms have "ancestor i s = 0" by (simp add: ancestor_def)
      with s show False by simp
    qed
    with s show "\<exists>s \<le> 20. ancestor i s = x" by blast
  next
    assume "\<exists>s \<le> 20. ancestor i s = x"
    with assms show "0 < x \<and> (\<exists>s. (1048576 + i) div 2 ^ s = x)"
      using ancestor_pos by (auto simp: ancestor_def)
  qed
  then show ?thesis by (simp add: invalidate_path_eq)
qed

section \<open>Page lookup\<close>

lemma page_lookup_hit:
  assumes "last_page_ok m" and "find (\<lambda>(key, _). key = i) (last_page m) = Some (x, Some r)"
  shows "pages m i = Some r"
proof -
  from assms(2) have "(x, Some r) \<in> set (last_page m)" and "x = i"
    by (auto simp: find_Some_iff in_set_conv_nth)
  with assms(1) show ?thesis by (auto simp: last_page_ok_def)
qed

lemma page_lookup_eq:
  assumes "last_page_ok m"
  obtains lp where "page_lookup i m = (pages m i, m\<lparr>last_page := lp\<rparr>)" and "last_page_ok (m\<lparr>last_page := lp\<rparr>)"
proof (cases "\<exists>x r. find (\<lambda>(key, _). key = i) (last_page m) = Some (x, Some r)")
  case True
  then obtain x r where r: "find (\<lambda>(key, _). key = i) (last_page m) = Some (x, Some r)" by blast
  with assms that [of "last_page m"] show ?thesis
    using page_lookup_hit [OF assms r] by (simp add: page_lookup_def)
next
  case False
  then have miss: "page_lookup i m =
      (case pages m i of
         Some page \<Rightarrow> (Some page, m\<lparr>last_page := [(i, Some page), last_page m ! 0]\<rparr>)
       | None \<Rightarrow> (None, m))"
    by (auto simp: page_lookup_def split: option.splits)
  show ?thesis
  proof (cases "pages m i")
    case None
    with miss assms that [of "last_page m"] show ?thesis by simp
  next
    case (Some page)
    have "last_page m ! 0 \<in> set (last_page m)"
      using assms by (simp add: last_page_ok_def)
    with Some assms have "last_page_ok (m\<lparr>last_page := [(i, Some page), last_page m ! 0]\<rparr>)"
      by (auto simp: last_page_ok_def)
    with miss Some show ?thesis by (intro that) simp_all
  qed
qed

lemma mem_ok_last_page: "mem_ok k m \<Longrightarrow> last_page_ok (m\<lparr>last_page := lp\<rparr>) \<Longrightarrow> mem_ok k (m\<lparr>last_page := lp\<rparr>)"
  by (auto simp: mem_ok_def pages_ok_def nodes_ok_def mem_leaf_fields)

section \<open>Writing a page through its pointer\<close>

lemma mem_byte_set_cell:
  assumes "pages_ok k m" and "pages m i = Some r"
  shows "mem_byte (set_cell r p m) a = (if a div 4096 = i then data p ! (a mod 4096) else mem_byte m a)"
proof (cases "a div 4096 = i")
  case True
  with assms pages_okD(2) [OF assms] show ?thesis by (simp add: mem_byte_def)
next
  case False
  then have "pages m (a div 4096) \<noteq> Some r" using pages_okD(4) [OF assms] by blast
  with False show ?thesis by (auto simp: mem_byte_def split: option.split)
qed

lemma pages_ok_set_cell:
  assumes "pages_ok k m" and "page_ok k p"
  shows "pages_ok k (set_cell r p m)"
proof -
  have "page_ok k ((page_heap m)[r := p] ! q)" if "page_ok k (cell m q)" "q < length (page_heap m)" for q
    using that assms(2) by (cases "q = r") auto
  with assms(1) show ?thesis by (auto simp: pages_ok_def)
qed

text \<open>Which page a leaf below node \<open>g\<close> belongs to.\<close>

lemma leaf_below:
  assumes "0 < g" and "bit_len g \<le> 21"
    and "(g - 2 ^ (bit_len g - 1)) * 2 ^ (28 - bit_len g) \<le> l"
    and "l < Suc (g - 2 ^ (bit_len g - 1)) * 2 ^ (28 - bit_len g)"
  shows "l div 128 < 1048576" and "ancestor (l div 128) (21 - bit_len g) = g"
proof -
  let ?b = "bit_len g" and ?j = "g - 2 ^ (bit_len g - 1)"
  have b: "0 < ?b" "2 ^ (?b - 1) \<le> g" "g < 2 ^ ?b"
    using bit_len_bounds [OF assms(1)] bit_len_half [OF assms(1)] by auto
  have "28 - ?b = (21 - ?b) + 7" using assms(2) by simp
  then have "(2::nat) ^ (28 - ?b) = 2 ^ (21 - ?b) * 2 ^ 7" by (simp only: power_add)
  then have p: "(2::nat) ^ (28 - ?b) = 2 ^ (21 - ?b) * 128" by simp
  have lo: "?j * 2 ^ (21 - ?b) \<le> l div 128" and hi: "l div 128 < Suc ?j * 2 ^ (21 - ?b)"
    using assms(3,4) unfolding p mult.assoc [symmetric]
    by (simp_all only: less_eq_div_iff_mult_less_eq div_less_iff_less_mult zero_less_numeral)
  then have "l div 128 div 2 ^ (21 - ?b) = ?j"
    by (intro div_nat_eqI) (simp_all add: mult.commute)
  moreover have "20 = (?b - 1) + (21 - ?b)" using assms(2) b(1) by simp
  then have "(2::nat) ^ 20 = 2 ^ (?b - 1) * 2 ^ (21 - ?b)" by (metis power_add)
  then have q: "(1048576::nat) = 2 ^ (?b - 1) * 2 ^ (21 - ?b)" by simp
  ultimately have "ancestor (l div 128) (21 - ?b) = 2 ^ (?b - 1) + ?j"
    unfolding ancestor_def q by simp
  with b(2) show "ancestor (l div 128) (21 - ?b) = g" by simp
  have "2 ^ ?b = 2 * (2::nat) ^ (?b - 1)" using b(1) by (cases ?b) simp_all
  then have "Suc ?j \<le> 2 ^ (?b - 1)" using b(2,3) by linarith
  then have "Suc ?j * 2 ^ (21 - ?b) \<le> 1048576" unfolding q by (rule mult_le_mono1)
  with hi show "l div 128 < 1048576" by (rule less_le_trans)
qed

text \<open>Hashes of nodes that are not above the changed page stay the same.\<close>

lemma ghash_other_page:
  assumes "0 < g" and "g < 1048576"
    and "\<And>s. 0 < s \<Longrightarrow> s \<le> 20 \<Longrightarrow> ancestor i s \<noteq> g"
    and "\<And>a. a div 4096 \<noteq> i \<Longrightarrow> mem_byte m' a = mem_byte m a"
  shows "ghash k (mem_leaf m') 27 g = ghash k (mem_leaf m) 27 g"
proof -
  have b: "bit_len g \<le> 20" "0 < bit_len g"
    using assms(1,2) bit_len_le_iff [of g 20] bit_len_half [of g] by auto
  have "mem_leaf m' l = mem_leaf m l"
    if "(g - 2 ^ (bit_len g - 1)) * 2 ^ (28 - bit_len g) \<le> l"
      "l < Suc (g - 2 ^ (bit_len g - 1)) * 2 ^ (28 - bit_len g)" for l
  proof (rule mem_leaf_eqI)
    fix a
    assume "32 * l \<le> a" and "a < 32 * l + 32"
    then have "a div 32 = l" by (intro div_nat_eqI) simp_all
    then have "a div 4096 = l div 128" by (simp add: div_mult2_eq [symmetric])
    moreover have "ancestor (l div 128) (21 - bit_len g) = g"
      using assms(1) b that by (intro leaf_below) simp_all
    ultimately have "a div 4096 \<noteq> i"
      using assms(3) [of "21 - bit_len g"] b by auto
    then show "mem_byte m' a = mem_byte m a" by (rule assms(4))
  qed
  then show ?thesis
    unfolding ghash_def by (intro subtree_cong) simp
qed

text \<open>
  A page may be replaced by any well-formed one with other data, as long as all nodes above it are
  already invalidated.
\<close>

lemma set_cell_ok:
  assumes ok: "mem_ok k m" and r: "pages m i = Some r" and p: "page_ok k p"
    and inv: "\<And>s. 0 < s \<Longrightarrow> s \<le> 20 \<Longrightarrow> nodes m (ancestor i s) = Some None"
  shows "mem_ok k (set_cell r p m)"
proof -
  note po = mem_okD(1) [OF ok] and no = mem_okD(3) [OF ok]
  have "h = ghash k (mem_leaf (set_cell r p m)) 27 g"
    if g: "0 < g" "g < 1048576" "nodes m g = Some (Some h)" for g h
  proof -
    have "ghash k (mem_leaf (set_cell r p m)) 27 g = ghash k (mem_leaf m) 27 g"
      using g inv by (intro ghash_other_page [where i = i]) (auto simp: mem_byte_set_cell [OF po r])
    with nodes_okD(1) [OF no g] show ?thesis by simp
  qed
  moreover have "nodes m (ancestor j s) = Some None"
    if "pages m j = Some q" "\<not> valid (cell (set_cell r p m) q) ! 1" "0 < s" "s \<le> 20" for j q s
    using that inv nodes_okD(3) [OF no] pages_okD(4) [OF po r] pages_okD(2) [OF po r]
    by (cases "q = r") auto
  ultimately have "nodes_ok k (set_cell r p m)"
    using nodes_okD(2) [OF no] unfolding nodes_ok_def by simp
  then show ?thesis
    using pages_ok_set_cell [OF po p] mem_okD(2) [OF ok] by (simp add: mem_ok_def last_page_ok_def)
qed

lemma invalidate_nodes_ok:
  assumes ok: "mem_ok k m" and r: "pages m i = Some r"
  shows "mem_ok k (m\<lparr>nodes := invalidate_path (1048576 + i) (nodes m)\<rparr>)"
proof -
  have i: "i < 1048576" using pages_okD(1) [OF mem_okD(1) [OF ok] r] .
  have "nodes_ok k (m\<lparr>nodes := invalidate_path (1048576 + i) (nodes m)\<rparr>)"
    using nodes_okD [OF mem_okD(3) [OF ok]]
    by (auto simp: nodes_ok_def invalidate_path_ancestor [OF i] mem_leaf_fields)
  then show ?thesis
    using ok by (simp add: mem_ok_def pages_ok_def last_page_ok_def)
qed

section \<open>Allocation\<close>

lemma key_ancestor: "i < 1048576 \<Longrightarrow> push_bit 20 1 OR i = 1048576 + (i::nat)"
  using or_pow_add [of i 20 1] by (simp add: push_bit_eq_mult)

definition allocated :: "hash_fn \<Rightarrow> nat \<Rightarrow> memory \<Rightarrow> memory" where
  "allocated k i m = snd (alloc_page k i m)"

lemma alloc_page_eq: "alloc_page k i m = (length (page_heap m), allocated k i m)"
  by (simp add: allocated_def alloc_page_def Let_def)

lemma allocated_fields [mem_simps]:
  assumes "i < 1048576"
  shows "pages (allocated k i m) = (pages m)(i \<mapsto> length (page_heap m))"
    and "page_heap (allocated k i m) = page_heap m @ [default_page k]"
    and "last_page (allocated k i m) = last_page m"
    and "nodes (allocated k i m) = invalidate_path (1048576 + i) (nodes m)"
  using key_ancestor [OF assms] by (simp_all add: allocated_def alloc_page_def Let_def)

lemma mem_byte_allocated:
  assumes "pages_ok k m" and "pages m i = None" and "i < 1048576"
  shows "mem_byte (allocated k i m) = mem_byte m"
proof
  fix a
  show "mem_byte (allocated k i m) a = mem_byte m a"
    using assms(2) pages_okD(2) [OF assms(1)]
    by (auto simp: mem_byte_def allocated_fields [OF assms(3)] default_page_def nth_append split: option.split)
qed

lemma allocated_ok:
  assumes ok: "mem_ok k m" and new: "pages m i = None" and i: "i < 1048576"
  shows "mem_ok k (allocated k i m)"
proof -
  note po = mem_okD(1) [OF ok] and no = nodes_okD [OF mem_okD(3) [OF ok]]
  have "pages_ok k (allocated k i m)"
    using po i default_page_ok [of k]
    by (auto simp: pages_ok_def allocated_fields [OF i] nth_append less_Suc_eq)
  moreover have "last_page_ok (allocated k i m)"
    using mem_okD(2) [OF ok] new by (auto simp: last_page_ok_def allocated_fields [OF i])
  moreover have "mem_leaf (allocated k i m) = mem_leaf m"
    by (simp add: mem_leaf_def fun_eq_iff mem_byte_allocated [OF po new i])
  then have "nodes_ok k (allocated k i m)"
    using no pages_okD(2) [OF po]
    by (auto simp: nodes_ok_def allocated_fields [OF i] invalidate_path_ancestor [OF i] nth_append)
  ultimately show ?thesis by (simp add: mem_ok_def)
qed

section \<open>Addresses\<close>

lemma page_index_less: "unat (a :: u32) div 4096 < 1048576"
  using unsigned_less [of a] by (simp add: div_less_iff_less_mult)

lemma page_offset_mod: "unat (a AND 4095 :: u32) = unat a mod 4096"
  using unat_and_mask [of a 12] by (simp add: mask_eq_exp_minus_1)

lemma and_4095_mod: "a AND 4095 = a mod (4096::nat)"
  using and_low_mask [of a 12] by simp

lemma tagged_page_index: "(4294967296 OR unat (a :: u32)) div 4096 = 1048576 + unat a div 4096"
proof -
  have "unat a < 2 ^ 32" using unsigned_less [of a] by simp
  from or_pow_add [OF this, of 1] show ?thesis by (simp add: push_bit_eq_mult)
qed

lemma aligned_iff: "(a :: u32) AND 3 = 0 \<longleftrightarrow> unat a mod 4 = 0"
  unfolding and_3_mod [symmetric] by (simp add: unat_eq_zero)

lemmas address_simps = drop_bit_eq_div page_offset_mod and_4095_mod tagged_page_index aligned_iff

lemma aligned_in_page: "(a::nat) mod 4 = 0 \<Longrightarrow> a mod 4096 + 4 \<le> 4096"
proof -
  assume "a mod 4 = 0"
  then have "a mod 4096 mod 4 = 0" by (simp add: mod_mod_cancel)
  then have "4 * (a mod 4096 div 4) = a mod 4096" using mult_div_mod_eq [of 4 "a mod 4096"] by simp
  moreover have "a mod 4096 div 4 < 1024" by (simp add: div_less_iff_less_mult)
  ultimately show ?thesis by linarith
qed

lemma aligned_block:
  assumes "(x::nat) mod 4 = 0" and "t < 4"
  shows "(x + t) div 64 = x div 64"
proof -
  have "(x + t) div 4 = x div 4" using assms by presburger
  then show ?thesis by (metis div_mult2_eq num_double numeral_times_numeral)
qed

lemma page_invalidate_nat: "a < 4096 \<Longrightarrow> page_invalidate (of_nat a) p = Inr (page_invalidated a p)"
  using page_invalidate_eq [of "of_nat a" p] by (simp add: unat_of_nat)

section \<open>Invalidation\<close>

lemma mem_invalidate_unaligned: "unat a mod 4 \<noteq> 0 \<Longrightarrow> mem_invalidate a m = Inl (PanicUnaligned a)"
  by (simp add: mem_invalidate_def aligned_iff)

lemma mem_invalidate_page:
  assumes ok: "mem_ok k m" and al: "unat a mod 4 = 0" and r: "pages m (unat a div 4096) = Some r"
  obtains m' where "mem_invalidate a m = Inr m'" and "mem_ok k m'" and "pages m' = pages m"
    and "page_heap m' = (page_heap m)[r := page_invalidated (unat a mod 4096) (cell m r)]"
    and "\<And>s. 0 < s \<Longrightarrow> s \<le> 20 \<Longrightarrow> nodes m' (ancestor (unat a div 4096) s) = Some None"
proof -
  let ?i = "unat a div 4096" and ?p = "page_invalidated (unat a mod 4096) (cell m r)"
  obtain lp where lp: "page_lookup ?i m = (Some r, m\<lparr>last_page := lp\<rparr>)" "last_page_ok (m\<lparr>last_page := lp\<rparr>)"
    using page_lookup_eq [OF mem_okD(2) [OF ok]] r by metis
  let ?m1 = "m\<lparr>last_page := lp\<rparr>"
  let ?m2 = "if valid (cell m r) ! 1 then ?m1\<lparr>nodes := invalidate_path (1048576 + ?i) (nodes m)\<rparr> else ?m1"
  have ok1: "mem_ok k ?m1" by (rule mem_ok_last_page [OF ok lp(2)])
  have ok2: "mem_ok k ?m2"
    using invalidate_nodes_ok [OF ok1, of ?i r] ok1 r by simp
  have none: "nodes ?m2 (ancestor ?i s) = Some None" if "0 < s" "s \<le> 20" for s
    using nodes_okD(3) [OF mem_okD(3) [OF ok] r] that
    by (auto simp: invalidate_path_ancestor [OF page_index_less])
  have pok: "page_ok k (cell m r)" by (rule pages_okD(3) [OF mem_okD(1) [OF ok] r])
  have "page_ok k (?p\<lparr>data := data (cell m r)\<rparr>)"
    by (rule page_invalidated_ok [OF pok]) (simp_all add: page_okD(1) [OF pok])
  then have p: "page_ok k ?p" by (simp add: page_invalidated_def)
  have "mem_ok k (set_cell r ?p ?m2)"
    by (rule set_cell_ok [OF ok2 _ p none]) (simp add: r)
  moreover have "mem_invalidate a m = Inr (set_cell r ?p ?m2)"
    using al lp(1) page_invalidate_eq [of "a AND 4095" "cell m r"]
    by (simp add: mem_invalidate_def address_simps)
  ultimately show ?thesis
    using none that [of "set_cell r ?p ?m2"] by auto
qed

lemma mem_invalidate_absent:
  assumes ok: "mem_ok k m" and al: "unat a mod 4 = 0" and "pages m (unat a div 4096) = None"
  obtains lp where "mem_invalidate a m = Inr (m\<lparr>last_page := lp\<rparr>)" and "mem_ok k (m\<lparr>last_page := lp\<rparr>)"
proof -
  obtain lp where "page_lookup (unat a div 4096) m = (None, m\<lparr>last_page := lp\<rparr>)" "last_page_ok (m\<lparr>last_page := lp\<rparr>)"
    using page_lookup_eq [OF mem_okD(2) [OF ok]] assms(3) by metis
  with al show ?thesis
    by (intro that) (auto simp: mem_invalidate_def address_simps mem_ok_last_page [OF ok])
qed

section \<open>Storing and loading words\<close>

lemma get_memory_unaligned: "unat a mod 4 \<noteq> 0 \<Longrightarrow> get_memory a m = Inl (UnalignedAccess a)"
  by (simp add: get_memory_def aligned_iff)

lemma set_memory_unaligned: "unat a mod 4 \<noteq> 0 \<Longrightarrow> set_memory k a v m = Inl (UnalignedAccess a)"
  by (simp add: set_memory_def aligned_iff)

lemma div_mod_in_page:
  assumes "x mod 4096 + i < (4096::nat)"
  shows "(x + i) div 4096 = x div 4096" and "(x + i) mod 4096 = x mod 4096 + i"
proof -
  have i: "i div 4096 = 0" "i mod 4096 = i" using assms by simp_all
  then show "(x + i) div 4096 = x div 4096"
    using assms by (simp add: div_add1_eq [of x i])
  have "(x + i) mod 4096 = (x mod 4096 + i) mod 4096" by (simp add: mod_add_left_eq)
  then show "(x + i) mod 4096 = x mod 4096 + i" using assms by simp
qed

lemma same_page:
  assumes "b div 4096 = x div (4096::nat)"
  shows "x \<le> b \<longleftrightarrow> x mod 4096 \<le> b mod 4096" and "b < x + n \<longleftrightarrow> b mod 4096 < x mod 4096 + n"
    and "b - x = b mod 4096 - x mod 4096"
proof -
  have "b = 4096 * (x div 4096) + b mod 4096" by (metis assms mult_div_mod_eq)
  moreover have "x = 4096 * (x div 4096) + x mod 4096" by simp
  ultimately show "x \<le> b \<longleftrightarrow> x mod 4096 \<le> b mod 4096" and "b < x + n \<longleftrightarrow> b mod 4096 < x mod 4096 + n"
    and "b - x = b mod 4096 - x mod 4096"
    by linarith+
qed

lemma get_memory_ok:
  assumes ok: "mem_ok k m" and al: "unat a mod 4 = 0"
  obtains lp where "get_memory a m = Inr (mem_word m a, m\<lparr>last_page := lp\<rparr>)" and "mem_ok k (m\<lparr>last_page := lp\<rparr>)"
proof -
  obtain lp where lp: "page_lookup (unat a div 4096) m = (pages m (unat a div 4096), m\<lparr>last_page := lp\<rparr>)"
    "last_page_ok (m\<lparr>last_page := lp\<rparr>)"
    using page_lookup_eq [OF mem_okD(2) [OF ok]] by metis
  have off: "unat a mod 4096 + 4 \<le> 4096" by (rule aligned_in_page [OF al])
  have "get_memory a m = Inr (mem_word m a, m\<lparr>last_page := lp\<rparr>)"
  proof (cases "pages m (unat a div 4096)")
    case None
    with off have "map (\<lambda>i. mem_byte m (unat a + i)) [0..<4] = map (\<lambda>_. 0) [0..<4]"
      by (auto simp: mem_byte_def div_mod_in_page)
    then have "mem_word m a = 0" unfolding mem_word_def by (simp add: from_be_def upt_rec)
    with None lp(1) al show ?thesis by (simp add: get_memory_def address_simps)
  next
    case (Some r)
    have len: "length (data (cell m r)) = 4096"
      by (rule page_okD(1) [OF pages_okD(3) [OF mem_okD(1) [OF ok] Some]])
    have "slice_at (unat a mod 4096) (unat a mod 4096 + 4) (data (cell m r))
        = map (\<lambda>i. mem_byte m (unat a + i)) [0..<4]"
      using off len Some by (intro nth_equalityI) (simp_all add: nth_slice mem_byte_def div_mod_in_page)
    with lp(1) al Some show ?thesis
      by (simp add: get_memory_def address_simps mem_word_def)
  qed
  with that show ?thesis using mem_ok_last_page [OF ok lp(2)] by blast
qed

lemma set_memory_write:
  assumes ok: "mem_ok k m" and r: "pages m i = Some r" and i: "i = unat a div 4096" and al: "unat a mod 4 = 0"
    and p: "page_ok k p" and c: "cell m r = page_invalidated (unat a mod 4096) p"
    and inv: "\<And>s. 0 < s \<Longrightarrow> s \<le> 20 \<Longrightarrow> nodes m (ancestor i s) = Some None"
    and w: "m' = set_cell r ((cell m r)\<lparr>data := copy_from_slice (unat a mod 4096) (u32_be v) (data (cell m r))\<rparr>) m"
  shows "mem_ok k m'" and "mem_byte m' = overwrite (unat a) (u32_be v) (mem_byte m)"
proof -
  have off: "unat a mod 4096 + 4 \<le> 4096" by (rule aligned_in_page [OF al])
  have len: "length (data p) = 4096" by (rule page_okD(1) [OF p])
  let ?d = "copy_from_slice (unat a mod 4096) (u32_be v) (data p)"
  have same: "?d ! j = data p ! j" if "j < 4096" "j div 64 \<noteq> unat a mod 4096 div 64" for j
  proof -
    have "(unat a mod 4096 + t) div 64 = unat a mod 4096 div 64" if "t < 4" for t
      using that al by (intro aligned_block) (simp_all add: mod_mod_cancel)
    then have "\<not> (unat a mod 4096 \<le> j \<and> j < unat a mod 4096 + 4)"
      using that(2) by (metis le_add_diff_inverse nat_add_left_cancel_less)
    with that(1) off len show ?thesis by (subst nth_copy_from_slice) auto
  qed
  have "page_ok k (page_invalidated (unat a mod 4096) p\<lparr>data := ?d\<rparr>)"
    by (rule page_invalidated_ok [OF p _ _ same]) (use off len in simp_all)
  then show "mem_ok k m'"
    unfolding w c by (intro set_cell_ok [OF ok r _ inv]) simp_all
  show "mem_byte m' = overwrite (unat a) (u32_be v) (mem_byte m)"
  proof
    fix b
    show "mem_byte m' b = overwrite (unat a) (u32_be v) (mem_byte m) b"
    proof (cases "b div 4096 = i")
      case True
      then have "mem_byte m b = data p ! (b mod 4096)" using r c by (simp add: mem_byte_def)
      moreover have "b div 4096 = unat a div 4096" using True i by simp
      note same_page [OF this]
      ultimately show ?thesis
        using True off len unfolding w c mem_byte_set_cell [OF mem_okD(1) [OF ok] r] overwrite_def
        by (simp add: nth_copy_from_slice)
    next
      case False
      have "\<not> (unat a \<le> b \<and> b < unat a + 4)"
      proof
        assume h: "unat a \<le> b \<and> b < unat a + 4"
        then have "unat a mod 4096 + (b - unat a) < 4096" using off by linarith
        from div_mod_in_page(1) [OF this] h i False show False by simp
      qed
      with False show ?thesis
        unfolding w c mem_byte_set_cell [OF mem_okD(1) [OF ok] r] by (auto simp: overwrite_def)
    qed
  qed
qed

text \<open>A store to a page that exists, after the lookup.\<close>

lemma set_memory_present:
  assumes ok: "mem_ok k m" and al: "unat a mod 4 = 0" and r: "pages m (unat a div 4096) = Some r"
  obtains m2 where "mem_invalidate a m = Inr m2" and "pages m2 = pages m"
    and "mem_ok k (set_cell r ((cell m2 r)\<lparr>data := copy_from_slice (unat a mod 4096) (u32_be v) (data (cell m2 r))\<rparr>) m2)"
    and "mem_byte (set_cell r ((cell m2 r)\<lparr>data := copy_from_slice (unat a mod 4096) (u32_be v) (data (cell m2 r))\<rparr>) m2)
      = overwrite (unat a) (u32_be v) (mem_byte m)"
proof -
  let ?i = "unat a div 4096" and ?o = "unat a mod 4096"
  obtain m2 where m2: "mem_invalidate a m = Inr m2" "mem_ok k m2" "pages m2 = pages m"
      "page_heap m2 = (page_heap m)[r := page_invalidated ?o (cell m r)]"
      "\<And>s. 0 < s \<Longrightarrow> s \<le> 20 \<Longrightarrow> nodes m2 (ancestor ?i s) = Some None"
    using mem_invalidate_page [OF ok al r] by auto
  note pr = pages_okD [OF mem_okD(1) [OF ok] r]
  have bytes: "mem_byte m2 = mem_byte m"
    using m2(3,4) pr(2) by (auto simp: mem_byte_def fun_eq_iff nth_list_update split: option.split)
  have c: "cell m2 r = page_invalidated ?o (cell m r)" using m2(4) pr(2) by simp
  have r2: "pages m2 ?i = Some r" using m2(3) r by simp
  from set_memory_write [OF m2(2) r2 refl al pr(3) c m2(5) refl, where v = v] m2(1,3) bytes show ?thesis
    by (intro that [of m2]) auto
qed

text \<open>A store to a page that is allocated for it.\<close>

lemma set_memory_absent:
  fixes a v :: u32
  assumes ok: "mem_ok k m" and al: "unat a mod 4 = 0" and none: "pages m (unat a div 4096) = None"
  defines "r \<equiv> length (page_heap m)"
  defines "m3 \<equiv> set_cell r (page_invalidated (unat a mod 4096) (default_page k)) (allocated k (unat a div 4096) m)"
  defines "m' \<equiv> set_cell r ((cell m3 r)\<lparr>data := copy_from_slice (unat a mod 4096) (u32_be v) (data (cell m3 r))\<rparr>) m3"
  shows "mem_ok k m'" and "mem_byte m' = overwrite (unat a) (u32_be v) (mem_byte m)"
    and "dom (pages m') = insert (unat a div 4096) (dom (pages m))"
proof -
  let ?i = "unat a div 4096" and ?o = "unat a mod 4096"
  let ?m2 = "allocated k ?i m"
  note i = page_index_less [of a] and po = mem_okD(1) [OF ok]
  note f = allocated_fields [OF i]
  have ok2: "mem_ok k ?m2" by (rule allocated_ok [OF ok none i])
  have cut: "nodes ?m2 (ancestor ?i s) = Some None" if "0 < s" "s \<le> 20" for s
    using that by (auto simp: f invalidate_path_ancestor [OF i])
  have "page_ok k (page_invalidated ?o (default_page k)\<lparr>data := data (default_page k)\<rparr>)"
    using page_okD(1) [OF default_page_ok] by (intro page_invalidated_ok default_page_ok) simp_all
  then have p: "page_ok k (page_invalidated ?o (default_page k))" by (simp add: page_invalidated_def)
  have r2: "pages ?m2 ?i = Some r" by (simp add: f r_def)
  have ok3: "mem_ok k m3" unfolding m3_def by (rule set_cell_ok [OF ok2 r2 p cut])
  have bytes: "mem_byte m3 = mem_byte m"
    unfolding m3_def using mem_byte_set_cell [OF mem_okD(1) [OF ok2] r2] mem_byte_allocated [OF po none i] none
    by (auto simp: fun_eq_iff) (simp add: mem_byte_def default_page_def)
  have r3: "pages m3 ?i = Some r" and c3: "cell m3 r = page_invalidated ?o (default_page k)"
    and cut3: "\<And>s. 0 < s \<Longrightarrow> s \<le> 20 \<Longrightarrow> nodes m3 (ancestor ?i s) = Some None"
    using cut by (simp_all add: m3_def f r_def)
  from set_memory_write [OF ok3 r3 refl al default_page_ok c3 cut3 refl, where v = v] bytes
  show "mem_ok k m'" and "mem_byte m' = overwrite (unat a) (u32_be v) (mem_byte m)" unfolding m'_def by simp_all
  show "dom (pages m') = insert ?i (dom (pages m))" by (simp add: m'_def m3_def f)
qed

lemma set_memory_ok:
  assumes ok: "mem_ok k m" and al: "unat a mod 4 = 0"
  obtains m' where "set_memory k a v m = Inr m'" and "mem_ok k m'"
    and "mem_byte m' = overwrite (unat a) (u32_be v) (mem_byte m)"
    and "dom (pages m') = insert (unat a div 4096) (dom (pages m))"
proof -
  let ?i = "unat a div 4096"
  obtain lp where lp: "page_lookup ?i m = (pages m ?i, m\<lparr>last_page := lp\<rparr>)" "last_page_ok (m\<lparr>last_page := lp\<rparr>)"
    using page_lookup_eq [OF mem_okD(2) [OF ok]] by metis
  let ?m1 = "m\<lparr>last_page := lp\<rparr>"
  have ok1: "mem_ok k ?m1" by (rule mem_ok_last_page [OF ok lp(2)])
  show ?thesis
  proof (cases "pages m ?i")
    case (Some r)
    then have r: "pages ?m1 ?i = Some r" by simp
    show ?thesis
      by (rule set_memory_present [OF ok1 al r, where v = v], rule that)
        (use al lp(1) Some in \<open>auto simp: set_memory_def address_simps mem_byte_fields\<close>)
  next
    case None
    then have n: "pages ?m1 ?i = None" by simp
    note w = set_memory_absent [OF ok1 al n, where v = v, unfolded mem_byte_fields]
    show ?thesis
      by (rule that [OF _ w(1,2)]) (use al lp(1) None w(3) in
        \<open>simp_all add: set_memory_def address_simps alloc_page_eq allocated_fields [OF page_index_less] Let_def page_invalidate_nat\<close>)
  qed
qed

section \<open>The interface of a word memory\<close>

text \<open>
  What the machine and the loader rely on: aligned loads read the contents, aligned stores
  overwrite four bytes of it, everything else is an error. The facts about sequences of loads and
  stores follow from these laws alone.
\<close>

abbreviation word_at :: "(nat \<Rightarrow> u8) \<Rightarrow> u32 \<Rightarrow> u32" where
  "word_at f a \<equiv> from_be (map (\<lambda>i. f (unat a + i)) [0..<4])"

lemma word_at_overwrite_same: "word_at (overwrite (unat a) (u32_be v) f) a = v"
proof -
  have "map (\<lambda>i. overwrite (unat a) (u32_be v) f (unat a + i)) [0..<4] = u32_be v"
    by (rule nth_equalityI) (simp_all add: overwrite_def)
  then show ?thesis by simp
qed

lemma aligned_disjoint:
  assumes "unat (a :: u32) mod 4 = 0" and "unat b mod 4 = 0" and "a \<noteq> b" and "i < 4"
  shows "unat b + i < unat a \<or> unat a + 4 \<le> unat b + i"
proof -
  have "unat a \<noteq> unat b" using assms(3) by (simp add: word_unat_eq_iff)
  with assms(1,2,4) show ?thesis by presburger
qed

lemma word_at_overwrite_other:
  assumes "unat a mod 4 = 0" and "unat b mod 4 = 0" and "a \<noteq> b"
  shows "word_at (overwrite (unat a) (u32_be v) f) b = word_at f b"
proof -
  have "overwrite (unat a) (u32_be v) f (unat b + i) = f (unat b + i)" if "i < 4" for i
    using aligned_disjoint [OF assms that] by (auto simp: overwrite_def)
  then have "map (\<lambda>i. overwrite (unat a) (u32_be v) f (unat b + i)) [0..<4] = map (\<lambda>i. f (unat b + i)) [0..<4]"
    by (intro map_cong) simp_all
  then show ?thesis by (rule arg_cong)
qed

locale word_memory =
  fixes load :: "u32 \<Rightarrow> 'm \<Rightarrow> (u32 \<times> 'm) res"
    and store :: "u32 \<Rightarrow> u32 \<Rightarrow> 'm \<Rightarrow> 'm res"
    and bytes_of :: "'m \<Rightarrow> nat \<Rightarrow> u8"
    and invar :: "'m \<Rightarrow> bool"
  assumes load_aligned: "invar m \<Longrightarrow> unat a mod 4 = 0 \<Longrightarrow>
      \<exists>m'. load a m = Inr (word_at (bytes_of m) a, m') \<and> invar m' \<and> bytes_of m' = bytes_of m"
    and load_unaligned: "unat a mod 4 \<noteq> 0 \<Longrightarrow> load a m = Inl (UnalignedAccess a)"
    and store_aligned: "invar m \<Longrightarrow> unat a mod 4 = 0 \<Longrightarrow>
      \<exists>m'. store a v m = Inr m' \<and> invar m' \<and> bytes_of m' = overwrite (unat a) (u32_be v) (bytes_of m)"
    and store_unaligned: "unat a mod 4 \<noteq> 0 \<Longrightarrow> store a v m = Inl (UnalignedAccess a)"
begin

lemma load_Inr:
  assumes "invar m" and "load a m = Inr (v, m')"
  shows "unat a mod 4 = 0" "v = word_at (bytes_of m) a" "invar m'" "bytes_of m' = bytes_of m"
proof -
  show al: "unat a mod 4 = 0" using assms(2) load_unaligned by (metis Inl_Inr_False)
  show "v = word_at (bytes_of m) a" "invar m'" "bytes_of m' = bytes_of m"
    using load_aligned [OF assms(1) al] assms(2) by auto
qed

lemma store_Inr:
  assumes "invar m" and "store a v m = Inr m'"
  shows "unat a mod 4 = 0" "invar m'" "bytes_of m' = overwrite (unat a) (u32_be v) (bytes_of m)"
proof -
  show al: "unat a mod 4 = 0" using assms(2) store_unaligned by (metis Inl_Inr_False)
  show "invar m'" "bytes_of m' = overwrite (unat a) (u32_be v) (bytes_of m)"
    using store_aligned [OF assms(1) al, of v] assms(2) by auto
qed

lemma load_store_same:
  assumes "invar m" and "store a v m = Inr m'"
  shows "\<exists>m''. load a m' = Inr (v, m'')"
  using load_aligned [OF store_Inr(2) [OF assms] store_Inr(1) [OF assms]] store_Inr(3) [OF assms]
  by (auto simp: word_at_overwrite_same)

lemma load_store_other:
  assumes "invar m" and "store a v m = Inr m'" and "unat b mod 4 = 0" and "a \<noteq> b"
  shows "map_sum id fst (load b m') = map_sum id fst (load b m)"
  using load_aligned [OF store_Inr(2) [OF assms(1,2)] assms(3)] load_aligned [OF assms(1,3)]
    store_Inr(3) [OF assms(1,2)] word_at_overwrite_other [OF store_Inr(1) [OF assms(1,2)] assms(3,4)]
  by auto

end

lemma memory_word_memory: "word_memory get_memory (set_memory k) mem_byte (mem_ok k)"
proof
  fix m a v
  show "\<exists>m'. get_memory a m = Inr (word_at (mem_byte m) a, m') \<and> mem_ok k m' \<and> mem_byte m' = mem_byte m"
    if "mem_ok k m" and "unat a mod 4 = 0"
    using get_memory_ok [OF that] by (metis mem_byte_fields(1) mem_word_def)
  show "\<exists>m'. set_memory k a v m = Inr m' \<and> mem_ok k m' \<and> mem_byte m' = overwrite (unat a) (u32_be v) (mem_byte m)"
    if "mem_ok k m" and "unat a mod 4 = 0"
    using set_memory_ok [OF that] by metis
qed (simp_all add: get_memory_unaligned set_memory_unaligned)

interpretation wm: word_memory get_memory "set_memory k" mem_byte "mem_ok k"
  for k
  by (rule memory_word_memory)

section \<open>Properties\<close>

text \<open>C6. The memory behaves as an array of bytes. An aligned store succeeds, overwrites four bytes in big
  endian order and keeps the invariant; a load from the same address then returns the stored word,
  and a load from any other aligned address what it returned before. Unaligned accesses are errors.\<close>

theorem memory_refines_array:
  assumes "mem_ok k m"
  shows "if unat a mod 4 = 0
    then (\<exists>m'. set_memory k a v m = Inr m' \<and> mem_ok k m' \<and> mem_byte m' = overwrite (unat a) (u32_be v) (mem_byte m)
        \<and> map_sum id fst (get_memory a m') = Inr v
        \<and> (\<forall>b. unat b mod 4 = 0 \<and> b \<noteq> a \<longrightarrow> map_sum id fst (get_memory b m') = map_sum id fst (get_memory b m)))
      \<and> (\<exists>m''. get_memory a m = Inr (word_at (mem_byte m) a, m'') \<and> mem_ok k m'' \<and> mem_byte m'' = mem_byte m)
    else set_memory k a v m = Inl (UnalignedAccess a) \<and> get_memory a m = Inl (UnalignedAccess a)"
proof (cases "unat a mod 4 = 0")
  case True
  obtain m' where m': "set_memory k a v m = Inr m'" "mem_ok k m'" "mem_byte m' = overwrite (unat a) (u32_be v) (mem_byte m)"
    using wm.store_aligned [OF assms True] by blast
  have "map_sum id fst (get_memory a m') = Inr v" using wm.load_store_same [OF assms m'(1)] by auto
  moreover have "map_sum id fst (get_memory b m') = map_sum id fst (get_memory b m)" if "unat b mod 4 = 0 \<and> b \<noteq> a" for b
    using wm.load_store_other [OF assms m'(1), of b] that by auto
  ultimately show ?thesis using True m' wm.load_aligned [OF assms True] by simp
next
  case False
  then show ?thesis by (simp add: get_memory_unaligned set_memory_unaligned)
qed

theorem memory_refines_array_witness:
  "\<exists>m'. set_memory (\<lambda>_. zero32) 8 77 memory_default = Inr m' \<and> map_sum id fst (get_memory 8 m') = Inr 77"
  using memory_refines_array [OF memory_default_ok, of 8 "\<lambda>_. zero32" 77] by (simp del: be_bytes.simps) blast

end
