(* ===== verification/Memory_Tree.thy ===== *)
theory Memory_Tree
  imports Memory_Spec
begin

text \<open>
  Merkleization of the memory: with the invariant of \<open>Memory_Spec\<close>, every node of the 28 levels
  is hashed as in the reference tree over the contents, whatever is cached, and merkleization
  changes caches only. Branches returned by \<open>merkle_proof\<close> therefore verify against the root.
\<close>

section \<open>Memories that differ in their caches only\<close>

definition mem_extends :: "memory \<Rightarrow> memory \<Rightarrow> bool" where
  "mem_extends m m' \<longleftrightarrow> pages m' = pages m \<and> last_page m' = last_page m
     \<and> length (page_heap m') = length (page_heap m)
     \<and> (\<forall>r < length (page_heap m). page_extends (cell m r) (cell m' r))"

lemma mem_extends_refl [simp]: "mem_extends m m"
  by (simp add: mem_extends_def)

lemma mem_extends_trans: "mem_extends m m' \<Longrightarrow> mem_extends m' m'' \<Longrightarrow> mem_extends m m''"
  by (auto simp: mem_extends_def intro: page_extends_trans)

lemma mem_extends_byte:
  assumes "pages_ok k m" and "mem_extends m m'"
  shows "mem_byte m' = mem_byte m"
proof
  fix a
  show "mem_byte m' a = mem_byte m a"
  proof (cases "pages m (a div 4096)")
    case (Some r)
    then have "page_extends (cell m r) (cell m' r)"
      using assms pages_okD(2) [OF assms(1)] by (simp add: mem_extends_def)
    with Some assms(2) show ?thesis
      by (simp add: mem_byte_def mem_extends_def page_extends_data)
  qed (use assms(2) in \<open>simp add: mem_byte_def mem_extends_def\<close>)
qed

lemma mem_extends_leaf:
  assumes "pages_ok k m" and "mem_extends m m'"
  shows "mem_leaf m' = mem_leaf m"
  unfolding mem_leaf_def mem_extends_byte [OF assms] ..

text \<open>A page is clean if the root of its own tree is cached.\<close>

definition clean :: "memory \<Rightarrow> nat \<Rightarrow> bool" where
  "clean m i \<longleftrightarrow> (\<forall>r. pages m i = Some r \<longrightarrow> valid (cell m r) ! 1)"

lemma clean_extends: "pages_ok k m \<Longrightarrow> mem_extends m m' \<Longrightarrow> clean m i \<Longrightarrow> clean m' i"
  by (auto simp: clean_def mem_extends_def page_extends_def dest: pages_okD(2))

text \<open>All pages below a node are clean.\<close>

definition clean_below :: "memory \<Rightarrow> nat \<Rightarrow> bool" where
  "clean_below m g \<longleftrightarrow> (\<forall>i s. i < 1048576 \<longrightarrow> s \<le> 20 \<longrightarrow> ancestor i s = g \<longrightarrow> clean m i)"

lemma clean_below_children:
  assumes "clean_below m (2 * g)" and "clean_below m (Suc (2 * g))" and "g < 1048576"
  shows "clean_below m g"
  unfolding clean_below_def
proof (intro allI impI)
  fix i s
  assume i: "i < 1048576" and s: "s \<le> 20" and g: "ancestor i s = g"
  have "0 < s" using g assms(3) by (cases s) (auto simp: ancestor_0)
  then obtain t where t: "s = Suc t" by (cases s) auto
  then have "ancestor i t = 2 * g \<or> ancestor i t = Suc (2 * g)"
    using g by (auto simp: ancestor_Suc)
  moreover have "t \<le> 20" using s t by simp
  ultimately show "clean m i"
    using assms(1,2) i unfolding clean_below_def by blast
qed

section \<open>Page nodes\<close>

lemma leaf_of_page:
  assumes "pages_ok k m" and "pages m i = Some r" and "j < 128"
  shows "mem_leaf m (i * 128 + j) = page_leaf (data (cell m r)) j"
proof (rule nth_equalityI)
  have len: "length (data (cell m r)) = 4096"
    by (rule page_okD(1) [OF pages_okD(3) [OF assms(1,2)]])
  then show "length (mem_leaf m (i * 128 + j)) = length (page_leaf (data (cell m r)) j)"
    using assms(3) by (simp add: length_page_leaf)
  fix t
  assume "t < length (mem_leaf m (i * 128 + j))"
  then have t: "t < 32" by simp
  have a: "32 * (i * 128 + j) + t = (32 * j + t) + 4096 * i" by simp
  have "32 * j + t < 4096" using assms(3) t by simp
  then have "(32 * (i * 128 + j) + t) div 4096 = i" "(32 * (i * 128 + j) + t) mod 4096 = 32 * j + t"
    unfolding a by simp_all
  then show "mem_leaf m (i * 128 + j) ! t = page_leaf (data (cell m r)) j ! t"
    using assms(2,3) t len by (simp add: nth_mem_leaf mem_byte_def page_leaf_def nth_slice)
qed

lemma leaf_of_absent_page: "pages m (l div 128) = None \<Longrightarrow> mem_leaf m l = zero32"
proof -
  assume none: "pages m (l div 128) = None"
  have "mem_byte m (32 * l + t) = 0" if "t < 32" for t
  proof -
    have "(32 * l + t) div 32 = l" using that by simp
    then have "(32 * l + t) div 4096 = l div 128" using div_mult2_eq [of "32 * l + t" 32 128] by simp
    with none show ?thesis by (simp add: mem_byte_def)
  qed
  then show ?thesis by (intro nth_equalityI) (simp_all add: nth_mem_leaf zero32_def)
qed

text \<open>A node inside a page, from its generalized index in the memory.\<close>

lemma page_gindex:
  assumes "0 < g" and "20 < bit_len g" and "bit_len g \<le> 28"
  defines "d \<equiv> bit_len g - 21"
  defines "i \<equiv> g div 2 ^ d - 1048576"
  shows "drop_bit d g AND 1048575 = i" and "i < 1048576" and "d \<le> 7"
    and "push_bit d 1 OR (g AND (push_bit d 1 - 1)) = 2 ^ d + g mod 2 ^ d"
    and "g - 2 ^ (bit_len g - 1) = i * 2 ^ d + g mod 2 ^ d"
    and "ancestor i 0 = g div 2 ^ d"
proof -
  have b: "2 ^ (bit_len g - 1) \<le> g" "g < 2 ^ bit_len g"
    using bit_len_bounds [OF assms(1)] by auto
  have e: "bit_len g - 1 = 20 + d" "bit_len g = 21 + d" using assms(2) by (simp_all add: d_def)
  have lo: "1048576 \<le> g div 2 ^ d"
    using b(1) by (simp add: e power_add less_eq_div_iff_mult_less_eq)
  have hi: "g div 2 ^ d < 2097152"
    using b(2) by (simp add: e power_add div_less_iff_less_mult)
  show "i < 1048576" using hi lo by (simp add: i_def)
  show "d \<le> 7" using assms(3) by (simp add: d_def)
  have "g div 2 ^ d = i + 1048576" using lo by (simp add: i_def)
  then have "g div 2 ^ d mod 1048576 = i" using \<open>i < 1048576\<close> by simp
  then show "drop_bit d g AND 1048575 = i"
    using and_low_mask [of "g div 2 ^ d" 20] by (simp add: drop_bit_eq_div)
  have "g mod 2 ^ d < 2 ^ d" by simp
  then show "push_bit d 1 OR (g AND (push_bit d 1 - 1)) = 2 ^ d + g mod 2 ^ d"
    using or_pow_add [of "g mod 2 ^ d" d 1] and_low_mask [of g d] by (simp add: push_bit_eq_mult)
  have "g = g div 2 ^ d * 2 ^ d + g mod 2 ^ d" by (rule div_mult_mod_eq [symmetric])
  then have "g = i * 2 ^ d + 1048576 * 2 ^ d + g mod 2 ^ d"
    using \<open>g div 2 ^ d = i + 1048576\<close> by (metis add_mult_distrib)
  moreover have "(2::nat) ^ (bit_len g - 1) = 1048576 * 2 ^ d" by (simp add: e power_add)
  ultimately show "g - 2 ^ (bit_len g - 1) = i * 2 ^ d + g mod 2 ^ d" by linarith
  show "ancestor i 0 = g div 2 ^ d" using lo by (simp add: ancestor_0 i_def)
qed

lemma ghash_page:
  assumes "0 < g" and "20 < bit_len g" and "bit_len g \<le> 28"
    and "\<And>x. x < 128 \<Longrightarrow> leaf ((g div 2 ^ (bit_len g - 21) - 1048576) * 128 + x) = leaf' x"
  shows "ghash k leaf 27 g = subtree k leaf' (28 - bit_len g) (g mod 2 ^ (bit_len g - 21))"
proof -
  let ?d = "bit_len g - 21" and ?i = "g div 2 ^ (bit_len g - 21) - 1048576"
  note pg = page_gindex [OF assms(1-3)]
  have h: "28 - bit_len g + ?d = 7" using assms(2,3) by simp
  have "subtree k leaf (28 - bit_len g) (?i * 2 ^ ?d + g mod 2 ^ ?d)
      = subtree k leaf' (28 - bit_len g) (g mod 2 ^ ?d)"
    by (rule subtree_offset) (simp_all add: h assms(4))
  then show ?thesis unfolding ghash_def pg(5) by simp
qed

lemma extend_cell_ok:
  assumes ok: "mem_ok k m" and r: "pages m i = Some r" and p: "page_ok k p" and ext: "page_extends (cell m r) p"
  shows "mem_ok k (set_cell r p m)" and "mem_extends m (set_cell r p m)"
proof -
  note po = mem_okD(1) [OF ok] and no = mem_okD(3) [OF ok]
  show e: "mem_extends m (set_cell r p m)"
    unfolding mem_extends_def using ext by (auto simp: nth_list_update_eq) (metis nth_list_update_eq nth_list_update_neq page_extends_refl)
  have "valid p ! 1" if "valid (cell m r) ! 1"
    using ext that by (simp add: page_extends_def)
  then have "nodes m (ancestor j s) = Some None"
    if "pages m j = Some q" "\<not> valid (cell (set_cell r p m) q) ! 1" "0 < s" "s \<le> 20" for j q s
    using that nodes_okD(3) [OF no that(1)] pages_okD(2) [OF po r] by (cases "q = r") auto
  then have "nodes_ok k (set_cell r p m)"
    using nodes_okD(1,2) [OF no] mem_extends_leaf [OF po e] unfolding nodes_ok_def by simp
  then show "mem_ok k (set_cell r p m)"
    using pages_ok_set_cell [OF po p] mem_okD(2) [OF ok] by (simp add: mem_ok_def last_page_ok_def)
qed

text \<open>What merkleization of node \<open>g\<close> promises.\<close>

definition merkleized_at :: "hash_fn \<Rightarrow> nat \<Rightarrow> memory \<Rightarrow> (bytes \<times> memory) res \<Rightarrow> bool" where
  "merkleized_at k g m res \<longleftrightarrow> (\<exists>m'. res = Inr (ghash k (mem_leaf m) 27 g, m')
     \<and> mem_ok k m' \<and> mem_extends m m' \<and> (bit_len g \<le> 21 \<longrightarrow> clean_below m' g))"

text \<open>A node inside a page that exists: the page computes it, and only the page changes.\<close>

lemma page_node_hash:
  assumes ok: "mem_ok k m" and g: "0 < g" "20 < bit_len g" "bit_len g \<le> 28"
    and r: "pages m (g div 2 ^ (bit_len g - 21) - 1048576) = Some r"
  defines "pg \<equiv> 2 ^ (bit_len g - 21) + g mod 2 ^ (bit_len g - 21)"
  obtains p where "page_merkleize_subtree k pg (cell m r) = Inr (ghash k (mem_leaf m) 27 g, p)"
    and "page_ok k p" and "page_extends (cell m r) p" and "pg < 128 \<longrightarrow> valid p ! pg"
proof -
  let ?d = "bit_len g - 21" and ?j = "g mod 2 ^ (bit_len g - 21)"
  note pi = page_gindex [OF g] and po = mem_okD(1) [OF ok]
  note pr = pages_okD [OF po r]
  have j: "?j < 2 ^ ?d" by simp
  have "(2::nat) ^ ?d \<le> 2 ^ 7" using pi(3) by (rule power_increasing) simp
  then have "(2::nat) ^ ?d \<le> 128" by simp
  with j have "pg < 256" unfolding pg_def by linarith
  then obtain p where p: "page_merkleize_subtree k pg (cell m r) = Inr (ghash k (page_leaf (data (cell m r))) 7 pg, p)"
      "page_ok k p" "page_extends (cell m r) p" "pg < 128 \<longrightarrow> valid p ! pg"
    using page_merkleize_correct [OF pr(3), of pg] j by (auto simp: pg_def)
  have "bit_len pg = Suc ?d" using j unfolding pg_def by (intro bit_len_unique) simp_all
  then have "ghash k (page_leaf (data (cell m r))) 7 pg = subtree k (page_leaf (data (cell m r))) (28 - bit_len g) ?j"
    using pi(3) g(2) by (simp add: ghash_def pg_def Suc_diff_le)
  also have "\<dots> = ghash k (mem_leaf m) 27 g"
    using leaf_of_page [OF po r] by (intro ghash_page [OF g, symmetric]) simp
  finally show ?thesis using p that by simp
qed

lemma merkleize_page_node:
  assumes ok: "mem_ok k m" and g: "0 < g" "20 < bit_len g" "bit_len g \<le> 28"
  shows "merkleized_at k g m (mem_merkleize_subtree k g m)"
proof -
  let ?d = "bit_len g - 21" and ?i = "g div 2 ^ (bit_len g - 21) - 1048576" and ?j = "g mod 2 ^ (bit_len g - 21)"
  note pg = page_gindex [OF g] and po = mem_okD(1) [OF ok]
  have only: "j = ?i" if "bit_len g \<le> 21" "j < 1048576" "s \<le> 20" "ancestor j s = g" for j s
    using ancestor_level [OF that(2,3,4)] that(1,4) g(2) pg(6) by (simp add: ancestor_0)
  have unfold: "mem_merkleize_subtree k g m = (case pages m ?i of
      None \<Rightarrow> Inr (ZERO_HASHES k ! (28 - bit_len g), m)
    | Some r \<Rightarrow> rbind (page_merkleize_subtree k (2 ^ ?d + ?j) (cell m r)) (\<lambda>(hash, p). Inr (hash, set_cell r p m)))"
    using g pg(1,4) by (subst mem_merkleize_subtree.simps) (simp add: Let_def split: option.split)
  show ?thesis
  proof (cases "pages m ?i")
    case None
    have "ghash k (mem_leaf m) 27 g = subtree k (\<lambda>_. zero32) (28 - bit_len g) ?j"
      using None by (intro ghash_page [OF g]) (simp add: leaf_of_absent_page)
    also have "\<dots> = ZERO_HASHES k ! (28 - bit_len g)"
      by (subst subtree_zero) (simp_all add: ZERO_HASHES_nth)
    finally show ?thesis
      using unfold None ok only by (auto simp: merkleized_at_def clean_below_def clean_def)
  next
    case (Some r)
    note pr = pages_okD [OF po Some]
    obtain p where p: "page_merkleize_subtree k (2 ^ ?d + ?j) (cell m r) = Inr (ghash k (mem_leaf m) 27 g, p)"
      "page_ok k p" "page_extends (cell m r) p" "2 ^ ?d + ?j < 128 \<longrightarrow> valid p ! (2 ^ ?d + ?j)"
      by (rule page_node_hash [OF ok g Some])
    have "clean_below (set_cell r p m) g" if "bit_len g \<le> 21"
      unfolding clean_below_def clean_def
    proof (intro allI impI)
      fix t s q
      assume "t < 1048576" "s \<le> 20" "ancestor t s = g" and q: "pages (set_cell r p m) t = Some q"
      then have "t = ?i" using only that by blast
      with q Some have "q = r" by simp
      moreover have "valid p ! 1" using p(4) that by simp
      ultimately show "valid (cell (set_cell r p m) q) ! 1" using pr(2) by simp
    qed
    then show ?thesis
      using unfold Some p(1) extend_cell_ok [OF ok Some p(2,3)] by (auto simp: merkleized_at_def)
  qed
qed

section \<open>Inner nodes\<close>

lemma ghash_absent:
  assumes ok: "mem_ok k m" and g: "0 < g" "bit_len g \<le> 20" and none: "nodes m g = None"
  shows "ghash k (mem_leaf m) 27 g = ZERO_HASHES k ! (28 - bit_len g)" and "clean_below m g"
proof -
  have absent: "pages m i = None" if "i < 1048576" "ancestor i s = g" "s \<le> 20" for i s
  proof (rule ccontr)
    assume "pages m i \<noteq> None"
    then obtain r where r: "pages m i = Some r" by auto
    have "s = 21 - bit_len g" by (rule ancestor_level) (use that in simp_all)
    then have "0 < s" using g(2) by simp
    with nodes_okD(2) [OF mem_okD(3) [OF ok] r] that none show False by blast
  qed
  then show "clean_below m g"
    by (auto simp: clean_below_def clean_def)
  have "subtree k (mem_leaf m) (28 - bit_len g) (g - 2 ^ (bit_len g - 1)) = zero_hash k (28 - bit_len g)"
  proof (rule subtree_zero)
    fix l
    assume l: "(g - 2 ^ (bit_len g - 1)) * 2 ^ (28 - bit_len g) \<le> l"
      "l < Suc (g - 2 ^ (bit_len g - 1)) * 2 ^ (28 - bit_len g)"
    have "bit_len g \<le> 21" "0 < bit_len g" using g bit_len_half by auto
    with leaf_below [OF g(1) _ l] absent show "mem_leaf m l = zero32"
      by (intro leaf_of_absent_page) auto
  qed
  then show "ghash k (mem_leaf m) 27 g = ZERO_HASHES k ! (28 - bit_len g)"
    unfolding ghash_def by (simp add: ZERO_HASHES_nth)
qed

lemma store_node_ok:
  assumes ok: "mem_ok k m" and g: "0 < g" "g < 1048576" and c: "clean_below m g"
    and h: "h = ghash k (mem_leaf m) 27 g"
  shows "mem_ok k (m\<lparr>nodes := (nodes m)(g \<mapsto> Some h)\<rparr>)"
proof -
  note no = mem_okD(3) [OF ok] and po = mem_okD(1) [OF ok]
  have "ancestor i s \<noteq> g" if "pages m i = Some r" "\<not> valid (cell m r) ! 1" "s \<le> 20" for i r s
    using c that pages_okD(1) [OF po that(1)] unfolding clean_below_def clean_def by blast
  then have "nodes_ok k (m\<lparr>nodes := (nodes m)(g \<mapsto> Some h)\<rparr>)"
    using nodes_okD [OF no] h unfolding nodes_ok_def by (auto simp: mem_leaf_fields)
  with ok show ?thesis by (simp add: mem_ok_def pages_ok_def last_page_ok_def)
qed

lemma clean_below_extends:
  "pages_ok k m \<Longrightarrow> mem_extends m m' \<Longrightarrow> clean_below m g \<Longrightarrow> clean_below m' g"
  unfolding clean_below_def by (blast intro: clean_extends)

lemma merkleize_none:
  assumes "mem_ok k m" and "0 < g" and "bit_len g \<le> 20" and "nodes m g = None"
  shows "merkleized_at k g m (mem_merkleize_subtree k g m)"
proof -
  have "mem_merkleize_subtree k g m = Inr (ZERO_HASHES k ! (28 - bit_len g), m)"
    using assms(3,4) by (subst mem_merkleize_subtree.simps) simp
  with ghash_absent [OF assms] assms(1) show ?thesis by (simp add: merkleized_at_def)
qed

lemma merkleize_hit:
  assumes ok: "mem_ok k m" and g: "0 < g" "bit_len g \<le> 20" and hit: "nodes m g = Some (Some h)"
  shows "merkleized_at k g m (mem_merkleize_subtree k g m)"
proof -
  have "clean_below m g"
    unfolding clean_below_def clean_def
  proof (intro allI impI, rule ccontr)
    fix i s r
    assume i: "i < 1048576" "s \<le> 20" "ancestor i s = g" and r: "pages m i = Some r" "\<not> valid (cell m r) ! 1"
    have "s = 21 - bit_len g" by (rule ancestor_level) (use i in simp_all)
    then have "0 < s" using g(2) by simp
    from nodes_okD(3) [OF mem_okD(3) [OF ok] r this i(2)] i hit show False by simp
  qed
  moreover have "mem_merkleize_subtree k g m = Inr (h, m)"
    using hit g(2) by (subst mem_merkleize_subtree.simps) simp
  moreover have "g < 1048576" using g(2) bit_len_le_iff [of g 20] by simp
  ultimately show ?thesis
    using nodes_okD(1) [OF mem_okD(3) [OF ok] g(1) _ hit] ok by (simp add: merkleized_at_def)
qed

lemma merkleize_miss:
  assumes ok: "mem_ok k m" and g: "0 < g" "bit_len g \<le> 20" and miss: "nodes m g = Some None"
    and left: "merkleized_at k (2 * g) m (mem_merkleize_subtree k (2 * g) m)"
    and right: "\<And>m1. mem_ok k m1 \<Longrightarrow> merkleized_at k (2 * g + 1) m1 (mem_merkleize_subtree k (2 * g + 1) m1)"
  shows "merkleized_at k g m (mem_merkleize_subtree k g m)"
proof -
  let ?h = "ghash k (mem_leaf m) 27"
  have g20: "g < 1048576" using g(2) bit_len_le_iff [of g 20] by simp
  have b: "bit_len (2 * g) \<le> 21" "bit_len (2 * g + 1) \<le> 21" using g by (simp_all add: bit_len_simps)
  obtain m1 where m1: "mem_merkleize_subtree k (2 * g) m = Inr (?h (2 * g), m1)" "mem_ok k m1"
      "mem_extends m m1" "clean_below m1 (2 * g)"
    using left b by (auto simp: merkleized_at_def)
  note l1 = mem_extends_leaf [OF mem_okD(1) [OF ok] m1(3)]
  obtain m2 where m2: "mem_merkleize_subtree k (2 * g + 1) m1 = Inr (?h (2 * g + 1), m2)" "mem_ok k m2"
      "mem_extends m1 m2" "clean_below m2 (2 * g + 1)"
    using right [OF m1(2)] b l1 by (auto simp: merkleized_at_def)
  note l2 = mem_extends_leaf [OF mem_okD(1) [OF m1(2)] m2(3)]
  have "bit_len g \<le> 27" using g(2) by linarith
  then have gh: "?h g = keccak_concat_hashes k (?h (2 * g)) (?h (2 * g + 1))"
    unfolding Suc_eq_plus1 [symmetric] by (rule ghash_node [OF g(1)])
  have "clean_below m2 (2 * g)"
    by (rule clean_below_extends [OF mem_okD(1) [OF m1(2)] m2(3) m1(4)])
  then have c: "clean_below m2 g"
    using clean_below_children [of m2 g] m2(4) g20 by simp
  let ?m3 = "m2\<lparr>nodes := (nodes m2)(g \<mapsto> Some (?h g))\<rparr>"
  have "mem_ok k ?m3" using store_node_ok [OF m2(2) g(1) g20 c] l1 l2 by simp
  moreover have "mem_extends m ?m3"
    using mem_extends_trans [OF m1(3) m2(3)] by (simp add: mem_extends_def)
  moreover have "clean_below ?m3 g" using c by (simp add: clean_below_def clean_def)
  moreover have "mem_merkleize_subtree k g m = Inr (?h g, ?m3)"
    using g miss m1(1) m2(1) gh by (subst mem_merkleize_subtree.simps) (simp add: Let_def)
  ultimately show ?thesis by (auto simp: merkleized_at_def)
qed

lemma mem_merkleize_correct:
  assumes "mem_ok k m" and "0 < g" and "bit_len g \<le> 28"
  shows "merkleized_at k g m (mem_merkleize_subtree k g m)"
  using assms
proof (induction "28 - bit_len g" arbitrary: g m rule: less_induct)
  case less
  consider (page) "20 < bit_len g" | (none) "bit_len g \<le> 20" "nodes m g = None"
    | (hit) h where "bit_len g \<le> 20" "nodes m g = Some (Some h)" | (miss) "bit_len g \<le> 20" "nodes m g = Some None"
    by (cases "nodes m g") (auto simp: not_le [symmetric])
  then show ?case
  proof cases
    case page
    with less.prems show ?thesis by (intro merkleize_page_node)
  next
    case none
    with less.prems show ?thesis by (intro merkleize_none)
  next
    case hit
    with less.prems show ?thesis by (intro merkleize_hit)
  next
    case miss
    show ?thesis
    proof (rule merkleize_miss)
      show "merkleized_at k (2 * g) m (mem_merkleize_subtree k (2 * g) m)"
        using miss less.prems by (intro less.hyps) (simp_all add: bit_len_simps)
      show "merkleized_at k (2 * g + 1) m1 (mem_merkleize_subtree k (2 * g + 1) m1)" if "mem_ok k m1" for m1
        using miss less.prems that by (intro less.hyps) (simp_all add: bit_len_simps)
    qed (use miss less.prems in simp_all)
  qed
qed

lemma mem_merkleize_too_deep: "28 < bit_len g \<Longrightarrow> mem_merkleize_subtree k g m = Inl GindexTooDeep"
  by (subst mem_merkleize_subtree.simps) simp

end
