(* ===== verification/Memory_Proof.thy ===== *)
theory Memory_Proof
  imports Memory_Tree
begin

text \<open>
  The memory as a merkleized component, its root, and the branches of \<open>merkle_proof\<close>: every branch
  is the leaf followed by its siblings up to the root, and checks against the root.
\<close>

section \<open>The memory as a merkleized component\<close>

lemma mem_merkleize_node:
  assumes ok: "mem_ok k m" and "0 < g" and "g < 268435456"
  obtains m' where "mem_merkleize_subtree k g m = Inr (ghash k (mem_leaf m) 27 g, m')"
    and "mem_ok k m'" and "mem_extends m m'"
proof -
  have "g < 2 ^ 28" using assms(3) by simp
  then have "bit_len g \<le> 28" by (simp only: bit_len_le_iff)
  from mem_merkleize_correct [OF ok assms(2) this] show ?thesis
    unfolding merkleized_at_def by (elim exE conjE) (rule that)
qed

lemma memory_merkleized: "merkleized k 27 (mem_merkleize_subtree k) (mem_ok k) mem_leaf"
proof
  fix m and g :: nat
  assume ok: "mem_ok k m" and "0 < g" and "g < 2 ^ Suc 27"
  then have "g < 268435456" by simp
  then obtain m' where "mem_merkleize_subtree k g m = Inr (ghash k (mem_leaf m) 27 g, m')"
    and "mem_ok k m'" and "mem_extends m m'"
    using ok \<open>0 < g\<close> by (elim mem_merkleize_node [rotated 2])
  then show "\<exists>m'. mem_merkleize_subtree k g m = Inr (ghash k (mem_leaf m) 27 g, m')
      \<and> mem_ok k m' \<and> mem_leaf m' = mem_leaf m"
    using mem_extends_leaf [OF mem_okD(1) [OF ok]] by blast
qed

interpretation mt: merkleized k 27 "mem_merkleize_subtree k" "mem_ok k" mem_leaf
  for k
  by (rule memory_merkleized)

lemma merkle_root_ok:
  assumes ok: "mem_ok k m"
  obtains m' where "merkle_root k m = Inr (subtree k (mem_leaf m) 27 0, m')" and "mem_ok k m'" and "mem_extends m m'"
proof -
  obtain m' where "mem_merkleize_subtree k 1 m = Inr (ghash k (mem_leaf m) 27 1, m')" "mem_ok k m'" "mem_extends m m'"
    by (rule mem_merkleize_node [OF ok, of 1]) simp_all
  moreover have "ghash k (mem_leaf m) 27 1 = subtree k (mem_leaf m) 27 0"
    by (simp add: ghash_def bit_len.simps del: subtree.simps)
  ultimately show ?thesis by (intro that [of m']) (simp_all only: merkle_root_def)
qed

section \<open>Branches\<close>

lemma address_bit:
  "(a :: u32) AND push_bit n 1 \<noteq> 0 \<longleftrightarrow> odd (unat a div 2 ^ n)"
proof -
  have "a AND push_bit n 1 \<noteq> 0 \<longleftrightarrow> bit a n" by (simp add: and_exp_eq_0_iff_not_bit push_bit_eq_mult)
  also have "\<dots> \<longleftrightarrow> bit (unat a) n" by (simp only: bit_unsigned_iff) (auto dest: bit_imp_le_length)
  finally show ?thesis by (simp only: bit_iff_odd)
qed

lemma double_or_one: "2 * p OR 1 = Suc (2 * p :: nat)"
  using or_pow_add [of 1 1 p] by (simp add: push_bit_eq_mult mult.commute or.commute)

text \<open>The node at depth \<open>t\<close> above leaf \<open>idx\<close>.\<close>

definition path_node :: "nat \<Rightarrow> nat \<Rightarrow> nat" where
  "path_node idx t = 2 ^ t + idx div 2 ^ (27 - t)"

lemma ghash_at_depth:
  assumes "j < 2 ^ t" and "t \<le> 27"
  shows "ghash k leaf 27 (2 ^ t + j) = subtree k leaf (27 - t) j"
proof -
  have "bit_len (2 ^ t + j) = Suc t" using assms(1) by (intro bit_len_unique) simp_all
  then show ?thesis by (simp only: ghash_def diff_Suc_Suc diff_Suc_1 diff_add_inverse)
qed

lemma sibling_less: "j < 2 ^ Suc t \<Longrightarrow> sibling j < 2 ^ Suc t"
  by (auto simp: sibling_def elim!: evenE)

text \<open>The choice of child and sibling at depth \<open>t\<close>.\<close>

lemma path_step:
  assumes bit: "unat (a :: u32) div 2 ^ (31 - t) = q" and half: "idx div 2 ^ (27 - t) = q div 2"
    and q: "q < 2 ^ Suc t" and t: "t < 27"
  defines "left \<equiv> (2 * path_node idx t) mod 2 ^ 64"
  shows "(if a AND push_bit (31 - t) 1 \<noteq> 0 then (left OR 1, left) else (left, left OR 1))
    = (2 ^ Suc t + q, 2 ^ Suc t + sibling q)"
proof -
  have "(2::nat) ^ Suc t \<le> 2 ^ 27" using t by (intro power_increasing) simp_all
  then have "(2::nat) ^ Suc t \<le> 134217728" by simp
  moreover have path: "2 * path_node idx t = 2 ^ Suc t + 2 * (q div 2)"
    unfolding half path_node_def by simp
  ultimately have "2 * path_node idx t < 18446744073709551616" using q by linarith
  then have left: "left = 2 ^ Suc t + 2 * (q div 2)" unfolding left_def path by simp
  have left1: "left OR 1 = Suc left"
    using double_or_one [of "path_node idx t"] unfolding path left .
  show ?thesis
    unfolding address_bit bit left1 unfolding left
    by (cases "odd q") (auto simp: sibling_def elim!: oddE evenE)
qed

lemma traverse_branch_leaf:
  "traverse_branch k parent a 27 m = rbind (mem_merkleize_subtree k parent m) (\<lambda>(node, m1). Inr ([node], m1))"
  by (subst traverse_branch.simps) simp

lemma traverse_branch_node:
  assumes "t < 27" and "(let left = (2 * parent) mod 2 ^ 64 in
      if a AND push_bit (31 - t) 1 \<noteq> 0 then (left OR 1, left) else (left, left OR 1)) = (local, sib)"
  shows "traverse_branch k parent a t m =
      rbind (traverse_branch k local a (Suc t) m) (\<lambda>(proof_nodes, m1).
        rbind (mem_merkleize_subtree k sib m1) (\<lambda>(sibling_node, m2). Inr (proof_nodes @ [sibling_node], m2)))"
proof -
  have t: "t \<noteq> 32 - 5" "\<not> 32 - 5 < t" using assms(1) by simp_all
  show ?thesis
    using assms(2) by (subst traverse_branch.simps) (simp only: t Let_def if_False prod.case Suc_eq_plus1)
qed

lemma leaf_index_less: "unat (a :: u32) div 32 < 2 ^ 27"
  using unsigned_less [of a] by (simp add: div_less_iff_less_mult)

text \<open>The index of the node one level down the path.\<close>

lemma path_index:
  fixes a :: u32
  assumes t: "t < 27"
  defines "q \<equiv> unat a div 32 div 2 ^ (26 - t)"
  shows "unat a div 32 div 2 ^ (27 - t) = q div 2" and "unat a div 2 ^ (31 - t) = q" and "q < 2 ^ Suc t"
proof -
  have e: "27 - t = Suc (26 - t)" "31 - t = 5 + (26 - t)" using t by simp_all
  show "unat a div 32 div 2 ^ (27 - t) = q div 2" unfolding e(1) q_def by (simp add: div_mult2_eq [symmetric] mult.commute)
  show "unat a div 2 ^ (31 - t) = q" unfolding q_def e(2) power_add by (simp add: div_mult2_eq)
  have "27 = Suc t + (26 - t)" using t by simp
  then have "(2::nat) ^ 27 = 2 ^ Suc t * 2 ^ (26 - t)" by (metis power_add)
  then show "q < 2 ^ Suc t"
    using leaf_index_less [of a] unfolding q_def by (simp only: div_less_iff_less_mult zero_less_power zero_less_numeral)
qed

lemma traverse_branch_ok:
  assumes "mem_ok k m" and "t \<le> 27" and idx_def: "idx = unat a div 32"
  shows "\<exists>m'. traverse_branch k (path_node idx t) a t m
      = Inr (mem_leaf m idx # siblings k (mem_leaf m) 0 (27 - t) idx, m') \<and> mem_ok k m' \<and> mem_extends m m'"
  using assms(1,2)
proof (induction "27 - t" arbitrary: t m)
  case 0
  then have t: "t = 27" by simp
  have idx: "idx < 2 ^ 27" unfolding idx_def by (rule leaf_index_less)
  have pn: "path_node idx 27 = 2 ^ 27 + idx" by (simp add: path_node_def)
  have "ghash k (mem_leaf m) 27 (2 ^ 27 + idx) = mem_leaf m idx"
    using ghash_at_depth [OF idx, of k "mem_leaf m"] by (simp only: order_refl diff_self_eq_0 subtree.simps)
  moreover have "2 ^ 27 + idx < 268435456" "0 < 2 ^ 27 + idx" using idx by simp_all
  ultimately obtain m' where "mem_merkleize_subtree k (2 ^ 27 + idx) m = Inr (mem_leaf m idx, m')"
      "mem_ok k m'" "mem_extends m m'"
    using mem_merkleize_node [OF "0.prems"(1)] by metis
  then show ?case by (simp add: t pn traverse_branch_leaf)
next
  case (Suc n)
  then have t: "t < 27" and n: "n = 27 - Suc t" by simp_all
  define q where "q = idx div 2 ^ (26 - t)"
  have e: "27 - t = Suc (26 - t)" "27 - Suc t = 26 - t" using t by simp_all
  note half = path_index(1) [OF t, of a, folded idx_def, folded q_def]
    and bit = path_index(2) [OF t, of a, folded idx_def, folded q_def]
    and q = path_index(3) [OF t, of a, folded idx_def, folded q_def]
  have pn: "path_node idx (Suc t) = 2 ^ Suc t + q" by (simp only: path_node_def e(2) q_def)
  obtain m1 where m1: "traverse_branch k (2 ^ Suc t + q) a (Suc t) m
      = Inr (mem_leaf m idx # siblings k (mem_leaf m) 0 (26 - t) idx, m1)" "mem_ok k m1" "mem_extends m m1"
    using Suc.hyps(1) [OF n Suc.prems(1)] t unfolding pn e(2) by auto
  have "(2::nat) ^ Suc t \<le> 2 ^ 27" using t by (intro power_increasing) simp_all
  then have small: "2 ^ Suc t + sibling q < 268435456" "0 < 2 ^ Suc t + sibling q"
    using sibling_less [OF q] by simp_all
  have "ghash k (mem_leaf m1) 27 (2 ^ Suc t + sibling q) = subtree k (mem_leaf m1) (26 - t) (sibling q)"
    using ghash_at_depth [OF sibling_less [OF q], of k "mem_leaf m1"] t unfolding e(2) by simp
  then have sib: "ghash k (mem_leaf m1) 27 (2 ^ Suc t + sibling q) = subtree k (mem_leaf m) (26 - t) (sibling q)"
    using mem_extends_leaf [OF mem_okD(1) [OF Suc.prems(1)] m1(3)] by simp
  obtain m2 where m2: "mem_merkleize_subtree k (2 ^ Suc t + sibling q) m1
      = Inr (subtree k (mem_leaf m) (26 - t) (sibling q), m2)" "mem_ok k m2" "mem_extends m1 m2"
    using mem_merkleize_node [OF m1(2) small(2,1)] unfolding sib by metis
  have "traverse_branch k (path_node idx t) a t m
      = Inr ((mem_leaf m idx # siblings k (mem_leaf m) 0 (26 - t) idx) @ [subtree k (mem_leaf m) (26 - t) (sibling q)], m2)"
    using traverse_branch_node [OF t, of "path_node idx t" a _ _ k m, unfolded Let_def, OF path_step [OF bit half q t]] m1(1) m2(1)
    by simp
  moreover have "siblings k (mem_leaf m) 0 (27 - t) idx
      = siblings k (mem_leaf m) 0 (26 - t) idx @ [subtree k (mem_leaf m) (26 - t) (sibling q)]"
    unfolding e(1) q_def using siblings_snoc [of 0 "26 - t"] by simp
  ultimately show ?case
    using m2(2) mem_extends_trans [OF m1(3) m2(3)] by auto
qed

text \<open>
  The proof of an address: 28 nodes of 32 bytes, the leaf that holds the address first, then the
  siblings from the bottom to the top.
\<close>

lemma merkle_proof_ok:
  fixes a :: u32
  assumes ok: "mem_ok k m" and k: "hash32 k"
  defines "idx \<equiv> unat a div 32"
  obtains m' where "merkle_proof k a m = Inr (concat (mem_leaf m idx # siblings k (mem_leaf m) 0 27 idx), m')"
    and "mem_ok k m'" and "mem_extends m m'"
proof -
  have "path_node idx 0 = 1" using leaf_index_less [of a] by (simp add: path_node_def idx_def)
  then obtain m' where m': "traverse_branch k 1 a 0 m
      = Inr (mem_leaf m idx # siblings k (mem_leaf m) 0 27 idx, m')" "mem_ok k m'" "mem_extends m m'"
    using traverse_branch_ok [OF ok, of 0 idx a] idx_def by auto
  have "length (concat (mem_leaf m idx # siblings k (mem_leaf m) 0 27 idx)) = 28 * 32"
    using length_subtree [OF k, of "mem_leaf m"]
    by (simp add: siblings_def length_concat comp_def sum_list_triv del: upt_rec_numeral)
  with m' show ?thesis by (intro that [of m']) (simp_all add: merkle_proof_def)
qed

text \<open>The branch of an address in a memory, as \<open>merkle_proof\<close> returns it.\<close>

definition branch_of :: "hash_fn \<Rightarrow> memory \<Rightarrow> u32 \<Rightarrow> bytes" where
  "branch_of k m a = concat (mem_leaf m (unat a div 32) # siblings k (mem_leaf m) 0 27 (unat a div 32))"

lemma mem_leaf_cong:
  assumes "mem_byte m' = mem_byte m"
  shows "mem_leaf m' = mem_leaf m"
  unfolding mem_leaf_def assms ..

lemma branch_of_cong:
  assumes "mem_byte m' = mem_byte m"
  shows "branch_of k m' a = branch_of k m a"
  unfolding branch_of_def mem_leaf_cong [OF assms] ..

lemma length_branch_of: "hash32 k \<Longrightarrow> length (branch_of k m a) = 896"
  using length_subtree [of k "mem_leaf m"]
  by (simp add: branch_of_def siblings_def length_concat comp_def sum_list_triv del: upt_rec_numeral)

section \<open>Checking a proof\<close>

text \<open>The 896 bytes of a proof read back as nodes, and its check.\<close>

definition proof_nodes :: "bytes \<Rightarrow> bytes list" where
  "proof_nodes pf = map (\<lambda>i. take 32 (drop (32 * i) pf)) [0..<28]"

definition proof_root :: "hash_fn \<Rightarrow> u32 \<Rightarrow> bytes \<Rightarrow> bytes" where
  "proof_root k a pf = verify_branch k (hd (proof_nodes pf)) (unat a div 32) (tl (proof_nodes pf))"

definition proof_word :: "u32 \<Rightarrow> bytes \<Rightarrow> u32" where
  "proof_word a pf = from_be (slice_at (unat a mod 32) (unat a mod 32 + 4) (take 32 pf))"

lemma take_drop_concat:
  assumes "\<And>x. x \<in> set xs \<Longrightarrow> length x = n" and "i < length xs"
  shows "take n (drop (n * i) (concat xs)) = xs ! i"
  using assms
proof (induction xs arbitrary: i)
  case (Cons x xs)
  then show ?case by (cases i) auto
qed simp

lemma proof_nodes_concat:
  assumes "\<And>x. x \<in> set xs \<Longrightarrow> length x = 32" and "length xs = 28"
  shows "proof_nodes (concat xs) = xs"
  using take_drop_concat [OF assms(1)] assms(2)
  by (intro nth_equalityI) (simp_all add: proof_nodes_def del: upt_rec_numeral)

lemma proof_root_ok:
  fixes a :: u32
  assumes k: "hash32 k"
  defines "idx \<equiv> unat a div 32"
  shows "proof_root k a (concat (mem_leaf m idx # siblings k (mem_leaf m) 0 27 idx)) = subtree k (mem_leaf m) 27 0"
proof -
  have "proof_nodes (concat (mem_leaf m idx # siblings k (mem_leaf m) 0 27 idx))
      = mem_leaf m idx # siblings k (mem_leaf m) 0 27 idx"
    using length_subtree [OF k, of "mem_leaf m"]
    by (intro proof_nodes_concat) (auto simp: siblings_def simp del: upt_rec_numeral)
  moreover have "idx div 2 ^ (27 - 0) = 0" using leaf_index_less [of a] by (simp add: idx_def)
  ultimately show ?thesis
    using verify_siblings [of 0 27 k "mem_leaf m" idx]
    unfolding proof_root_def idx_def [symmetric] by simp
qed

lemma proof_word_ok:
  fixes a :: u32
  assumes "a AND 3 = 0"
  shows "proof_word a (concat (mem_leaf m (unat a div 32) # ss)) = mem_word m a"
proof -
  have "unat a mod 4 = 0" using assms and_3_mod [of a] by (simp add: unat_eq_zero)
  then have "unat a mod 32 mod 4 = 0" by (simp add: mod_mod_cancel)
  then have le: "unat a mod 32 + 4 \<le> 32" by presburger
  have "slice_at (unat a mod 32) (unat a mod 32 + 4) (mem_leaf m (unat a div 32)) = map (\<lambda>i. mem_byte m (unat a + i)) [0..<4]"
    using le by (intro nth_equalityI) (simp_all add: nth_slice nth_mem_leaf add.assoc [symmetric] del: upt_rec_numeral)
  then show ?thesis by (simp add: proof_word_def mem_word_def)
qed

text \<open>The root after a store of \<open>x\<close> at \<open>a\<close>, computed from the branch of \<open>a\<close> alone.\<close>

definition proof_write_root :: "hash_fn \<Rightarrow> u32 \<Rightarrow> u32 \<Rightarrow> bytes \<Rightarrow> bytes" where
  "proof_write_root k a x pf =
     verify_branch k (copy_from_slice (unat a mod 32) (u32_be x) (hd (proof_nodes pf))) (unat a div 32) (tl (proof_nodes pf))"

lemma proof_nodes_branch:
  assumes k: "hash32 k"
  shows "proof_nodes (branch_of k m a) = mem_leaf m (unat a div 32) # siblings k (mem_leaf m) 0 27 (unat a div 32)"
  unfolding branch_of_def using length_subtree [OF k, of "mem_leaf m"]
  by (intro proof_nodes_concat) (auto simp: siblings_def simp del: upt_rec_numeral)

lemma siblings_other:
  assumes "\<And>i. i \<noteq> j \<Longrightarrow> leaf' i = leaf i"
  shows "siblings k leaf' 0 H j = siblings k leaf 0 H j"
  unfolding siblings_def
proof (rule map_cong [OF refl])
  fix t
  have ne: "sibling q \<noteq> q" for q by (auto simp: sibling_def elim: oddE)
  show "subtree k leaf' (0 + t) (sibling (j div 2 ^ t)) = subtree k leaf (0 + t) (sibling (j div 2 ^ t))"
  proof (rule subtree_cong, rule assms)
    fix i
    assume "sibling (j div 2 ^ t) * 2 ^ (0 + t) \<le> i" and "i < Suc (sibling (j div 2 ^ t)) * 2 ^ (0 + t)"
    then have "i div 2 ^ t = sibling (j div 2 ^ t)" by (intro div_nat_eqI) (simp_all add: mult.commute)
    with ne show "i \<noteq> j" by metis
  qed
qed

lemma leaf_after_store:
  assumes al: "unat a mod 4 = 0" and same: "\<And>b. b < unat a \<or> unat a + 4 \<le> b \<Longrightarrow> mem_byte m' b = mem_byte m b"
  shows "copy_from_slice (unat a mod 32) (u32_be (mem_word m' a)) (mem_leaf m (unat a div 32)) = mem_leaf m' (unat a div 32)"
    and "j \<noteq> unat a div 32 \<Longrightarrow> mem_leaf m' j = mem_leaf m j"
proof -
  let ?l = "unat a div 32" and ?o = "unat a mod 32"
  have "?o mod 4 = 0" using al by (simp add: mod_mod_cancel)
  then have o: "?o + 4 \<le> 32" by presburger
  have a: "unat a = 32 * ?l + ?o" by simp
  have word: "u32_be (mem_word m' a) = map (\<lambda>i. mem_byte m' (unat a + i)) [0..<4]"
    using be_bytes_from_be [of "map (\<lambda>i. mem_byte m' (unat a + i)) [0..<4]", where ?'a = 32]
    by (simp add: mem_word_def)
  show "copy_from_slice ?o (u32_be (mem_word m' a)) (mem_leaf m ?l) = mem_leaf m' ?l"
  proof (rule nth_equalityI)
    fix i
    assume "i < length (copy_from_slice ?o (u32_be (mem_word m' a)) (mem_leaf m ?l))"
    then have i: "i < 32" using o by simp
    have "copy_from_slice ?o (u32_be (mem_word m' a)) (mem_leaf m ?l) ! i
        = (if ?o \<le> i \<and> i < ?o + 4 then u32_be (mem_word m' a) ! (i - ?o) else mem_leaf m ?l ! i)"
      using nth_copy_from_slice [of ?o "u32_be (mem_word m' a)" "mem_leaf m ?l" i] o i by simp
    also have "\<dots> = mem_leaf m' ?l ! i"
    proof (cases "?o \<le> i \<and> i < ?o + 4")
      case True
      then have "unat a + (i - ?o) = 32 * ?l + i" using a by linarith
      moreover have "i - ?o < 4" using True by linarith
      then have "map (\<lambda>i. mem_byte m' (unat a + i)) [0..<4] ! (i - ?o) = mem_byte m' (unat a + (i - ?o))"
        by (subst nth_map) (simp_all del: upt_rec_numeral)
      ultimately show ?thesis using True i unfolding word by (simp only: nth_mem_leaf if_True simp_thms)
    next
      case False
      then have "32 * ?l + i < unat a \<or> unat a + 4 \<le> 32 * ?l + i" using a by linarith
      from same [OF this] False i show ?thesis by (simp only: nth_mem_leaf if_False)
    qed
    finally show "copy_from_slice ?o (u32_be (mem_word m' a)) (mem_leaf m ?l) ! i = mem_leaf m' ?l ! i" .
  qed (use o in simp)
  show "mem_leaf m' j = mem_leaf m j" if "j \<noteq> ?l"
  proof (rule mem_leaf_eqI, rule same, rule ccontr)
    fix b
    assume b: "32 * j \<le> b" "b < 32 * j + 32" and "\<not> (b < unat a \<or> unat a + 4 \<le> b)"
    then have "32 * ?l \<le> b" "b < 32 * ?l + 32" using a o by linarith+
    then have "b div 32 = ?l" by (intro div_nat_eqI) simp_all
    moreover have "b div 32 = j" using b by (intro div_nat_eqI) simp_all
    ultimately show False using that by simp
  qed
qed

lemma proof_write_root_ok:
  assumes k: "hash32 k" and al: "unat a mod 4 = 0"
    and same: "\<And>b. b < unat a \<or> unat a + 4 \<le> b \<Longrightarrow> mem_byte m' b = mem_byte m b"
  shows "proof_write_root k a (mem_word m' a) (branch_of k m a) = subtree k (mem_leaf m') 27 0"
proof -
  let ?l = "unat a div 32"
  note st = leaf_after_store [OF al same]
  have "siblings k (mem_leaf m') 0 27 ?l = siblings k (mem_leaf m) 0 27 ?l"
    by (rule siblings_other) (rule st(2))
  moreover have "?l div 2 ^ (27 - 0) = 0" using leaf_index_less [of a] by simp
  ultimately show ?thesis
    using verify_siblings [of 0 27 k "mem_leaf m'" ?l] st(1)
    unfolding proof_write_root_def proof_nodes_branch [OF k] by simp
qed

end
