(* ===== verification/State.thy ===== *)
theory State
  imports Memory_Proof
begin

text \<open>
  The state of the emulated thread (\<open>state.rs\<close>), the enumerations of \<open>types.rs\<close>, and the state
  hash of \<open>witness.rs\<close>. The witness of a state is a string of 226 bytes that starts with the
  Merkle root of the memory; it determines every field of the state except \<open>last_hint\<close>.
\<close>

section \<open>Enumerations\<close>

datatype VMStatus = Valid | Invalid | Panic | Unfinished

text \<open>The discriminants, \<open>as u8\<close>.\<close>

fun VMStatus_u8 :: "VMStatus \<Rightarrow> u8" where
  "VMStatus_u8 Valid = 0"
| "VMStatus_u8 Invalid = 1"
| "VMStatus_u8 Panic = 2"
| "VMStatus_u8 Unfinished = 3"

datatype Fd = StdIn | Stdout | StdErr | HintRead | HintWrite | PreimageRead | PreimageWrite

definition Fd_try_from :: "u8 \<Rightarrow> Fd option" where
  "Fd_try_from n =
    (if n = 0 then Some StdIn
     else if n = 1 then Some Stdout
     else if n = 2 then Some StdErr
     else if n = 3 then Some HintRead
     else if n = 4 then Some HintWrite
     else if n = 5 then Some PreimageRead
     else if n = 6 then Some PreimageWrite
     else None)"

datatype Syscall = Mmap | Brk | Clone | ExitGroup | Read | Write | Fcntl

definition Syscall_try_from :: "u32 \<Rightarrow> Syscall option" where
  "Syscall_try_from n =
    (if n = 4090 then Some Mmap
     else if n = 4045 then Some Brk
     else if n = 4120 then Some Clone
     else if n = 4246 then Some ExitGroup
     else if n = 4003 then Some Read
     else if n = 4004 then Some Write
     else if n = 4055 then Some Fcntl
     else None)"

section \<open>The state\<close>

record state =
  memory :: memory
  preimage_key :: bytes
  preimage_offset :: u32
  pc :: u32
  next_pc :: u32
  lo :: u32
  hi :: u32
  heap :: u32
  exit_code :: u8
  exited :: bool
  step :: u64
  registers :: "u32 list"
  last_hint :: bytes

definition state_default :: state where
  "state_default = \<lparr>memory = memory_default, preimage_key = replicate 32 0, preimage_offset = 0,
     pc = 0, next_pc = 0, lo = 0, hi = 0, heap = 0, exit_code = 0, exited = False, step = 0,
     registers = replicate 32 0, last_hint = []\<rparr>"

text \<open>The fixed array sizes of the struct, and the invariant of its memory.\<close>

definition state_ok :: "hash_fn \<Rightarrow> state \<Rightarrow> bool" where
  "state_ok k s \<longleftrightarrow> mem_ok k (memory s) \<and> length (preimage_key s) = 32 \<and> length (registers s) = 32"

lemma state_okD:
  assumes "state_ok k s"
  shows "mem_ok k (memory s)" "length (preimage_key s) = 32" "length (registers s) = 32"
  using assms by (simp_all add: state_ok_def)

lemma state_default_ok: "state_ok k state_default"
  by (simp add: state_ok_def state_default_def memory_default_ok)

section \<open>Operations\<close>

definition STATE_WITNESS_SIZE :: nat where
  [simp]: "STATE_WITNESS_SIZE = 226"

definition encode_witness :: "hash_fn \<Rightarrow> state \<Rightarrow> (bytes \<times> state) res" where
  "encode_witness keccak s =
     rbind (merkle_root keccak (memory s)) (\<lambda>(root, m1).
       let w = replicate STATE_WITNESS_SIZE 0;
           w = copy_from_slice 0 root w;
           w = copy_from_slice 32 (preimage_key s) w;
           w = copy_from_slice 64 (u32_be (preimage_offset s)) w;
           w = copy_from_slice 68 (u32_be (pc s)) w;
           w = copy_from_slice 72 (u32_be (next_pc s)) w;
           w = copy_from_slice 76 (u32_be (lo s)) w;
           w = copy_from_slice 80 (u32_be (hi s)) w;
           w = copy_from_slice 84 (u32_be (heap s)) w;
           w = w[88 := exit_code s];
           w = w[89 := of_bool (exited s)];
           w = copy_from_slice 90 (u64_be (step s)) w;
           w = foldl (\<lambda>w (i, r). copy_from_slice (98 + i * 4) (u32_be r) w) w (List.enumerate 0 (registers s))
       in Inr (w, s\<lparr>memory := m1\<rparr>))"

definition vm_status :: "bool \<Rightarrow> u8 \<Rightarrow> VMStatus" where
  "vm_status has_exited code =
    (if \<not> has_exited then Unfinished
     else if code = 0 then Valid
     else if code = 1 then Invalid
     else Panic)"

text \<open>The hash of a witness: the first byte of the digest is replaced by the status.\<close>

definition state_hash :: "hash_fn \<Rightarrow> bytes \<Rightarrow> bytes" where
  "state_hash keccak witness =
    (let hash = keccak witness;
         offset = 32 * 2 + 4 * 6;
         code = witness ! offset;
         has_exited = (witness ! (offset + 1) = 1)
     in hash[0 := VMStatus_u8 (vm_status has_exited code)])"

section \<open>The layout of a witness\<close>

lemma copy_append: "length pre = s \<Longrightarrow> copy_from_slice s ys (pre @ replicate n z) = pre @ ys @ replicate (n - length ys) z"
  by (simp add: copy_from_slice_def)

lemma update_append: "length pre = s \<Longrightarrow> 0 < n \<Longrightarrow> (pre @ replicate n z)[s := x] = pre @ [x] @ replicate (n - 1) z"
  by (cases n) (simp_all add: list_update_append)

lemma copy_registers:
  assumes "length pre = 98 + i * 4"
  shows "foldl (\<lambda>w (i, r). copy_from_slice (98 + i * 4) (u32_be r) w) (pre @ replicate n 0) (List.enumerate i rs)
    = pre @ concat (map u32_be rs) @ replicate (n - 4 * length rs) 0"
  using assms
proof (induction rs arbitrary: i pre n)
  case (Cons r rs)
  have "length (pre @ u32_be r) = 98 + Suc i * 4" using Cons.prems by simp
  from Cons.IH [OF this, of "n - 4"] show ?case
    using Cons.prems by (simp add: copy_append diff_diff_left del: be_bytes.simps)
qed simp

definition witness_of :: "bytes \<Rightarrow> state \<Rightarrow> bytes" where
  "witness_of root s = root @ preimage_key s @ u32_be (preimage_offset s) @ u32_be (pc s) @ u32_be (next_pc s) @
     u32_be (lo s) @ u32_be (hi s) @ u32_be (heap s) @ [exit_code s, of_bool (exited s)] @ u64_be (step s) @
     concat (map u32_be (registers s))"

lemma encode_witness_layout:
  assumes ok: "state_ok k s" and root: "merkle_root k (memory s) = Inr (root, m1)" and len: "length root = 32"
  shows "encode_witness k s = Inr (witness_of root s, s\<lparr>memory := m1\<rparr>)"
proof -
  note d = state_okD [OF ok]
  let ?a = "root @ preimage_key s @ u32_be (preimage_offset s) @ u32_be (pc s) @ u32_be (next_pc s) @
     u32_be (lo s) @ u32_be (hi s) @ u32_be (heap s)"
  let ?b = "?a @ [exit_code s, of_bool (exited s)] @ u64_be (step s)"
  have a: "copy_from_slice 84 (u32_be (heap s)) (copy_from_slice 80 (u32_be (hi s)) (copy_from_slice 76 (u32_be (lo s))
      (copy_from_slice 72 (u32_be (next_pc s)) (copy_from_slice 68 (u32_be (pc s)) (copy_from_slice 64 (u32_be (preimage_offset s))
      (copy_from_slice 32 (preimage_key s) (copy_from_slice 0 root (replicate 226 0)))))))) = ?a @ replicate 138 0"
    using len d(2) copy_append [of "[]" 0 root] by (simp add: copy_append append_assoc [symmetric] del: append_assoc be_bytes.simps)
  have la: "length ?a = 88" using len d(2) by simp
  have "(?a @ replicate 138 0)[88 := exit_code s] = (?a @ [exit_code s]) @ replicate 137 0"
    using update_append [OF la, of 138] by simp
  moreover have "((?a @ [exit_code s]) @ replicate 137 0)[89 := of_bool (exited s)]
      = (?a @ [exit_code s, of_bool (exited s)]) @ replicate 136 0"
    using la update_append [of "?a @ [exit_code s]" 89 137] by simp
  moreover have "copy_from_slice 90 (u64_be (step s)) ((?a @ [exit_code s, of_bool (exited s)]) @ replicate 136 0)
      = ?b @ replicate 128 0"
    using copy_append [of "?a @ [exit_code s, of_bool (exited s)]" 90 "u64_be (step s)" 136 0] la
    by (simp only: append_assoc length_append length_be_bytes list.size) simp
  moreover have "length ?b = 98 + 0 * 4" using la by simp
  from copy_registers [OF this, of 128 "registers s"] d(3)
  have "foldl (\<lambda>w (i, r). copy_from_slice (98 + i * 4) (u32_be r) w) (?b @ replicate 128 0) (List.enumerate 0 (registers s))
      = witness_of root s"
    by (simp add: witness_of_def)
  ultimately show ?thesis
    using root a by (simp add: encode_witness_def Let_def)
qed

lemma sum_list_const: "(\<And>x. x \<in> set xs \<Longrightarrow> f x = c) \<Longrightarrow> sum_list (map f xs) = length xs * (c::nat)"
  by (induction xs) simp_all

lemma length_witness_of:
  "length root = 32 \<Longrightarrow> length (preimage_key s) = 32 \<Longrightarrow> length (registers s) = 32 \<Longrightarrow> length (witness_of root s) = 226"
  by (simp add: witness_of_def length_concat comp_def sum_list_const)

lemma concat_be_inject:
  assumes "concat (map u32_be rs) = concat (map u32_be rs')" and "length rs = length rs'"
  shows "rs = rs'"
  using assms(2,1)
proof (induction rs rs' rule: list_induct2)
  case (Cons r rs r' rs')
  then show ?case by (auto simp del: be_bytes.simps dest: be_bytes_inject)
qed simp

lemma witness_of_inject:
  assumes eq: "witness_of root s = witness_of root' t" and r: "length root = length root'"
    and s: "length (preimage_key s) = length (preimage_key t)" and g: "length (registers s) = length (registers t)"
  shows "root = root' \<and> preimage_key s = preimage_key t \<and> preimage_offset s = preimage_offset t \<and> pc s = pc t
    \<and> next_pc s = next_pc t \<and> lo s = lo t \<and> hi s = hi t \<and> heap s = heap t \<and> exit_code s = exit_code t
    \<and> exited s = exited t \<and> step s = step t \<and> registers s = registers t"
proof -
  have inj: "be_bytes n v = be_bytes n w \<longleftrightarrow> v = w" if "LENGTH('a) \<le> 8 * n" for n and v w :: "'a::len word"
    using that be_bytes_inject by blast
  have bool: "(of_bool a :: u8) = of_bool b \<longleftrightarrow> a = b" for a b by (simp add: of_bool_def)
  show ?thesis
    using eq r s concat_be_inject [OF _ g] unfolding witness_of_def
    by (simp only: append_eq_append_conv append.simps length_be_bytes list.inject inj bool disjI1 simp_thms)
      (simp add: inj)
qed

lemma encode_witness_ok:
  assumes ok: "state_ok k s" and k: "hash32 k"
  obtains m1 where "encode_witness k s = Inr (witness_of (subtree k (mem_leaf (memory s)) 27 0) s, s\<lparr>memory := m1\<rparr>)"
    and "state_ok k (s\<lparr>memory := m1\<rparr>)" and "mem_extends (memory s) m1"
proof -
  obtain m1 where m1: "merkle_root k (memory s) = Inr (subtree k (mem_leaf (memory s)) 27 0, m1)"
      "mem_ok k m1" "mem_extends (memory s) m1"
    by (rule merkle_root_ok [OF state_okD(1) [OF ok]])
  have "length (subtree k (mem_leaf (memory s)) 27 0) = 32" by (rule length_subtree [OF k]) simp
  from encode_witness_layout [OF ok m1(1) this] m1(2,3) state_okD [OF ok] show ?thesis
    by (intro that [of m1]) (simp_all add: state_ok_def)
qed

lemma witness_status:
  assumes "length root = 32" and "length (preimage_key s) = 32"
  shows "witness_of root s ! 88 = exit_code s" and "witness_of root s ! 89 = of_bool (exited s)"
  using assms by (simp_all add: witness_of_def nth_append)

lemma state_hash_witness:
  assumes "length root = 32" and "length (preimage_key s) = 32" and k: "hash32 k"
  shows "state_hash k (witness_of root s)
    = VMStatus_u8 (vm_status (exited s) (exit_code s)) # tl (k (witness_of root s))"
proof -
  obtain x xs where "k (witness_of root s) = x # xs"
    using k by (cases "k (witness_of root s)") (auto simp: hash32_def dest: spec [of _ "witness_of root s"])
  then show ?thesis
    using witness_status [OF assms(1,2)] by (simp add: state_hash_def Let_def of_bool_def)
qed

end
