(* ===== verification/Mips_Alu.thy ===== *)
theory Mips_Alu
  imports State
begin

text \<open>
  The part of \<open>mips_vm.rs\<close> that only computes: \<open>sign_extend\<close>, \<open>execute\<close> (the ALU, loads and
  stores on the word that was fetched), and the handlers that change registers and program
  counters but neither memory nor oracle: \<open>handle_branch\<close>, \<open>handle_hi_lo\<close>, \<open>handle_jump\<close> and
  \<open>handle_rd\<close>. They take and return the \<open>state\<close>. Arithmetic wraps around and the amount of a shift is
  taken modulo 32, as in the code.
\<close>

section \<open>Sign extension\<close>

definition sign_extend :: "u32 \<Rightarrow> u32 \<Rightarrow> u32" where
  "sign_extend dat index =
    (let is_signed = (shr32 dat (index - 1) \<noteq> 0);
         signed = shl32 (shl32 1 (32 - index) - 1) index;
         mask = shl32 1 index - 1
     in if is_signed then (dat AND mask) OR signed else dat AND mask)"

section \<open>Execution\<close>

text \<open>The loop that counts leading ones.\<close>

function clo_loop :: "u32 \<Rightarrow> u32 \<Rightarrow> u32" where
  "clo_loop rs i = (if rs AND 0x80000000 \<noteq> 0 then clo_loop (shl32 rs 1) (i + 1) else i)"
  by pat_completeness auto

lemma shl32_1: "shl32 x 1 = push_bit 1 x"
  by (simp add: shl32_def)

lemma and_top_bit: "(x :: u32) AND 0x80000000 \<noteq> 0 \<longleftrightarrow> bit x 31"
proof -
  have "(0x80000000 :: u32) = push_bit 31 1" by (simp add: push_bit_eq_mult)
  then show ?thesis by (simp only: and_exp_eq_0_iff_not_bit push_bit_of_1) simp
qed

lemma bit_31_iff: "bit (x :: u32) 31 \<longleftrightarrow> 2147483648 \<le> unat x"
proof -
  have "bit x 31 \<longleftrightarrow> odd (unat x div 2 ^ 31)"
    using bit_unsigned_iff [of x 31, where ?'a = nat] by (simp only: bit_iff_odd) simp
  moreover have "unat x div 2 ^ 31 < 2" using u32_less [of x] by (simp add: div_less_iff_less_mult)
  ultimately show ?thesis by (cases "unat x div 2 ^ 31 = 0") (auto simp: div_eq_0_iff)
qed

lemma unat_double_top: "bit (x :: u32) 31 \<Longrightarrow> unat (push_bit 1 x) = 2 * unat x - 4294967296"
  using u32_less [of x] by (simp add: bit_31_iff push_bit_eq_mult unat_word_ariths mod_if mult.commute)

termination clo_loop
proof (relation "measure (\<lambda>(rs, i). unat rs)", goal_cases)
  case (2 rs i)
  then have "bit rs 31" by (simp only: and_top_bit)
  then have "unat (shl32 rs 1) = 2 * unat rs - 4294967296" and "2147483648 \<le> unat rs"
    by (simp_all only: shl32_1 unat_double_top bit_31_iff)
  with u32_less [of rs] show ?case by simp
qed simp

declare clo_loop.simps [simp del]

text \<open>The function codes of R-type instructions, also used by the immediate ones.\<close>

definition execute_fun :: "u32 \<Rightarrow> u32 \<Rightarrow> u32 \<Rightarrow> u32 \<Rightarrow> u32 res" where
  "execute_fun func instruction rs rt =
    (if func = 0 then Inr (shl32 rt (drop_bit 6 instruction AND 0x1F))
     else if func = 2 then Inr (shr32 rt (drop_bit 6 instruction AND 0x1F))
     else if func = 3 then
       (let shamt = drop_bit 6 instruction AND 0x1F
        in Inr (sign_extend (shr32 rt shamt) (32 - shamt)))
     else if func = 4 then Inr (shl32 rt (rs AND 0x1F))
     else if func = 6 then Inr (shr32 rt (rs AND 0x1F))
     else if func = 7 then Inr (sign_extend (shr32 rt rs) (32 - rs))
     else if 8 \<le> func \<and> func \<le> 0x0c \<or> 0x0f \<le> func \<and> func \<le> 0x13 \<or> 0x18 \<le> func \<and> func \<le> 0x1b then Inr rs
     else if func = 0x20 \<or> func = 0x21 then Inr (rs + rt)
     else if func = 0x22 \<or> func = 0x23 then Inr (rs - rt)
     else if func = 0x24 then Inr (rs AND rt)
     else if func = 0x25 then Inr (rs OR rt)
     else if func = 0x26 then Inr (rs XOR rt)
     else if func = 0x27 then Inr (NOT (rs OR rt))
     else if func = 0x2a then Inr (of_bool (sint rs < sint rt))
     else if func = 0x2b then Inr (of_bool (rs < rt))
     else Inl (InvalidFunction func))"

text \<open>SPECIAL2: \<open>mul\<close>, \<open>clo\<close> and \<open>clz\<close>.\<close>

definition execute_special2 :: "u32 \<Rightarrow> u32 \<Rightarrow> u32 \<Rightarrow> u32 res" where
  "execute_special2 func rs rt =
    (if func = 0x02 then Inr (of_int (sint rs * sint rt))
     else if func = 0x20 \<or> func = 0x21 then
       (let rs = (if func = 0x20 then NOT rs else rs) in Inr (clo_loop rs 0))
     else Inl (InvalidFunction func))"

text \<open>The other opcodes: \<open>lui\<close>, loads and stores.\<close>

definition execute_mem :: "u32 \<Rightarrow> u32 \<Rightarrow> u32 \<Rightarrow> u32 \<Rightarrow> u32 res" where
  "execute_mem opcode rs rt mem =
    (if opcode = 0x0F then Inr (shl32 rt 16)
     else if opcode = 0x20 then Inr (sign_extend (shr32 mem (24 - shl32 (rs AND 3) 3) AND 0xFF) 8)
     else if opcode = 0x21 then Inr (sign_extend (shr32 mem (16 - shl32 (rs AND 2) 3) AND 0xFFFF) 16)
     else if opcode = 0x22 then
       (let sl = shl32 (rs AND 3) 3; val = shl32 mem sl; mask = shl32 0xFFFFFFFF sl
        in Inr ((rt AND NOT mask) OR val))
     else if opcode = 0x23 then Inr mem
     else if opcode = 0x24 then Inr (shr32 mem (24 - shl32 (rs AND 3) 3) AND 0xFF)
     else if opcode = 0x25 then Inr (shr32 mem (16 - shl32 (rs AND 2) 3) AND 0xFFFF)
     else if opcode = 0x26 then
       (let sr = 24 - shl32 (rs AND 3) 3; val = shr32 mem sr; mask = shr32 0xFFFFFFFF sr
        in Inr ((rt AND NOT mask) OR val))
     else if opcode = 0x28 then
       (let sl = 24 - shl32 (rs AND 3) 3; val = shl32 (rt AND 0xFF) sl;
            mask = 0xFFFFFFFF XOR shl32 0xFF sl
        in Inr ((mem AND mask) OR val))
     else if opcode = 0x29 then
       (let sl = 16 - shl32 (rs AND 2) 3; val = shl32 (rt AND 0xFFFF) sl;
            mask = 0xFFFFFFFF XOR shl32 0xFFFF sl
        in Inr ((mem AND mask) OR val))
     else if opcode = 0x2a then
       (let sr = shl32 (rs AND 3) 3; val = shr32 rt sr; mask = shr32 0xFFFFFFFF sr
        in Inr ((mem AND NOT mask) OR val))
     else if opcode = 0x2b then Inr rt
     else if opcode = 0x2e then
       (let sl = 24 - shl32 (rs AND 3) 3; val = shl32 rt sl; mask = shl32 0xFFFFFFFF sl
        in Inr ((mem AND NOT mask) OR val))
     else if opcode = 0x30 then Inr mem
     else if opcode = 0x38 then Inr rt
     else Inl (InvalidOpcode opcode))"

definition execute :: "u32 \<Rightarrow> u32 \<Rightarrow> u32 \<Rightarrow> u32 \<Rightarrow> u32 res" where
  "execute instruction rs rt mem =
    (let opcode = drop_bit 26 instruction
     in if opcode = 0 \<or> 8 \<le> opcode \<and> opcode < 0xF then
          (let func = (if opcode = 8 then 0x20 else if opcode = 9 then 0x21
                       else if opcode = 0xA then 0x2A else if opcode = 0xB then 0x2B
                       else if opcode = 0xC then 0x24 else if opcode = 0xD then 0x25
                       else if opcode = 0xE then 0x26 else instruction AND 0x3F)
           in execute_fun func instruction rs rt)
        else if opcode = 0x1C then execute_special2 (instruction AND 0x3F) rs rt
        else execute_mem opcode rs rt mem)"

section \<open>Handlers\<close>

definition handle_branch :: "u32 \<Rightarrow> u32 \<Rightarrow> u32 \<Rightarrow> u32 \<Rightarrow> state \<Rightarrow> state res" where
  "handle_branch opcode instruction rt_reg rs s =
    (if next_pc s \<noteq> pc s + 4 then Inl (BranchInDelaySlot (pc s))
     else
       (let should_branch =
              (if opcode = 4 \<or> opcode = 5 then
                 (let rt = registers s ! unat rt_reg
                  in rs = rt \<and> opcode = 4 \<or> rs \<noteq> rt \<and> opcode = 5)
               else if opcode = 6 then sint rs \<le> 0
               else if opcode = 7 then 0 < sint rs
               else if opcode = 1 then
                 (let rtv = drop_bit 16 instruction AND 0x1F
                  in if rtv = 0 then sint rs < 0 else if rtv = 1 then 0 \<le> sint rs else False)
               else False);
            prev_pc = pc s;
            s1 = s\<lparr>pc := next_pc s\<rparr>
        in if should_branch
           then Inr (s1\<lparr>next_pc := prev_pc + 4 + shl32 (sign_extend (instruction AND 0xFFFF) 16) 2\<rparr>)
           else Inr (s1\<lparr>next_pc := next_pc s1 + 4\<rparr>)))"

text \<open>
  The results of \<open>fun\<close> on \<open>hi\<close>, \<open>lo\<close> and the value that is written back. A division by zero and
  \<open>i32::MIN / -1\<close> panic whatever the overflow checks, at the remainder, which is computed first.
\<close>

definition hi_lo_result :: "u32 \<Rightarrow> u32 \<Rightarrow> u32 \<Rightarrow> state \<Rightarrow> (u32 \<times> state) res" where
  "hi_lo_result func rs rt s =
    (if func = 0x10 then Inr (hi s, s)
     else if func = 0x11 then Inr (0, s\<lparr>hi := rs\<rparr>)
     else if func = 0x12 then Inr (lo s, s)
     else if func = 0x13 then Inr (0, s\<lparr>lo := rs\<rparr>)
     else if func = 0x18 then
       (let acc = (scast rs :: u64) * scast rt
        in Inr (0, s\<lparr>hi := ucast (drop_bit 32 acc), lo := ucast acc\<rparr>))
     else if func = 0x19 then
       (let acc = (ucast rs :: u64) * ucast rt
        in Inr (0, s\<lparr>hi := ucast (drop_bit 32 acc), lo := ucast acc\<rparr>))
     else if func = 0x1a then
       (if rt = 0 \<or> rs = 0x80000000 \<and> rt = 0xFFFFFFFF then Inl PanicRemainder
        else Inr (0, s\<lparr>hi := of_int (sint rs smod sint rt), lo := of_int (sint rs sdiv sint rt)\<rparr>))
     else if func = 0x1b then
       (if rt = 0 then Inl PanicRemainder
        else Inr (0, s\<lparr>hi := rs mod rt, lo := rs div rt\<rparr>))
     else Inr (0, s))"

definition handle_hi_lo :: "u32 \<Rightarrow> u32 \<Rightarrow> u32 \<Rightarrow> u32 \<Rightarrow> state \<Rightarrow> state res" where
  "handle_hi_lo func rs rt store_reg s =
     rbind (hi_lo_result func rs rt s) (\<lambda>(val, s1).
       let s2 = (if store_reg \<noteq> 0 then s1\<lparr>registers := (registers s1)[unat store_reg := val]\<rparr> else s1)
       in Inr (s2\<lparr>pc := next_pc s2, next_pc := next_pc s2 + 4\<rparr>))"

definition handle_jump :: "u32 \<Rightarrow> u32 \<Rightarrow> state \<Rightarrow> state res" where
  "handle_jump link_reg dest s =
    (if next_pc s \<noteq> pc s + 4 then Inl (JumpInDelaySlot (pc s))
     else
       (let prev_pc = pc s;
            s1 = s\<lparr>pc := next_pc s, next_pc := dest\<rparr>
        in Inr (if link_reg \<noteq> 0
                then s1\<lparr>registers := (registers s1)[unat link_reg := prev_pc + 8]\<rparr> else s1)))"

definition handle_rd :: "u32 \<Rightarrow> u32 \<Rightarrow> bool \<Rightarrow> state \<Rightarrow> state res" where
  "handle_rd store_reg val conditional s =
    (if 32 \<le> store_reg then Inl (InvalidRegister store_reg)
     else
       (let s1 = (if store_reg \<noteq> 0 \<and> conditional
                  then s\<lparr>registers := (registers s)[unat store_reg := val]\<rparr> else s)
        in Inr (s1\<lparr>pc := next_pc s1, next_pc := next_pc s1 + 4\<rparr>)))"

end
