(* ===== verification/Memory_Reader.thy ===== *)
theory Memory_Reader
  imports Memory_Spec
begin

text \<open>
  The \<open>MemoryReader\<close> of \<open>memory.rs\<close>, an \<open>io::Read\<close> over a range of the memory, and the two loops
  of the standard library that the machine drains it with: \<open>io::copy\<close> into a writer and
  \<open>read_to_end\<close> into a vector. Both loops end and deliver exactly the bytes of the range, page by
  page; the one exception is a range that wraps around the address space back into its first page,
  which makes the slice of the first read panic.
\<close>

section \<open>The reader\<close>

record mem_reader =
  rd_memory :: memory
  rd_address :: u32
  rd_count :: u32

definition reader_new :: "memory \<Rightarrow> u32 \<Rightarrow> u32 \<Rightarrow> mem_reader" where
  "reader_new m address count = \<lparr>rd_memory = m, rd_address = address, rd_count = count\<rparr>"

text \<open>
  A read into a buffer of \<open>buf\<close> bytes. With \<open>end < start\<close> the length \<open>end - start\<close> wraps around
  and either the slice or the allocation of that length panics. A chunk that does not fit into
  the buffer is the error of \<open>write_all\<close> on a full slice.
\<close>

definition mem_reader_read :: "nat \<Rightarrow> mem_reader \<Rightarrow> (bytes \<times> mem_reader) res" where
  "mem_reader_read buf rd =
    (if rd_count rd = 0 then Inr ([], rd)
     else
       (let end_address = rd_address rd + rd_count rd;
            page_index = drop_bit PAGE_ADDRESS_SIZE (unat (rd_address rd));
            start = unat (rd_address rd) AND PAGE_ADDRESS_MASK;
            stop = (if page_index = drop_bit PAGE_ADDRESS_SIZE (unat end_address)
                    then unat end_address AND PAGE_ADDRESS_MASK else PAGE_SIZE)
        in if stop < start then Inl PanicSlice
           else
             (let n = stop - start;
                  (page, m1) = page_lookup page_index (rd_memory rd);
                  chunk = (case page of Some r \<Rightarrow> slice_at start stop (data (cell m1 r)) | None \<Rightarrow> replicate n 0)
              in if buf < length chunk then Inl WriteZero
                 else Inr (chunk, \<lparr>rd_memory = m1, rd_address = rd_address rd + of_nat n,
                                   rd_count = rd_count rd - of_nat n\<rparr>))))"

section \<open>One read\<close>

lemma drop_12_div: "drop_bit 12 (n::nat) = n div 4096"
  by (simp add: drop_bit_eq_div)

text \<open>The number of bytes that a read delivers: up to the end of the range or of the page.\<close>

definition read_len :: "u32 \<Rightarrow> u32 \<Rightarrow> nat" where
  "read_len a c = (if unat a div 4096 = unat (a + c) div 4096 then unat c else 4096 - unat a mod 4096)"

definition wraps_into_page :: "u32 \<Rightarrow> u32 \<Rightarrow> bool" where
  "wraps_into_page a c \<longleftrightarrow> unat a div 4096 = unat (a + c) div 4096 \<and> unat (a + c) mod 4096 < unat a mod 4096"

lemma unat_plus_cases:
  fixes a c :: u32
  obtains "unat (a + c) = unat a + unat c" "unat a + unat c < 4294967296"
    | "unat (a + c) + 4294967296 = unat a + unat c"
proof (cases "unat a + unat c < 4294967296")
  case True
  then show ?thesis using that(1) by (simp add: unat_word_ariths)
next
  case False
  then have "(unat a + unat c) mod 4294967296 = (unat a + unat c - 4294967296) mod 4294967296"
    using le_mod_geq by (simp add: not_less)
  moreover have "unat a + unat c - 4294967296 < 4294967296"
    using u32_less [of a] u32_less [of c] by simp
  ultimately have "unat (a + c) = unat a + unat c - 4294967296" by (simp add: unat_word_ariths)
  with False show ?thesis using that(2) by simp
qed

lemma unat_plus_of_nat: "unat (a + of_nat n :: u32) = (unat a + n) mod 4294967296"
  by (simp add: unat_word_ariths unat_of_nat mod_simps)

lemma read_len_stop:
  assumes "\<not> wraps_into_page a c"
  shows "read_len a c = (if unat a div 4096 = unat (a + c) div 4096 then unat (a + c) mod 4096 else 4096) - unat a mod 4096"
proof (cases "unat a div 4096 = unat (a + c) div 4096")
  case True
  then have "unat a mod 4096 \<le> unat (a + c) mod 4096" using assms by (auto simp: wraps_into_page_def)
  then have "unat a \<le> unat (a + c)" and d: "unat (a + c) - unat a = unat (a + c) mod 4096 - unat a mod 4096"
    using same_page [of "unat (a + c)" "unat a"] True by auto
  then have "unat (a + c) - unat a = unat c"
    using u32_less [of c] by (cases rule: unat_plus_cases [of a c]) simp_all
  with True d show ?thesis by (simp add: read_len_def)
qed (simp add: read_len_def)

lemma read_len_bounds:
  assumes "c \<noteq> 0"
  shows "0 < read_len a c" and "read_len a c \<le> unat c"
    and "read_len a c < unat c \<Longrightarrow> unat (a + of_nat (read_len a c)) mod 4096 = 0"
proof -
  have "0 < unat c" using assms by (simp add: unat_gt_0)
  then show "0 < read_len a c" by (simp add: read_len_def)
  have page: "4096 * (unat a div 4096) + 4096 \<le> 4294967296"
  proof -
    have "unat a div 4096 < 1048576" using u32_less [of a] by (simp add: div_less_iff_less_mult)
    then show ?thesis by linarith
  qed
  have le: "4096 - unat a mod 4096 \<le> unat c" if "unat a div 4096 \<noteq> unat (a + c) div 4096"
  proof (rule ccontr)
    assume "\<not> ?thesis"
    then have c: "unat a mod 4096 + unat c < 4096" by simp
    then have "unat a + unat c < 4294967296" using page mult_div_mod_eq [of 4096 "unat a"] by linarith
    then have "unat (a + c) = unat a + unat c" by (simp add: unat_word_ariths)
    with div_mod_in_page(1) [OF c] that show False by simp
  qed
  then show "read_len a c \<le> unat c" by (simp add: read_len_def)
  assume "read_len a c < unat c"
  then have n: "read_len a c = 4096 - unat a mod 4096" by (simp add: read_len_def split: if_splits)
  have "unat a + (4096 - unat a mod 4096) = 4096 * (unat a div 4096) + 4096"
    using mult_div_mod_eq [of 4096 "unat a"] mod_less_divisor [of 4096 "unat a"] by linarith
  then have "(unat a + (4096 - unat a mod 4096)) mod 4096 = 0" by (simp only: mod_mult_self4 mod_self)
  moreover have "unat (a + of_nat (read_len a c)) mod 4096 = (unat a + read_len a c) mod 4096"
    by (simp add: unat_plus_of_nat mod_mod_cancel)
  ultimately show "unat (a + of_nat (read_len a c)) mod 4096 = 0" by (simp only: n)
qed

lemma page_aligned_no_wrap: "unat a mod 4096 = 0 \<Longrightarrow> \<not> wraps_into_page a c"
  by (simp add: wraps_into_page_def)

text \<open>The bytes of a range; addresses wrap around.\<close>

definition mem_range :: "memory \<Rightarrow> u32 \<Rightarrow> nat \<Rightarrow> bytes" where
  "mem_range m a n = map (\<lambda>i. mem_byte m (unat (a + of_nat i))) [0..<n]"

lemma length_mem_range [simp]: "length (mem_range m a n) = n"
  by (simp add: mem_range_def)

lemma mem_range_0 [simp]: "mem_range m a 0 = []"
  by (simp add: mem_range_def)

lemma mem_range_add: "mem_range m a (n + l) = mem_range m a n @ mem_range m (a + of_nat n) l"
  by (rule nth_equalityI) (auto simp: mem_range_def nth_append algebra_simps of_nat_diff)

lemma mem_range_cong: "mem_byte m = mem_byte m' \<Longrightarrow> mem_range m = mem_range m'"
  by (simp add: mem_range_def fun_eq_iff)

lemma mem_reader_read_ok:
  assumes ok: "mem_ok k m" and c: "c \<noteq> 0" and nw: "\<not> wraps_into_page a c" and buf: "read_len a c \<le> buf"
  obtains lp where "mem_reader_read buf (reader_new m a c) = Inr (mem_range m a (read_len a c),
      reader_new (m\<lparr>last_page := lp\<rparr>) (a + of_nat (read_len a c)) (c - of_nat (read_len a c)))"
    and "mem_ok k (m\<lparr>last_page := lp\<rparr>)"
proof -
  let ?n = "read_len a c" and ?i = "unat a div 4096" and ?s = "unat a mod 4096"
  let ?e = "if ?i = unat (a + c) div 4096 then unat (a + c) mod 4096 else 4096"
  obtain lp where lp: "page_lookup ?i m = (pages m ?i, m\<lparr>last_page := lp\<rparr>)" "last_page_ok (m\<lparr>last_page := lp\<rparr>)"
    using page_lookup_eq [OF mem_okD(2) [OF ok]] by metis
  have n: "?n = ?e - ?s" by (rule read_len_stop [OF nw])
  have se: "?s \<le> ?e" "?e \<le> 4096" using nw by (auto simp: wraps_into_page_def)
  have byte: "mem_byte m (unat (a + of_nat i)) = (case pages m ?i of None \<Rightarrow> 0 | Some r \<Rightarrow> data (cell m r) ! (?s + i))"
    if "i < ?n" for i
  proof -
    have i: "?s + i < 4096" using that n se by linarith
    have "?i < 1048576" using u32_less [of a] by (simp add: div_less_iff_less_mult)
    then have "unat a + i < 4294967296" using i mult_div_mod_eq [of 4096 "unat a"] by linarith
    then have "unat (a + of_nat i) = unat a + i" by (simp add: unat_word_ariths unat_of_nat)
    with div_mod_in_page [OF i] show ?thesis unfolding mem_byte_def by (simp only:)
  qed
  let ?chunk = "case pages m ?i of Some r \<Rightarrow> slice_at ?s ?e (data (cell m r)) | None \<Rightarrow> replicate ?n 0"
  have chunk: "?chunk = mem_range m a ?n"
  proof (cases "pages m ?i")
    case None
    with byte show ?thesis by (intro nth_equalityI) (simp_all add: mem_range_def)
  next
    case (Some r)
    have "length (data (cell m r)) = 4096"
      by (rule page_okD(1) [OF pages_okD(3) [OF mem_okD(1) [OF ok] Some]])
    with Some byte se n show ?thesis by (intro nth_equalityI) (simp_all add: mem_range_def nth_slice)
  qed
  have "mem_reader_read buf (reader_new m a c) =
      (if buf < length ?chunk then Inl WriteZero
       else Inr (?chunk, reader_new (m\<lparr>last_page := lp\<rparr>) (a + of_nat ?n) (c - of_nat ?n)))"
    unfolding mem_reader_read_def reader_new_def
    by (cases "pages m ?i")
      (simp_all add: Let_def drop_12_div and_4095_mod c lp(1) n [symmetric] not_less [THEN iffD2, OF se(1)]
        del: of_nat_diff split del: if_split cong: if_cong)
  then show ?thesis
    using buf mem_ok_last_page [OF ok lp(2)] by (intro that [of lp]) (simp_all add: chunk)
qed

lemma mem_reader_read_done: "mem_reader_read buf (reader_new m a 0) = Inr ([], reader_new m a 0)"
  by (simp add: mem_reader_read_def reader_new_def)

lemma mem_reader_read_panic:
  "c \<noteq> 0 \<Longrightarrow> wraps_into_page a c \<Longrightarrow> mem_reader_read buf (reader_new m a c) = Inl PanicSlice"
  by (simp add: mem_reader_read_def reader_new_def wraps_into_page_def drop_12_div and_4095_mod)

text \<open>Every read that delivers something leaves less to read.\<close>

lemma mem_reader_read_progress:
  assumes "mem_reader_read buf rd = Inr (chunk, rd1)" and "chunk \<noteq> []"
  shows "unat (rd_count rd1) < unat (rd_count rd)"
proof -
  let ?a = "rd_address rd" and ?c = "rd_count rd"
  have c: "?c \<noteq> 0" using assms by (auto simp: mem_reader_read_def)
  have nw: "\<not> wraps_into_page ?a ?c"
    using assms(1) mem_reader_read_panic [OF c, of ?a buf "rd_memory rd"]
    by (cases rd) (auto simp: reader_new_def)
  have "rd_count rd1 = ?c - of_nat (read_len ?a ?c)"
    using assms(1) c unfolding read_len_stop [OF nw]
    by (auto simp: mem_reader_read_def Let_def drop_12_div and_4095_mod split: if_splits prod.splits)
  moreover have "unat (of_nat (read_len ?a ?c) :: u32) = read_len ?a ?c"
    using read_len_bounds(2) [OF c, of ?a] u32_less [of ?c] by (simp add: unat_of_nat)
  ultimately show ?thesis
    using read_len_bounds(1,2) [OF c, of ?a] by (simp add: unat_sub word_le_nat_alt)
qed

section \<open>Draining the reader\<close>

text \<open>\<open>io::copy\<close> reads through a buffer of 8 KiB and hands each chunk to \<open>write_all\<close> of the writer.\<close>

function io_copy :: "('w \<Rightarrow> bytes \<Rightarrow> 'w res) \<Rightarrow> mem_reader \<Rightarrow> 'w \<Rightarrow> (mem_reader \<times> 'w) res" where
  "io_copy write_all rd w =
     rbind (mem_reader_read 8192 rd) (\<lambda>(chunk, rd1).
       if chunk = [] then Inr (rd1, w)
       else rbind (write_all w chunk) (\<lambda>w1. io_copy write_all rd1 w1))"
  by pat_completeness auto
termination
  by (relation "measure (\<lambda>(wr, rd, w). unat (rd_count rd))") (auto dest: mem_reader_read_progress)

declare io_copy.simps [simp del]

text \<open>
  \<open>read_to_end\<close> into a vector of capacity \<open>cap\<close>: a first probe of 32 bytes when the capacity is
  smaller, then reads into the spare capacity, at most 8 KiB at a time, and a probe of 32 bytes
  when the vector is full.
\<close>

definition read_size :: "nat \<Rightarrow> nat \<Rightarrow> nat" where
  "read_size cap len = (if len = 0 \<and> cap < 32 \<or> cap \<le> len then 32 else min (cap - len) 8192)"

function read_to_end :: "nat \<Rightarrow> bytes \<Rightarrow> mem_reader \<Rightarrow> (bytes \<times> mem_reader) res" where
  "read_to_end cap buf rd =
     rbind (mem_reader_read (read_size cap (length buf)) rd) (\<lambda>(chunk, rd1).
       if chunk = [] then Inr (buf, rd1) else read_to_end cap (buf @ chunk) rd1)"
  by pat_completeness auto
termination
  by (relation "measure (\<lambda>(cap, buf, rd). unat (rd_count rd))") (auto dest: mem_reader_read_progress)

declare read_to_end.simps [simp del]

text \<open>Writing a list of chunks one after the other.\<close>

fun write_chunks :: "('w \<Rightarrow> bytes \<Rightarrow> 'w res) \<Rightarrow> bytes list \<Rightarrow> 'w \<Rightarrow> 'w res" where
  "write_chunks wr [] w = Inr w"
| "write_chunks wr (c # cs) w = rbind (wr w c) (write_chunks wr cs)"

text \<open>What is left after one read, shared by both loops.\<close>

lemma rest_of_range:
  fixes a c :: u32
  assumes "c \<noteq> 0"
  defines "n \<equiv> read_len a c"
  shows "unat (c - of_nat n) = unat c - n"
    and "mem_range m a (unat c) = mem_range m a n @ mem_range m (a + of_nat n) (unat (c - of_nat n))"
    and "c - of_nat n \<noteq> 0 \<Longrightarrow> \<not> wraps_into_page (a + of_nat n) (c - of_nat n)"
    and "unat (c - of_nat n) < unat c" and "mem_range m a n \<noteq> []"
proof -
  note b = read_len_bounds [OF assms(1), of a, folded n_def]
  have "unat (of_nat n :: u32) = n" using b(2) u32_less [of c] by (simp add: unat_of_nat)
  then show u: "unat (c - of_nat n) = unat c - n" using b(2) by (simp add: unat_sub word_le_nat_alt)
  have "unat c = n + (unat c - n)" using b(2) by simp
  with u show "mem_range m a (unat c) = mem_range m a n @ mem_range m (a + of_nat n) (unat (c - of_nat n))"
    using mem_range_add [of m a n "unat c - n"] by simp
  show "\<not> wraps_into_page (a + of_nat n) (c - of_nat n)" if "c - of_nat n \<noteq> 0"
  proof (rule page_aligned_no_wrap)
    have "0 < unat (c - of_nat n)" using that by (simp add: unat_gt_0)
    then show "unat (a + of_nat n) mod 4096 = 0" using u b(3) by simp
  qed
  show "unat (c - of_nat n) < unat c" using u b(1,2) by simp
  show "mem_range m a n \<noteq> []" using b(1) by (metis length_mem_range list.size(3) less_irrefl)
qed

lemma read_len_page: "c \<noteq> 0 \<Longrightarrow> \<not> wraps_into_page a c \<Longrightarrow> read_len a c \<le> 4096"
  using read_len_stop [of a c] by (simp split: if_splits)

text \<open>The chunks of a range: up to the end of a page each.\<close>

function mem_chunks :: "memory \<Rightarrow> u32 \<Rightarrow> u32 \<Rightarrow> bytes list" where
  "mem_chunks m a c =
    (if c = 0 then []
     else mem_range m a (read_len a c) # mem_chunks m (a + of_nat (read_len a c)) (c - of_nat (read_len a c)))"
  by pat_completeness auto
termination
  by (relation "measure (\<lambda>(m, a, c). unat c)") (auto intro: rest_of_range(4))

declare mem_chunks.simps [simp del]

lemma mem_chunks_0 [simp]: "mem_chunks m a 0 = []"
  by (simp add: mem_chunks.simps)

lemma concat_mem_chunks: "concat (mem_chunks m a c) = mem_range m a (unat c)"
proof (induction m a c rule: mem_chunks.induct)
  case (1 m a c)
  show ?case
  proof (cases "c = 0")
    case False
    then show ?thesis
      using "1.IH" [OF False] rest_of_range(2) [OF False, of m a] by (subst mem_chunks.simps) simp
  qed simp
qed

lemma mem_chunks_cong:
  assumes "mem_byte m = mem_byte m'"
  shows "mem_chunks m a c = mem_chunks m' a c"
proof (induction "unat c" arbitrary: a c rule: less_induct)
  case less
  show ?case
  proof (cases "c = 0")
    case False
    then have "mem_chunks m (a + of_nat (read_len a c)) (c - of_nat (read_len a c)) = mem_chunks m' (a + of_nat (read_len a c)) (c - of_nat (read_len a c))"
      by (intro less.hyps rest_of_range(4))
    moreover have "mem_range m = mem_range m'" using assms by (rule mem_range_cong)
    ultimately show ?thesis by (simp add: mem_chunks.simps [of m a c] mem_chunks.simps [of m' a c])
  qed simp
qed

lemma io_copy_ok:
  assumes "mem_ok k m" and "c = 0 \<or> \<not> wraps_into_page a c"
  shows "\<exists>lp a'. mem_ok k (m\<lparr>last_page := lp\<rparr>)
    \<and> (\<forall>w. io_copy wr (reader_new m a c) w
       = rbind (write_chunks wr (mem_chunks m a c) w) (\<lambda>w'. Inr (reader_new (m\<lparr>last_page := lp\<rparr>) a' 0, w')))"
  using assms
proof (induction "unat c" arbitrary: m a c rule: less_induct)
  case less
  show ?case
  proof (cases "c = 0")
    case True
    with less.prems show ?thesis
      by (intro exI [of _ "last_page m"] exI [of _ a]) (simp add: io_copy.simps mem_reader_read_done)
  next
    case False
    let ?n = "read_len a c"
    let ?a = "a + of_nat ?n" and ?c = "c - of_nat ?n"
    have nw: "\<not> wraps_into_page a c" using False less.prems(2) by simp
    obtain lp where rd: "mem_reader_read 8192 (reader_new m a c) = Inr (mem_range m a ?n, reader_new (m\<lparr>last_page := lp\<rparr>) ?a ?c)"
        "mem_ok k (m\<lparr>last_page := lp\<rparr>)"
      using mem_reader_read_ok [OF less.prems(1) False nw, of 8192] read_len_page [OF False nw] by auto
    note rest = rest_of_range [OF False, where a = a]
    have io: "io_copy wr (reader_new m a c) w = rbind (wr w (mem_range m a ?n)) (io_copy wr (reader_new (m\<lparr>last_page := lp\<rparr>) ?a ?c))" for w
      using rd(1) rest(5) by (subst io_copy.simps) simp
    have "?c = 0 \<or> \<not> wraps_into_page ?a ?c" using rest(3) by blast
    from less.hyps [OF rest(4) rd(2) this] obtain lp' a' where ch: "mem_ok k (m\<lparr>last_page := lp'\<rparr>)"
        "\<And>w. io_copy wr (reader_new (m\<lparr>last_page := lp\<rparr>) ?a ?c) w
          = rbind (write_chunks wr (mem_chunks m ?a ?c) w) (\<lambda>w'. Inr (reader_new (m\<lparr>last_page := lp'\<rparr>) a' 0, w'))"
      using mem_chunks_cong [of "m\<lparr>last_page := lp\<rparr>" m] by (auto simp: mem_byte_fields)
    have "mem_chunks m a c = mem_range m a ?n # mem_chunks m ?a ?c" using False by (subst mem_chunks.simps) simp
    then have "io_copy wr (reader_new m a c) w = rbind (write_chunks wr (mem_chunks m a c) w)
        (\<lambda>w'. Inr (reader_new (m\<lparr>last_page := lp'\<rparr>) a' 0, w'))" for w
      unfolding io by (cases "wr w (mem_range m a ?n)") (simp_all add: ch(2))
    with ch(1) show ?thesis by blast
  qed
qed

text \<open>Every read of the second loop finds room for its chunk.\<close>

lemma read_size_enough:
  assumes "c \<noteq> 0" and "\<not> wraps_into_page a c" and "len + unat c = cap"
  shows "read_len a c \<le> read_size cap len"
  using read_len_page [OF assms(1,2)] read_len_bounds(2) [OF assms(1), of a] assms(3)
  by (auto simp: read_size_def)

lemma read_to_end_ok:
  assumes "mem_ok k m" and "c = 0 \<or> \<not> wraps_into_page a c" and "length buf + unat c = cap"
  shows "\<exists>lp a'. read_to_end cap buf (reader_new m a c)
      = Inr (buf @ mem_range m a (unat c), reader_new (m\<lparr>last_page := lp\<rparr>) a' 0)
    \<and> mem_ok k (m\<lparr>last_page := lp\<rparr>)"
  using assms
proof (induction "unat c" arbitrary: m a c buf rule: less_induct)
  case less
  show ?case
  proof (cases "c = 0")
    case True
    with less.prems show ?thesis
      by (intro exI [of _ "last_page m"] exI [of _ a]) (simp add: read_to_end.simps mem_reader_read_done)
  next
    case False
    let ?n = "read_len a c"
    have nw: "\<not> wraps_into_page a c" using False less.prems(2) by simp
    obtain lp where rd: "mem_reader_read (read_size cap (length buf)) (reader_new m a c) = Inr (mem_range m a ?n,
        reader_new (m\<lparr>last_page := lp\<rparr>) (a + of_nat ?n) (c - of_nat ?n))" "mem_ok k (m\<lparr>last_page := lp\<rparr>)"
      using mem_reader_read_ok [OF less.prems(1) False nw] read_size_enough [OF False nw less.prems(3)] by metis
    note rest = rest_of_range [OF False, where a = a]
    have unfold: "read_to_end cap buf (reader_new m a c) = read_to_end cap (buf @ mem_range m a ?n)
        (reader_new (m\<lparr>last_page := lp\<rparr>) (a + of_nat ?n) (c - of_nat ?n))"
      using rd(1) rest(5) by (subst read_to_end.simps) simp
    have "c - of_nat ?n = 0 \<or> \<not> wraps_into_page (a + of_nat ?n) (c - of_nat ?n)" using rest(3) by blast
    moreover have "length (buf @ mem_range m a ?n) + unat (c - of_nat ?n) = cap"
      using less.prems(3) rest(1) read_len_bounds(2) [OF False, of a] by simp
    ultimately obtain lp' a' where "read_to_end cap (buf @ mem_range m a ?n)
        (reader_new (m\<lparr>last_page := lp\<rparr>) (a + of_nat ?n) (c - of_nat ?n))
        = Inr ((buf @ mem_range m a ?n) @ mem_range (m\<lparr>last_page := lp\<rparr>) (a + of_nat ?n) (unat (c - of_nat ?n)),
            reader_new (m\<lparr>last_page := lp'\<rparr>) a' 0)" "mem_ok k (m\<lparr>last_page := lp'\<rparr>)"
      using less.hyps [OF rest(4) rd(2)] by fastforce
    then show ?thesis
      using unfold rest(2) mem_range_cong [of "m\<lparr>last_page := lp\<rparr>" m] by (auto simp: mem_byte_fields)
  qed
qed

lemma io_copy_panic: "c \<noteq> 0 \<Longrightarrow> wraps_into_page a c \<Longrightarrow> io_copy wr (reader_new m a c) w = Inl PanicSlice"
  by (subst io_copy.simps) (simp add: mem_reader_read_panic)

lemma read_to_end_panic: "c \<noteq> 0 \<Longrightarrow> wraps_into_page a c \<Longrightarrow> read_to_end cap buf (reader_new m a c) = Inl PanicSlice"
  by (subst read_to_end.simps) (simp add: mem_reader_read_panic)

text \<open>A range that ends inside the address space never wraps into its first page.\<close>

lemma no_wrap: "unat a + unat c < 4294967296 \<Longrightarrow> \<not> wraps_into_page a c"
proof
  assume lt: "unat a + unat c < 4294967296" and w: "wraps_into_page a c"
  then have "unat (a + c) < unat a"
    using same_page(2) [of "unat (a + c)" "unat a" 0] by (simp add: wraps_into_page_def)
  with lt show False by (cases rule: unat_plus_cases [of a c]) simp_all
qed

end
