(* ===== verification/Mips_VM.thy ===== *)
theory Mips_VM
  imports Mips_Alu Memory_Reader
begin

text \<open>
  The instrumented machine: \<open>InstrumentedState\<close> of \<open>instrumented.rs\<close> with the parts of
  \<open>mips_vm.rs\<close> that touch memory, output and oracle. What the struct is generic over is a parameter,
  the record \<open>env\<close>: the digest \<open>keccak256\<close>, the two calls of the trait \<open>PreimageOracle\<close> on an
  oracle of type \<open>'o\<close>, and \<open>write_all\<close> on a buffered writer of type \<open>'w\<close>. Nothing is assumed of
  them in the definitions. An operation that fails returns the error alone.
\<close>

section \<open>Data\<close>

record ('o, 'w) env =
  env_keccak :: hash_fn
  env_get :: "'o \<Rightarrow> bytes \<Rightarrow> (bytes \<times> 'o) res"
  env_hint :: "'o \<Rightarrow> bytes \<Rightarrow> 'o res"
  env_write :: "'w \<Rightarrow> bytes \<Rightarrow> 'w res"

record ('o, 'w) instrumented =
  vm_state :: state
  std_out :: 'w
  std_err :: 'w
  last_mem_access :: u32
  mem_proof_enabled :: bool
  mem_proof :: bytes
  preimage_oracle :: 'o
  last_preimage :: bytes
  last_preimage_key :: bytes
  last_preimage_offset :: u32

definition MIPS_EBADF :: u32 where
  [simp]: "MIPS_EBADF = 0x9"

definition MIPS_EINVAL :: u32 where
  [simp]: "MIPS_EINVAL = 0x16"

definition instrumented_new :: "state \<Rightarrow> 'o \<Rightarrow> 'w \<Rightarrow> 'w \<Rightarrow> ('o, 'w) instrumented" where
  "instrumented_new s oracle out err = \<lparr>vm_state = s, std_out = out, std_err = err,
     last_mem_access = 0, mem_proof_enabled = False, mem_proof = replicate (28 * 32) 0,
     preimage_oracle = oracle, last_preimage = [], last_preimage_key = replicate 32 0,
     last_preimage_offset = 0\<rparr>"

abbreviation vm_memory :: "('o, 'w) instrumented \<Rightarrow> memory" where
  "vm_memory v \<equiv> memory (vm_state v)"

abbreviation set_vm_memory :: "memory \<Rightarrow> ('o, 'w) instrumented \<Rightarrow> ('o, 'w) instrumented" where
  "set_vm_memory m v \<equiv> v\<lparr>vm_state := (vm_state v)\<lparr>memory := m\<rparr>\<rparr>"

text \<open>A handler on the inner state, run on the machine.\<close>

definition on_state :: "(state \<Rightarrow> state res) \<Rightarrow> ('o, 'w) instrumented \<Rightarrow> ('o, 'w) instrumented res" where
  "on_state f v = rbind (f (vm_state v)) (\<lambda>s. Inr (v\<lparr>vm_state := s\<rparr>))"

definition vm_get_memory :: "u32 \<Rightarrow> ('o, 'w) instrumented \<Rightarrow> (u32 \<times> ('o, 'w) instrumented) res" where
  "vm_get_memory address v = rbind (get_memory address (vm_memory v)) (\<lambda>(x, m). Inr (x, set_vm_memory m v))"

definition vm_set_memory :: "('o, 'w) env \<Rightarrow> u32 \<Rightarrow> u32 \<Rightarrow> ('o, 'w) instrumented \<Rightarrow> ('o, 'w) instrumented res" where
  "vm_set_memory env address val v =
     rbind (set_memory (env_keccak env) address val (vm_memory v)) (\<lambda>m. Inr (set_vm_memory m v))"

section \<open>Preimages and memory accesses\<close>

text \<open>
  The cached preimage carries its length as 8 bytes in front. A read returns up to 32 bytes from
  the offset on; slicing at an offset beyond the end panics.
\<close>

definition read_preimage ::
  "('o, 'w) env \<Rightarrow> bytes \<Rightarrow> u32 \<Rightarrow> ('o, 'w) instrumented \<Rightarrow> ((bytes \<times> nat) \<times> ('o, 'w) instrumented) res" where
  "read_preimage env key offset v =
     rbind
       (if key \<noteq> last_preimage_key v then
          rbind (env_get env (preimage_oracle v) key) (\<lambda>(dat, oracle).
            Inr (v\<lparr>preimage_oracle := oracle, last_preimage_key := key,
                   last_preimage := u64_be (of_nat (length dat)) @ dat\<rparr>))
        else Inr v)
       (\<lambda>v1.
          let v2 = v1\<lparr>last_preimage_offset := offset\<rparr>
          in if length (last_preimage v2) < unat offset then Inl PanicSlice
             else
               (let chunk = take 32 (drop (unat offset) (last_preimage v2))
                in Inr ((copy_from_slice 0 chunk (replicate 32 0), length chunk), v2)))"

definition track_mem_access :: "('o, 'w) env \<Rightarrow> u32 \<Rightarrow> ('o, 'w) instrumented \<Rightarrow> ('o, 'w) instrumented res" where
  "track_mem_access env effective_address v =
    (if mem_proof_enabled v \<and> last_mem_access v \<noteq> effective_address then
       (if last_mem_access v \<noteq> 0xFFFFFFFF
        then Inl (UnexpectedMemAccess effective_address (last_mem_access v))
        else
          (let v1 = v\<lparr>last_mem_access := effective_address\<rparr>
           in rbind (merkle_proof (env_keccak env) effective_address (vm_memory v1)) (\<lambda>(pf, m).
                Inr (set_vm_memory m (v1\<lparr>mem_proof := pf\<rparr>)))))
     else Inr v)"

section \<open>System calls\<close>

text \<open>Each system call returns the new values of the registers \<open>v0\<close> and \<open>v1\<close>.\<close>

definition sys_mmap :: "u32 \<Rightarrow> u32 \<Rightarrow> state \<Rightarrow> u32 \<times> state" where
  "sys_mmap a0 a1 s =
    (let masked_size = a1 AND of_nat PAGE_ADDRESS_MASK;
         sz = (if masked_size \<noteq> 0 then a1 + (of_nat PAGE_SIZE - masked_size) else a1)
     in if a0 = 0 then (heap s, s\<lparr>heap := heap s + sz\<rparr>) else (a0, s))"

text \<open>Reading the preimage into memory: at most up to the end of the word that holds \<open>a1\<close>.\<close>

definition sys_read_preimage ::
  "('o, 'w) env \<Rightarrow> u32 \<Rightarrow> u32 \<Rightarrow> ('o, 'w) instrumented \<Rightarrow> (u32 \<times> ('o, 'w) instrumented) res" where
  "sys_read_preimage env a1 a2 v =
    (let effective_address = a1 AND 0xFFFFFFFC
     in rbind (track_mem_access env effective_address v) (\<lambda>v1.
        rbind (vm_get_memory effective_address v1) (\<lambda>(mem, v2).
        rbind (read_preimage env (preimage_key (vm_state v2)) (preimage_offset (vm_state v2)) v2) (\<lambda>((dat, data_len), v3).
          let alignment = unat (a1 AND 3);
              space = 4 - alignment;
              data_len = (if space < data_len then space else data_len);
              data_len = (if unat a2 < data_len then unat a2 else data_len);
              out_mem = copy_from_slice alignment (take data_len dat) (u32_be mem)
          in rbind (vm_set_memory env effective_address (from_be out_mem) v3) (\<lambda>v4.
               Inr (of_nat data_len,
                    v4\<lparr>vm_state := (vm_state v4)\<lparr>preimage_offset := preimage_offset (vm_state v4) + of_nat data_len\<rparr>\<rparr>))))))"

definition sys_read ::
  "('o, 'w) env \<Rightarrow> u32 \<Rightarrow> u32 \<Rightarrow> u32 \<Rightarrow> ('o, 'w) instrumented \<Rightarrow> ((u32 \<times> u32) \<times> ('o, 'w) instrumented) res" where
  "sys_read env a0 a1 a2 v =
    (case Fd_try_from (ucast a0) of
       Some StdIn \<Rightarrow> Inr ((0, 0), v)
     | Some PreimageRead \<Rightarrow> rbind (sys_read_preimage env a1 a2 v) (\<lambda>(v0, v1). Inr ((v0, 0), v1))
     | Some HintRead \<Rightarrow> Inr ((a2, 0), v)
     | _ \<Rightarrow> Inr ((0xFFFFFFFF, MIPS_EBADF), v))"

text \<open>The loop over buffered hints. The condition is the one of the code.\<close>

function process_hints :: "('o \<Rightarrow> bytes \<Rightarrow> 'o res) \<Rightarrow> 'o \<Rightarrow> bytes \<Rightarrow> ('o \<times> bytes) res" where
  "process_hints hint oracle lh =
    (if 4 \<le> length lh then
       (let hint_len = (from_be (take 4 lh) :: u32)
        in if of_nat (length lh) - 4 \<le> hint_len then
             (if length lh < 4 + unat hint_len then Inl PanicSlice
              else rbind (hint oracle (slice_at 4 (4 + unat hint_len) lh)) (\<lambda>oracle1.
                     process_hints hint oracle1 (drop (4 + unat hint_len) lh)))
           else Inr (oracle, lh))
     else Inr (oracle, lh))"
  by pat_completeness auto
termination
  by (relation "measure (\<lambda>(hint, oracle, lh). length lh)") auto

declare process_hints.simps [simp del]

definition sys_write_hint ::
  "('o, 'w) env \<Rightarrow> u32 \<Rightarrow> u32 \<Rightarrow> ('o, 'w) instrumented \<Rightarrow> ('o, 'w) instrumented res" where
  "sys_write_hint env a1 a2 v =
     rbind (read_to_end (unat a2) [] (reader_new (vm_memory v) a1 a2)) (\<lambda>(hint_data, rd).
     rbind (process_hints (env_hint env) (preimage_oracle v) (last_hint (vm_state v) @ hint_data)) (\<lambda>(oracle, lh).
       Inr (v\<lparr>preimage_oracle := oracle,
              vm_state := (vm_state v)\<lparr>memory := rd_memory rd, last_hint := lh\<rparr>\<rparr>)))"

text \<open>Writing a preimage key: the key is shifted left by the number of bytes that come in.\<close>

definition sys_write_preimage ::
  "('o, 'w) env \<Rightarrow> u32 \<Rightarrow> u32 \<Rightarrow> ('o, 'w) instrumented \<Rightarrow> (u32 \<times> ('o, 'w) instrumented) res" where
  "sys_write_preimage env a1 a2 v =
    (let effective_address = a1 AND 0xFFFFFFFC
     in rbind (track_mem_access env effective_address v) (\<lambda>v1.
        rbind (vm_get_memory effective_address v1) (\<lambda>(mem, v2).
          let key = preimage_key (vm_state v2);
              alignment = a1 AND 3;
              space = 4 - alignment;
              a2 = (if space < a2 then space else a2);
              key1 = copy_from_slice 0 (drop (unat a2) key) key;
              key2 = copy_from_slice (32 - unat a2) (take (unat a2) (drop (unat alignment) (u32_be mem))) key1
          in Inr (a2, v2\<lparr>vm_state := (vm_state v2)\<lparr>preimage_key := key2, preimage_offset := 0\<rparr>\<rparr>))))"

definition sys_write ::
  "('o, 'w) env \<Rightarrow> u32 \<Rightarrow> u32 \<Rightarrow> u32 \<Rightarrow> ('o, 'w) instrumented \<Rightarrow> ((u32 \<times> u32) \<times> ('o, 'w) instrumented) res" where
  "sys_write env a0 a1 a2 v =
    (case Fd_try_from (ucast a0) of
       Some Stdout \<Rightarrow>
         rbind (io_copy (env_write env) (reader_new (vm_memory v) a1 a2) (std_out v)) (\<lambda>(rd, w).
           Inr ((a2, 0), set_vm_memory (rd_memory rd) (v\<lparr>std_out := w\<rparr>)))
     | Some StdErr \<Rightarrow>
         rbind (io_copy (env_write env) (reader_new (vm_memory v) a1 a2) (std_err v)) (\<lambda>(rd, w).
           Inr ((a2, 0), set_vm_memory (rd_memory rd) (v\<lparr>std_err := w\<rparr>)))
     | Some HintWrite \<Rightarrow> rbind (sys_write_hint env a1 a2 v) (\<lambda>v1. Inr ((a2, 0), v1))
     | Some PreimageWrite \<Rightarrow> rbind (sys_write_preimage env a1 a2 v) (\<lambda>(v0, v1). Inr ((v0, 0), v1))
     | _ \<Rightarrow> Inr ((0xFFFFFFFF, MIPS_EBADF), v))"

definition sys_fcntl :: "u32 \<Rightarrow> u32 \<Rightarrow> u32 \<times> u32" where
  "sys_fcntl a0 a1 =
    (if a1 = 3 then
       (case Fd_try_from (ucast a0) of
          Some StdIn \<Rightarrow> (0, 0) | Some PreimageRead \<Rightarrow> (0, 0) | Some HintRead \<Rightarrow> (0, 0)
        | Some Stdout \<Rightarrow> (1, 0) | Some StdErr \<Rightarrow> (1, 0) | Some PreimageWrite \<Rightarrow> (1, 0) | Some HintWrite \<Rightarrow> (1, 0)
        | None \<Rightarrow> (0xFFFFFFFF, MIPS_EBADF))
     else (0xFFFFFFFF, MIPS_EINVAL))"

text \<open>The end of a system call: the two result registers and the program counters.\<close>

definition syscall_return :: "u32 \<Rightarrow> u32 \<Rightarrow> state \<Rightarrow> state" where
  "syscall_return v0 v1 s = s\<lparr>registers := (registers s)[2 := v0, 7 := v1], pc := next_pc s, next_pc := next_pc s + 4\<rparr>"

definition handle_syscall :: "('o, 'w) env \<Rightarrow> ('o, 'w) instrumented \<Rightarrow> ('o, 'w) instrumented res" where
  "handle_syscall env v =
    (let s = vm_state v;
         a0 = registers s ! 4;
         a1 = registers s ! 5;
         a2 = registers s ! 6;
         return = (\<lambda>((v0, v1), v). Inr (v\<lparr>vm_state := syscall_return v0 v1 (vm_state v)\<rparr>))
     in case Syscall_try_from (registers s ! 2) of
          None \<Rightarrow> return ((0, 0), v)
        | Some Mmap \<Rightarrow> (let (v0, s1) = sys_mmap a0 a1 s in return ((v0, 0), v\<lparr>vm_state := s1\<rparr>))
        | Some Brk \<Rightarrow> return ((0x40000000, 0), v)
        | Some Clone \<Rightarrow> return ((1, 0), v)
        | Some ExitGroup \<Rightarrow> Inr (v\<lparr>vm_state := s\<lparr>exited := True, exit_code := ucast a0\<rparr>\<rparr>)
        | Some Read \<Rightarrow> rbind (sys_read env a0 a1 a2 v) return
        | Some Write \<Rightarrow> rbind (sys_write env a0 a1 a2 v) return
        | Some Fcntl \<Rightarrow> return (sys_fcntl a0 a1, v))"

section \<open>One step\<close>

text \<open>Register fetch: the values of \<open>rs\<close> and \<open>rt\<close>, and the destination register.\<close>

definition fetch_operands :: "u32 \<Rightarrow> state \<Rightarrow> u32 \<times> u32 \<times> u32" where
  "fetch_operands instruction s =
    (let opcode = drop_bit 26 instruction;
         rs = registers s ! unat (drop_bit 21 instruction AND 0x1F);
         rt_reg = drop_bit 16 instruction AND 0x1F
     in if opcode = 0 \<or> opcode = 0x1c
        then (rs, registers s ! unat rt_reg, drop_bit 11 instruction AND 0x1F)
        else if opcode < 20 then
          (rs, if 0x0c \<le> opcode \<and> opcode \<le> 0x0e then instruction AND 0xFFFF
               else sign_extend (instruction AND 0xFFFF) 16, rt_reg)
        else if 0x28 \<le> opcode \<or> opcode = 0x22 \<or> opcode = 0x26
        then (rs, registers s ! unat rt_reg, rt_reg)
        else (rs, 0, rt_reg))"

text \<open>
  Memory fetch, for stores too: the effective address in \<open>rs\<close>, the word, the address to store at,
  and the destination register, which a store does not have.
\<close>

definition fetch_memory ::
  "('o, 'w) env \<Rightarrow> u32 \<Rightarrow> u32 \<Rightarrow> u32 \<Rightarrow> ('o, 'w) instrumented \<Rightarrow> ((u32 \<times> u32 \<times> u32 \<times> u32) \<times> ('o, 'w) instrumented) res" where
  "fetch_memory env instruction rs rd_reg v =
    (let opcode = drop_bit 26 instruction
     in if 0x20 \<le> opcode then
          (let rs = rs + sign_extend (instruction AND 0xFFFF) 16;
               address = rs AND 0xFFFFFFFC
           in rbind (track_mem_access env address v) (\<lambda>v1.
              rbind (vm_get_memory address v1) (\<lambda>(mem, v2).
                Inr (if 0x28 \<le> opcode \<and> opcode \<noteq> 0x30 then (rs, mem, address, 0)
                     else (rs, mem, 0xFFFFFFFF, rd_reg), v2))))
        else Inr ((rs, 0, 0xFFFFFFFF, rd_reg), v))"

text \<open>The end of a step: \<open>sc\<close> sets its register, a store writes memory, \<open>rd\<close> is written back.\<close>

definition write_back ::
  "('o, 'w) env \<Rightarrow> u32 \<Rightarrow> u32 \<Rightarrow> u32 \<Rightarrow> u32 \<Rightarrow> ('o, 'w) instrumented \<Rightarrow> ('o, 'w) instrumented res" where
  "write_back env instruction store_address rd_reg val v =
    (let rt_reg = drop_bit 16 instruction AND 0x1F;
         v1 = (if drop_bit 26 instruction = 0x38 \<and> rt_reg \<noteq> 0
               then v\<lparr>vm_state := (vm_state v)\<lparr>registers := (registers (vm_state v))[unat rt_reg := 1]\<rparr>\<rparr> else v)
     in rbind
          (if store_address \<noteq> 0xFFFFFFFF then
             rbind (track_mem_access env store_address v1) (\<lambda>v2. vm_set_memory env store_address val v2)
           else Inr v1)
          (on_state (handle_rd rd_reg val True)))"

text \<open>The dispatch after the ALU.\<close>

definition dispatch ::
  "('o, 'w) env \<Rightarrow> u32 \<Rightarrow> u32 \<Rightarrow> u32 \<Rightarrow> u32 \<Rightarrow> u32 \<Rightarrow> u32 \<Rightarrow> ('o, 'w) instrumented \<Rightarrow> ('o, 'w) instrumented res" where
  "dispatch env instruction rs rt store_address rd_reg val v =
    (let func = instruction AND 0x3F;
         special = (drop_bit 26 instruction = 0)
     in if special \<and> 8 \<le> func \<and> func \<le> 9 then on_state (handle_jump (if func = 9 then rd_reg else 0) rs) v
        else if special \<and> func = 0x0A then on_state (handle_rd rd_reg val (rt = 0)) v
        else if special \<and> func = 0x0B then on_state (handle_rd rd_reg val (rt \<noteq> 0)) v
        else if special \<and> func = 0x0C then handle_syscall env v
        else if special \<and> 0x10 \<le> func \<and> func \<le> 0x1b then on_state (handle_hi_lo func rs rt rd_reg) v
        else write_back env instruction store_address rd_reg val v)"

text \<open>An instruction, once it is fetched.\<close>

definition step_instruction :: "('o, 'w) env \<Rightarrow> u32 \<Rightarrow> ('o, 'w) instrumented \<Rightarrow> ('o, 'w) instrumented res" where
  "step_instruction env instruction v =
    (let opcode = drop_bit 26 instruction
     in if 2 \<le> opcode \<and> opcode \<le> 3 then
          (let link_reg = (if opcode = 3 then 31 else 0);
               target = (next_pc (vm_state v) AND 0xF0000000) OR shl32 (instruction AND 0x03FFFFFF) 2
           in on_state (handle_jump link_reg target) v)
        else
          (let (rs, rt, rd_reg) = fetch_operands instruction (vm_state v)
           in if 4 \<le> opcode \<and> opcode < 8 \<or> opcode = 1 then
                on_state (handle_branch opcode instruction (drop_bit 16 instruction AND 0x1F) rs) v
              else
                rbind (fetch_memory env instruction rs rd_reg v) (\<lambda>((rs, mem, store_address, rd_reg), v1).
                rbind (execute instruction rs rt mem) (\<lambda>val.
                  dispatch env instruction rs rt store_address rd_reg val v1))))"

definition inner_step :: "('o, 'w) env \<Rightarrow> ('o, 'w) instrumented \<Rightarrow> ('o, 'w) instrumented res" where
  "inner_step env v =
    (if exited (vm_state v) then Inr v
     else
       (let v0 = v\<lparr>vm_state := (vm_state v)\<lparr>step := step (vm_state v) + 1\<rparr>\<rparr>
        in rbind (vm_get_memory (pc (vm_state v0)) v0) (\<lambda>(instruction, v1). step_instruction env instruction v1)))"

end
