(* ===== verification/Mips_Step.thy ===== *)
theory Mips_Step
  imports Mips_VM
begin

text \<open>
  What one step of the machine may change. \<open>still\<close> relates the machine before and after the
  operations inside a step, which leave registers and program counters alone; \<open>advances\<close> relates
  it before and after the operations that end a step. \<open>step_inv\<close> is the invariant inside a step
  that starts with memory \<open>m0\<close>: while proofs are generated, the contents differ from \<open>m0\<close> in at
  most the one word at \<open>last_mem_access\<close>, and \<open>mem_proof\<close> is the branch of that word in \<open>m0\<close>.
\<close>

section \<open>Relations\<close>

definition same_control :: "state \<Rightarrow> state \<Rightarrow> bool" where
  "same_control s s' \<longleftrightarrow> pc s' = pc s \<and> next_pc s' = next_pc s \<and> lo s' = lo s \<and> hi s' = hi s \<and>
     exit_code s' = exit_code s \<and> exited s' = exited s \<and> step s' = step s \<and> registers s' = registers s"

definition still :: "('o, 'w) instrumented \<Rightarrow> ('o, 'w) instrumented \<Rightarrow> bool" where
  "still v v' \<longleftrightarrow> same_control (vm_state v) (vm_state v') \<and> mem_proof_enabled v' = mem_proof_enabled v"

definition advances :: "state \<Rightarrow> state \<Rightarrow> bool" where
  "advances s s' \<longleftrightarrow> step s' = step s \<and> length (registers s') = length (registers s) \<and>
     (0 < length (registers s) \<longrightarrow> registers s' ! 0 = registers s ! 0) \<and>
     (if exited s' then pc s' = pc s \<and> next_pc s' = next_pc s else pc s' = next_pc s)"

lemma still_refl [simp]: "still v v"
  by (simp add: still_def same_control_def)

lemma still_trans: "still u v \<Longrightarrow> still v w \<Longrightarrow> still u w"
  by (simp add: still_def same_control_def)

lemma stillD:
  assumes "still v v'"
  shows "mem_proof_enabled v' = mem_proof_enabled v" "registers (vm_state v') = registers (vm_state v)"
    "exited (vm_state v') = exited (vm_state v)" "step (vm_state v') = step (vm_state v)"
    "pc (vm_state v') = pc (vm_state v)" "next_pc (vm_state v') = next_pc (vm_state v)"
  using assms by (simp_all add: still_def same_control_def)

section \<open>The invariant inside a step\<close>

definition one_word :: "hash_fn \<Rightarrow> memory \<Rightarrow> u32 \<Rightarrow> bytes \<Rightarrow> memory \<Rightarrow> bool" where
  "one_word k m0 a pf m \<longleftrightarrow>
    (if a = 0xFFFFFFFF then mem_byte m = mem_byte m0
     else unat a mod 4 = 0 \<and> (\<forall>b. b < unat a \<or> unat a + 4 \<le> b \<longrightarrow> mem_byte m b = mem_byte m0 b) \<and> pf = branch_of k m0 a)"

definition step_inv :: "hash_fn \<Rightarrow> memory \<Rightarrow> ('o, 'w) instrumented \<Rightarrow> bool" where
  "step_inv k m0 v \<longleftrightarrow> state_ok k (vm_state v) \<and> length (mem_proof v) = 896 \<and>
     (mem_proof_enabled v \<longrightarrow> one_word k m0 (last_mem_access v) (mem_proof v) (vm_memory v))"

lemma step_inv_mem: "step_inv k m0 v \<Longrightarrow> mem_ok k (vm_memory v)"
  by (simp add: step_inv_def state_ok_def)

lemma one_word_cong: "mem_byte m' = mem_byte m \<Longrightarrow> one_word k m0 a pf m' = one_word k m0 a pf m"
  by (simp add: one_word_def)

text \<open>A change of the state that keeps contents and array sizes.\<close>

lemma step_inv_state:
  assumes "step_inv k m0 v" and "mem_ok k (memory s)" and "mem_byte (memory s) = mem_byte (vm_memory v)"
    and "length (preimage_key s) = 32" and "length (registers s) = 32"
    and "vm_state v' = s" and "mem_proof_enabled v' = mem_proof_enabled v"
    and "last_mem_access v' = last_mem_access v" and "mem_proof v' = mem_proof v"
  shows "step_inv k m0 v'"
  using assms one_word_cong [OF assms(3)] by (simp add: step_inv_def state_ok_def)

lemma aligned_mask: "unat (a AND 0xFFFFFFFC :: u32) mod 4 = 0"
proof -
  have "(a AND 0xFFFFFFFC) AND 3 = (0 :: u32)" by (simp add: and.assoc)
  then show ?thesis using and_3_mod [of "a AND 0xFFFFFFFC"] by simp
qed

lemma aligned_not_max: "unat a mod 4 = 0 \<Longrightarrow> a \<noteq> (0xFFFFFFFF :: u32)"
  by auto

section \<open>Memory operations\<close>

lemma branch_of_ok:
  assumes "mem_ok k m" and "hash32 k" and "merkle_proof k a m = Inr (pf, m')"
  shows "pf = branch_of k m a" "mem_ok k m'" "mem_byte m' = mem_byte m"
proof -
  obtain m'' where m'': "merkle_proof k a m = Inr (branch_of k m a, m'')" "mem_ok k m''" "mem_extends m m''"
    unfolding branch_of_def by (rule merkle_proof_ok [OF assms(1,2)])
  then show "pf = branch_of k m a" "mem_ok k m'" "mem_byte m' = mem_byte m"
    using assms(3) mem_extends_byte [OF mem_okD(1) [OF assms(1)] m''(3)] by auto
qed

text \<open>Operations that only refresh caches.\<close>

definition refreshes :: "hash_fn \<Rightarrow> ('o, 'w) instrumented \<Rightarrow> ('o, 'w) instrumented \<Rightarrow> bool" where
  "refreshes k v v' \<longleftrightarrow> (\<exists>m. vm_state v' = (vm_state v)\<lparr>memory := m\<rparr> \<and> mem_ok k m \<and> mem_byte m = mem_byte (vm_memory v))
     \<and> mem_proof_enabled v' = mem_proof_enabled v"

lemma refreshesE:
  assumes "refreshes k v v'"
  obtains m where "vm_state v' = (vm_state v)\<lparr>memory := m\<rparr>" "mem_ok k m" "mem_byte m = mem_byte (vm_memory v)"
    "mem_proof_enabled v' = mem_proof_enabled v"
  using assms by (auto simp: refreshes_def)

lemma refreshes_refl: "mem_ok k (vm_memory v) \<Longrightarrow> refreshes k v v"
  unfolding refreshes_def by (rule conjI, rule exI [of _ "vm_memory v"]) simp_all

lemma refreshes_still: "refreshes k v v' \<Longrightarrow> still v v'"
  by (auto simp: still_def same_control_def elim!: refreshesE)

lemma refreshes_ok: "refreshes k v v' \<Longrightarrow> state_ok k (vm_state v) \<Longrightarrow> state_ok k (vm_state v')"
  by (auto simp: state_ok_def elim!: refreshesE)

lemma track_mem_access_ok:
  assumes k: "hash32 k" and env: "env_keccak env = k" and inv: "step_inv k m0 v" and al: "unat a mod 4 = 0"
    and tr: "track_mem_access env a v = Inr v'"
  shows "step_inv k m0 v'" and "refreshes k v v'" and "mem_proof_enabled v' \<Longrightarrow> last_mem_access v' = a"
proof -
  note ok = step_inv_mem [OF inv]
  have "step_inv k m0 v' \<and> refreshes k v v' \<and> (mem_proof_enabled v' \<longrightarrow> last_mem_access v' = a)"
  proof (cases "mem_proof_enabled v \<and> last_mem_access v \<noteq> a")
    case False
    then have "v' = v" using tr by (auto simp: track_mem_access_def)
    with inv refreshes_refl [OF ok] False show ?thesis by simp
  next
    case True
    then have max: "last_mem_access v = 0xFFFFFFFF" using tr by (auto simp: track_mem_access_def split: if_splits)
    obtain pf m where track: "merkle_proof k a (vm_memory v) = Inr (pf, m)"
        "v' = set_vm_memory m (v\<lparr>last_mem_access := a, mem_proof := pf\<rparr>)"
      using tr True max env by (simp add: track_mem_access_def Let_def) force
    note b = branch_of_ok [OF ok k track(1)]
    have m0: "mem_byte (vm_memory v) = mem_byte m0"
      using inv True max by (simp add: step_inv_def one_word_def)
    have "one_word k m0 a pf m"
      using b m0 branch_of_cong [OF m0] al aligned_not_max [OF al] by (simp add: one_word_def)
    with track b inv length_branch_of [OF k] show ?thesis by (auto simp: step_inv_def state_ok_def refreshes_def)
  qed
  then show "step_inv k m0 v'" and "refreshes k v v'" and "mem_proof_enabled v' \<Longrightarrow> last_mem_access v' = a"
    by auto
qed

lemma vm_get_memory_ok:
  assumes inv: "step_inv k m0 v" and get: "vm_get_memory a v = Inr (x, v')"
  shows "step_inv k m0 v'" and "refreshes k v v'" and "x = mem_word (vm_memory v) a" and "unat a mod 4 = 0"
    and "last_mem_access v' = last_mem_access v"
proof -
  note ok = step_inv_mem [OF inv]
  obtain m where m: "get_memory a (vm_memory v) = Inr (x, m)" and v': "v' = set_vm_memory m v"
    using get by (auto simp: vm_get_memory_def)
  note l = wm.load_Inr [OF ok m]
  show "x = mem_word (vm_memory v) a" "unat a mod 4 = 0" "last_mem_access v' = last_mem_access v"
    using l v' by (simp_all add: mem_word_def)
  show "refreshes k v v'" using l v' by (auto simp: refreshes_def)
  show "step_inv k m0 v'"
    using inv l(3) one_word_cong [OF l(4)] v' by (simp add: step_inv_def state_ok_def)
qed

text \<open>A store, to the word whose access has been tracked.\<close>

lemma vm_set_memory_ok:
  assumes env: "env_keccak env = k" and inv: "step_inv k m0 v" and last: "mem_proof_enabled v \<Longrightarrow> last_mem_access v = a"
    and set: "vm_set_memory env a x v = Inr v'"
  shows "step_inv k m0 v'" and "still v v'" and "v' = set_vm_memory (vm_memory v') v"
    and "mem_byte (vm_memory v') = overwrite (unat a) (u32_be x) (mem_byte (vm_memory v))"
proof -
  note ok = step_inv_mem [OF inv]
  obtain m where m: "set_memory k a x (vm_memory v) = Inr m" and v': "v' = set_vm_memory m v"
    using set env by (auto simp: vm_set_memory_def)
  note l = wm.store_Inr [OF ok m]
  show "v' = set_vm_memory (vm_memory v') v" and "still v v'" using v' by (simp_all add: still_def same_control_def)
  show "mem_byte (vm_memory v') = overwrite (unat a) (u32_be x) (mem_byte (vm_memory v))" using l v' by simp
  have "one_word k m0 (last_mem_access v) (mem_proof v) m" if "mem_proof_enabled v"
    using inv last [OF that] that l(1,3) aligned_not_max [OF l(1)]
    by (auto simp: step_inv_def one_word_def overwrite_def)
  with inv l v' show "step_inv k m0 v'" by (simp add: step_inv_def state_ok_def)
qed

section \<open>System calls\<close>

lemma read_preimage_still:
  assumes "read_preimage env key offset v = Inr (x, v')"
  shows "vm_state v' = vm_state v" "mem_proof_enabled v' = mem_proof_enabled v"
    "last_mem_access v' = last_mem_access v" "mem_proof v' = mem_proof v"
    "length (fst x) = 32" "snd x \<le> 32"
  using assms by (auto simp: read_preimage_def Let_def split: if_splits)

lemma step_inv_cong:
  assumes "step_inv k m0 v" and "mem_ok k (vm_memory v')" and "mem_byte (vm_memory v') = mem_byte (vm_memory v)"
    and "length (preimage_key (vm_state v')) = 32" and "length (registers (vm_state v')) = 32"
    and "mem_proof_enabled v' = mem_proof_enabled v" and "last_mem_access v' = last_mem_access v" and "mem_proof v' = mem_proof v"
  shows "step_inv k m0 v'"
  using assms one_word_cong [OF assms(3)] by (simp add: step_inv_def state_ok_def)

lemma step_inv_sizes: "step_inv k m0 v \<Longrightarrow> length (preimage_key (vm_state v)) = 32 \<and> length (registers (vm_state v)) = 32"
  by (simp add: step_inv_def state_ok_def)

lemma sys_read_preimage_ok:
  assumes k: "hash32 k" and env: "env_keccak env = k" and inv: "step_inv k m0 v"
    and sys: "sys_read_preimage env a1 a2 v = Inr (v0, v')"
  shows "step_inv k m0 v' \<and> still v v'"
proof -
  let ?a = "a1 AND 0xFFFFFFFC"
  obtain v1 x v2 dat n v3 v4 val l where
    tr: "track_mem_access env ?a v = Inr v1" and get: "vm_get_memory ?a v1 = Inr (x, v2)"
    and rp: "read_preimage env (preimage_key (vm_state v2)) (preimage_offset (vm_state v2)) v2 = Inr ((dat, n), v3)"
    and set: "vm_set_memory env ?a val v3 = Inr v4"
    and v': "v' = v4\<lparr>vm_state := (vm_state v4)\<lparr>preimage_offset := preimage_offset (vm_state v4) + of_nat l\<rparr>\<rparr>"
    using sys by (auto simp: sys_read_preimage_def Let_def)
  note t = track_mem_access_ok [OF k env inv aligned_mask tr]
  note g = vm_get_memory_ok [OF t(1) get]
  note r = read_preimage_still [OF rp]
  have i3: "step_inv k m0 v3" by (rule step_inv_cong [OF g(1)]) (use r step_inv_mem [OF g(1)] step_inv_sizes [OF g(1)] in simp_all)
  have last: "last_mem_access v3 = ?a" if "mem_proof_enabled v3"
    using that r g(5) t(3) refreshes_still [OF g(2)] by (simp add: still_def)
  note w = vm_set_memory_ok [OF env i3 last set]
  have "step_inv k m0 v'" by (rule step_inv_cong [OF w(1)]) (use v' step_inv_mem [OF w(1)] step_inv_sizes [OF w(1)] in simp_all)
  moreover have "still v v'"
  proof -
    have "still v2 v3" "still v4 v'" using r v' by (simp_all add: still_def same_control_def)
    with refreshes_still [OF t(2)] refreshes_still [OF g(2)] w(2) show ?thesis by (meson still_trans)
  qed
  ultimately show ?thesis ..
qed

lemma sys_write_preimage_ok:
  assumes k: "hash32 k" and env: "env_keccak env = k" and inv: "step_inv k m0 v"
    and sys: "sys_write_preimage env a1 a2 v = Inr (v0, v')"
  shows "step_inv k m0 v' \<and> still v v'"
proof -
  let ?a = "a1 AND 0xFFFFFFFC" and ?al = "a1 AND 3"
  let ?n = "if 4 - ?al < a2 then 4 - ?al else a2"
  obtain v1 x v2 where tr: "track_mem_access env ?a v = Inr v1" and get: "vm_get_memory ?a v1 = Inr (x, v2)"
    and v': "v' = v2\<lparr>vm_state := (vm_state v2)\<lparr>preimage_key :=
        copy_from_slice (32 - unat ?n) (take (unat ?n) (drop (unat ?al) (u32_be x)))
          (copy_from_slice 0 (drop (unat ?n) (preimage_key (vm_state v2))) (preimage_key (vm_state v2))), preimage_offset := 0\<rparr>\<rparr>"
    using sys by (auto simp: sys_write_preimage_def Let_def)
  note t = track_mem_access_ok [OF k env inv aligned_mask tr]
  note g = vm_get_memory_ok [OF t(1) get]
  note sz = step_inv_sizes [OF g(1)]
  have "?al < 4" using and_3_mod [of a1] by (simp add: word_less_nat_alt)
  then have "unat (4 - ?al) = 4 - unat ?al" by (simp add: unat_sub word_le_nat_alt word_less_nat_alt)
  then have n: "unat ?n \<le> 4 - unat ?al" by (auto simp: word_less_nat_alt not_less)
  have "step_inv k m0 v'"
    by (rule step_inv_cong [OF g(1)]) (use v' step_inv_mem [OF g(1)] sz n in simp_all)
  moreover have "still v2 v'" using v' by (simp add: still_def same_control_def)
  ultimately show ?thesis
    using refreshes_still [OF t(2)] refreshes_still [OF g(2)] still_trans by blast
qed

lemma sys_read_ok:
  assumes "hash32 k" and "env_keccak env = k" and "step_inv k m0 v" and "sys_read env a0 a1 a2 v = Inr (r, v')"
  shows "step_inv k m0 v' \<and> still v v'"
  using assms sys_read_preimage_ok [OF assms(1-3)]
  by (auto simp: sys_read_def split: option.splits Fd.splits)

lemma io_copy_result:
  assumes ok: "mem_ok k m" and io: "io_copy wr (reader_new m a c) w = Inr (rd, w')"
  obtains lp where "rd_memory rd = m\<lparr>last_page := lp\<rparr>" and "mem_ok k (m\<lparr>last_page := lp\<rparr>)"
proof -
  have "c = 0 \<or> \<not> wraps_into_page a c" using io_copy_panic [of c a wr m w] io by auto
  from io_copy_ok [OF ok this, of wr] io that show ?thesis by (auto simp: reader_new_def)
qed

lemma read_to_end_result:
  assumes ok: "mem_ok k m" and rd: "read_to_end (unat c) [] (reader_new m a c) = Inr (bs, rd)"
  obtains lp where "rd_memory rd = m\<lparr>last_page := lp\<rparr>" and "mem_ok k (m\<lparr>last_page := lp\<rparr>)" and "bs = mem_range m a (unat c)"
proof -
  have "c = 0 \<or> \<not> wraps_into_page a c" using read_to_end_panic [of c a "unat c" "[]" m] rd by auto
  from read_to_end_ok [OF ok this, of "[]" "unat c"] rd that show ?thesis by (auto simp: reader_new_def)
qed

lemma sys_write_ok:
  assumes k: "hash32 k" and env: "env_keccak env = k" and inv: "step_inv k m0 v"
    and sys: "sys_write env a0 a1 a2 v = Inr (r, v')"
  shows "step_inv k m0 v' \<and> still v v'"
proof -
  note ok = step_inv_mem [OF inv] and sz = step_inv_sizes [OF inv]
  have out: "step_inv k m0 v' \<and> still v v'"
    if io: "io_copy wr (reader_new (vm_memory v) a1 a2) w = Inr (rd, w')" and u: "v' = set_vm_memory (rd_memory rd) u"
      "vm_state u = vm_state v" "mem_proof_enabled u = mem_proof_enabled v" "last_mem_access u = last_mem_access v"
      "mem_proof u = mem_proof v" for wr w w' rd u
  proof -
    obtain lp where "rd_memory rd = (vm_memory v)\<lparr>last_page := lp\<rparr>" "mem_ok k ((vm_memory v)\<lparr>last_page := lp\<rparr>)"
      by (rule io_copy_result [OF ok io])
    then show ?thesis
      using u sz by (intro conjI step_inv_cong [OF inv]) (simp_all add: mem_byte_fields still_def same_control_def)
  qed
  have hint: "step_inv k m0 v' \<and> still v v'" if hw: "sys_write_hint env a1 a2 v = Inr v'"
  proof -
    obtain bs rd orc lh where rd: "read_to_end (unat a2) [] (reader_new (vm_memory v) a1 a2) = Inr (bs, rd)"
      and v': "v' = v\<lparr>preimage_oracle := orc, vm_state := (vm_state v)\<lparr>memory := rd_memory rd, last_hint := lh\<rparr>\<rparr>"
      using hw by (auto simp: sys_write_hint_def)
    obtain lp where "rd_memory rd = (vm_memory v)\<lparr>last_page := lp\<rparr>" "mem_ok k ((vm_memory v)\<lparr>last_page := lp\<rparr>)"
      by (rule read_to_end_result [OF ok rd])
    with v' show ?thesis
      using sz by (intro conjI step_inv_cong [OF inv]) (simp_all add: mem_byte_fields still_def same_control_def)
  qed
  show ?thesis
  proof (cases "Fd_try_from (ucast a0)")
    case None
    with sys inv show ?thesis by (auto simp: sys_write_def)
  next
    case (Some fd)
    show ?thesis
    proof (cases fd)
      case Stdout
      then obtain rd w where "io_copy (env_write env) (reader_new (vm_memory v) a1 a2) (std_out v) = Inr (rd, w)"
          "v' = set_vm_memory (rd_memory rd) (v\<lparr>std_out := w\<rparr>)"
        using sys Some by (auto simp: sys_write_def)
      then show ?thesis by (rule out) simp_all
    next
      case StdErr
      then obtain rd w where "io_copy (env_write env) (reader_new (vm_memory v) a1 a2) (std_err v) = Inr (rd, w)"
          "v' = set_vm_memory (rd_memory rd) (v\<lparr>std_err := w\<rparr>)"
        using sys Some by (auto simp: sys_write_def)
      then show ?thesis by (rule out) simp_all
    qed (use sys Some inv hint sys_write_preimage_ok [OF k env inv] in \<open>auto simp: sys_write_def\<close>)
  qed
qed

lemma syscall_return_ok:
  assumes "step_inv k m0 v" and "still v0 v" and "\<not> exited (vm_state v0)"
  shows "step_inv k m0 (v\<lparr>vm_state := syscall_return x y (vm_state v)\<rparr>)"
    and "advances (vm_state v0) (syscall_return x y (vm_state v))"
  using assms by (auto simp: step_inv_def state_ok_def syscall_return_def still_def same_control_def advances_def)

text \<open>Every system call but the exit returns to the program.\<close>

lemma syscall_returns:
  assumes k: "hash32 k" and env: "env_keccak env = k" and inv: "step_inv k m0 v"
    and sys: "handle_syscall env v = Inr v'" and noexit: "Syscall_try_from (registers (vm_state v) ! 2) \<noteq> Some ExitGroup"
  obtains x y u where "step_inv k m0 u" and "still v u" and "v' = u\<lparr>vm_state := syscall_return x y (vm_state u)\<rparr>"
proof (cases "Syscall_try_from (registers (vm_state v) ! 2)")
  case None
  with sys that [of v 0 0] inv show ?thesis by (simp add: handle_syscall_def Let_def)
next
  case (Some sc)
  note d = handle_syscall_def Let_def
  show ?thesis
  proof (cases sc)
    case Mmap
    obtain x s1 where x: "sys_mmap (registers (vm_state v) ! 4) (registers (vm_state v) ! 5) (vm_state v) = (x, s1)"
      by (rule prod.exhaust)
    then have "step_inv k m0 (v\<lparr>vm_state := s1\<rparr>) \<and> still v (v\<lparr>vm_state := s1\<rparr>)"
      using inv by (auto simp: sys_mmap_def Let_def step_inv_def state_ok_def still_def same_control_def split: if_splits)
    with Mmap sys Some x show ?thesis by (intro that [of "v\<lparr>vm_state := s1\<rparr>" x 0]) (auto simp: d)
  next
    case ExitGroup
    with noexit Some show ?thesis by simp
  next
    case Read
    then obtain x y u where u: "sys_read env (registers (vm_state v) ! 4) (registers (vm_state v) ! 5) (registers (vm_state v) ! 6) v
        = Inr ((x, y), u)" "v' = u\<lparr>vm_state := syscall_return x y (vm_state u)\<rparr>"
      using sys Some by (auto simp: d)
    with sys_read_ok [OF k env inv u(1)] show ?thesis by (intro that [of u x y]) simp_all
  next
    case Write
    then obtain x y u where u: "sys_write env (registers (vm_state v) ! 4) (registers (vm_state v) ! 5) (registers (vm_state v) ! 6) v
        = Inr ((x, y), u)" "v' = u\<lparr>vm_state := syscall_return x y (vm_state u)\<rparr>"
      using sys Some by (auto simp: d)
    with sys_write_ok [OF k env inv u(1)] show ?thesis by (intro that [of u x y]) simp_all
  qed (use sys Some that [of v] inv in \<open>auto simp: d split: prod.splits\<close>)
qed

lemma handle_syscall_ok:
  assumes k: "hash32 k" and env: "env_keccak env = k" and inv: "step_inv k m0 v" and run: "\<not> exited (vm_state v)"
    and sys: "handle_syscall env v = Inr v'"
  shows "step_inv k m0 v' \<and> advances (vm_state v) (vm_state v') \<and> mem_proof_enabled v' = mem_proof_enabled v"
proof (cases "Syscall_try_from (registers (vm_state v) ! 2) = Some ExitGroup")
  case True
  with sys inv show ?thesis
    by (auto simp: handle_syscall_def Let_def step_inv_def state_ok_def advances_def)
next
  case False
  obtain x y u where "step_inv k m0 u" "still v u" "v' = u\<lparr>vm_state := syscall_return x y (vm_state u)\<rparr>"
    by (rule syscall_returns [OF k env inv sys False])
  with syscall_return_ok [OF this(1,2) run] show ?thesis by (simp add: still_def)
qed

section \<open>Handlers\<close>

lemma on_state_ok:
  assumes inv: "step_inv k m0 v" and on: "on_state f v = Inr v'"
    and f: "\<And>s'. f (vm_state v) = Inr s' \<Longrightarrow> advances (vm_state v) s' \<and> memory s' = vm_memory v \<and> preimage_key s' = preimage_key (vm_state v)"
  shows "step_inv k m0 v' \<and> advances (vm_state v) (vm_state v') \<and> mem_proof_enabled v' = mem_proof_enabled v"
proof -
  obtain s' where s': "f (vm_state v) = Inr s'" "v' = v\<lparr>vm_state := s'\<rparr>" using on by (auto simp: on_state_def)
  from f [OF s'(1)] inv s'(2) show ?thesis by (auto simp: step_inv_def state_ok_def advances_def)
qed

lemma handlers_advance:
  assumes "\<not> exited s"
  shows "handle_jump link dest s = Inr s' \<Longrightarrow> advances s s' \<and> memory s' = memory s \<and> preimage_key s' = preimage_key s"
    and "handle_branch opcode instruction rt_reg rs s = Inr s' \<Longrightarrow> advances s s' \<and> memory s' = memory s \<and> preimage_key s' = preimage_key s"
    and "handle_rd rd_reg val c s = Inr s' \<Longrightarrow> advances s s' \<and> memory s' = memory s \<and> preimage_key s' = preimage_key s"
    and "handle_hi_lo func rs rt rd_reg s = Inr s' \<Longrightarrow> advances s s' \<and> memory s' = memory s \<and> preimage_key s' = preimage_key s"
proof -
  have nz: "unat r \<noteq> 0" if "r \<noteq> 0" for r :: u32 using that by (simp add: unat_eq_zero)
  show "handle_jump link dest s = Inr s' \<Longrightarrow> advances s s' \<and> memory s' = memory s \<and> preimage_key s' = preimage_key s"
    using assms nz by (auto simp: handle_jump_def Let_def advances_def split: if_splits)
  show "handle_branch opcode instruction rt_reg rs s = Inr s' \<Longrightarrow> advances s s' \<and> memory s' = memory s \<and> preimage_key s' = preimage_key s"
    using assms unfolding handle_branch_def Let_def by (auto simp: advances_def split: if_split_asm)
  show "handle_rd rd_reg val c s = Inr s' \<Longrightarrow> advances s s' \<and> memory s' = memory s \<and> preimage_key s' = preimage_key s"
    using assms nz by (auto simp: handle_rd_def Let_def advances_def split: if_splits)
  show "handle_hi_lo func rs rt rd_reg s = Inr s' \<Longrightarrow> advances s s' \<and> memory s' = memory s \<and> preimage_key s' = preimage_key s"
    using assms nz by (auto simp: handle_hi_lo_def hi_lo_result_def Let_def advances_def split: if_splits)
qed

section \<open>Steps\<close>

lemma fetch_memory_ok:
  assumes k: "hash32 k" and env: "env_keccak env = k" and inv: "step_inv k m0 v"
    and fm: "fetch_memory env instruction rs rd_reg v = Inr ((rs', x, store_address, rd'), v')"
  shows "step_inv k m0 v'" and "refreshes k v v'"
    and "store_address \<noteq> 0xFFFFFFFF \<Longrightarrow> mem_proof_enabled v' \<Longrightarrow> last_mem_access v' = store_address"
    and "store_address \<noteq> 0xFFFFFFFF \<Longrightarrow> unat store_address mod 4 = 0"
proof -
  have "step_inv k m0 v' \<and> refreshes k v v'
      \<and> (store_address \<noteq> 0xFFFFFFFF \<longrightarrow> unat store_address mod 4 = 0 \<and> (mem_proof_enabled v' \<longrightarrow> last_mem_access v' = store_address))"
  proof (cases "0x20 \<le> (drop_bit 26 instruction :: u32)")
    case False
    with fm inv refreshes_refl [OF step_inv_mem [OF inv]] show ?thesis by (auto simp: fetch_memory_def Let_def)
  next
    case True
    let ?a = "(rs + sign_extend (instruction AND 0xFFFF) 16) AND 0xFFFFFFFC"
    obtain v1 where tr: "track_mem_access env ?a v = Inr v1" and get: "vm_get_memory ?a v1 = Inr (x, v')"
      and st: "store_address = ?a \<or> store_address = 0xFFFFFFFF"
      using fm True by (auto simp: fetch_memory_def Let_def split: if_splits)
    note t = track_mem_access_ok [OF k env inv aligned_mask tr]
    note g = vm_get_memory_ok [OF t(1) get]
    have "refreshes k v v'" using t(2) g(2) unfolding refreshes_def by auto
    moreover have "last_mem_access v' = ?a" if "mem_proof_enabled v'"
      using that g(5) t(3) refreshes_still [OF g(2)] by (simp add: still_def)
    ultimately show ?thesis using g(1) st aligned_mask [of "rs + sign_extend (instruction AND 0xFFFF) 16"] by auto
  qed
  then show "step_inv k m0 v'" and "refreshes k v v'"
    and "store_address \<noteq> 0xFFFFFFFF \<Longrightarrow> mem_proof_enabled v' \<Longrightarrow> last_mem_access v' = store_address"
    and "store_address \<noteq> 0xFFFFFFFF \<Longrightarrow> unat store_address mod 4 = 0"
    by auto
qed

lemma write_back_ok:
  assumes k: "hash32 k" and env: "env_keccak env = k" and inv: "step_inv k m0 v" and run: "\<not> exited (vm_state v)"
    and al: "store_address \<noteq> 0xFFFFFFFF \<Longrightarrow> unat store_address mod 4 = 0"
    and wb: "write_back env instruction store_address rd_reg val v = Inr v'"
  shows "step_inv k m0 v' \<and> advances (vm_state v) (vm_state v') \<and> mem_proof_enabled v' = mem_proof_enabled v"
proof -
  let ?rt = "drop_bit 16 instruction AND 0x1F"
  define v1 where "v1 = (if drop_bit 26 instruction = 0x38 \<and> ?rt \<noteq> 0
      then v\<lparr>vm_state := (vm_state v)\<lparr>registers := (registers (vm_state v))[unat ?rt := 1]\<rparr>\<rparr> else v)"
  have nz: "unat ?rt \<noteq> 0" if "?rt \<noteq> 0" using that by (simp add: unat_eq_zero)
  have i1: "step_inv k m0 v1" using inv by (auto simp: v1_def step_inv_def state_ok_def)
  have r1: "length (registers (vm_state v1)) = length (registers (vm_state v))" "registers (vm_state v1) ! 0 = registers (vm_state v) ! 0"
    "step (vm_state v1) = step (vm_state v)" "pc (vm_state v1) = pc (vm_state v)" "next_pc (vm_state v1) = next_pc (vm_state v)"
    "exited (vm_state v1) = exited (vm_state v)" "mem_proof_enabled v1 = mem_proof_enabled v"
    using nz by (auto simp: v1_def)
  obtain v2 where wr: "(if store_address \<noteq> 0xFFFFFFFF then
        rbind (track_mem_access env store_address v1) (\<lambda>v2. vm_set_memory env store_address val v2) else Inr v1) = Inr v2"
    and rd: "on_state (handle_rd rd_reg val True) v2 = Inr v'"
    using wb unfolding write_back_def Let_def v1_def [symmetric] by (elim rbind_InrE)
  have "step_inv k m0 v2 \<and> still v1 v2"
  proof (cases "store_address = 0xFFFFFFFF")
    case True
    with wr i1 show ?thesis by simp
  next
    case False
    then obtain v3 where tr: "track_mem_access env store_address v1 = Inr v3" and st: "vm_set_memory env store_address val v3 = Inr v2"
      using wr by auto
    note t = track_mem_access_ok [OF k env i1 al [OF False] tr]
    note w = vm_set_memory_ok [OF env t(1,3) st]
    show ?thesis using w(1,2) still_trans [OF refreshes_still [OF t(2)]] by blast
  qed
  then have i2: "step_inv k m0 v2" and s2: "still v1 v2" by auto
  have run2: "\<not> exited (vm_state v2)" using run r1 stillD(3) [OF s2] by simp
  have "step_inv k m0 v' \<and> advances (vm_state v2) (vm_state v') \<and> mem_proof_enabled v' = mem_proof_enabled v2"
    by (rule on_state_ok [OF i2 rd]) (rule handlers_advance(3) [OF run2])
  with r1 stillD [OF s2] show ?thesis by (auto simp: advances_def)
qed

lemma dispatch_ok:
  assumes k: "hash32 k" and env: "env_keccak env = k" and inv: "step_inv k m0 v" and run: "\<not> exited (vm_state v)"
    and al: "store_address \<noteq> 0xFFFFFFFF \<Longrightarrow> unat store_address mod 4 = 0"
    and d: "dispatch env instruction rs rt store_address rd_reg val v = Inr v'"
  shows "step_inv k m0 v' \<and> advances (vm_state v) (vm_state v') \<and> mem_proof_enabled v' = mem_proof_enabled v"
  using d write_back_ok [OF k env inv run al] handle_syscall_ok [OF k env inv run]
    on_state_ok [OF inv _ handlers_advance(1) [OF run]] on_state_ok [OF inv _ handlers_advance(3) [OF run]]
    on_state_ok [OF inv _ handlers_advance(4) [OF run]]
  unfolding dispatch_def Let_def by (auto split: if_split_asm)

lemma inner_step_exited: "exited (vm_state v) \<Longrightarrow> inner_step env v = Inr v"
  by (simp add: inner_step_def)

lemma step_instruction_ok:
  assumes k: "hash32 k" and env: "env_keccak env = k" and inv: "step_inv k m0 v" and run: "\<not> exited (vm_state v)"
    and st: "step_instruction env instruction v = Inr v'"
  shows "step_inv k m0 v' \<and> advances (vm_state v) (vm_state v') \<and> mem_proof_enabled v' = mem_proof_enabled v"
proof -
  have "step_inv k m0 v' \<and> advances (vm_state v) (vm_state v') \<and> mem_proof_enabled v' = mem_proof_enabled v"
    if fm: "fetch_memory env instruction rs rd_reg v = Inr ((rs', x, sa, rd'), v2)"
      and d: "dispatch env instruction rs' rt sa rd' val v2 = Inr v'" for rs rd_reg rs' x sa rd' v2 rt val
  proof -
    note f = fetch_memory_ok [OF k env inv fm]
    note s = stillD [OF refreshes_still [OF f(2)]]
    from dispatch_ok [OF k env f(1) _ f(4) d] run s show ?thesis by (auto simp: advances_def)
  qed
  with st show ?thesis
    using on_state_ok [OF inv _ handlers_advance(1) [OF run]] on_state_ok [OF inv _ handlers_advance(2) [OF run]]
    unfolding step_instruction_def Let_def by (auto split: if_split_asm prod.splits)
qed

lemma inner_step_ok:
  assumes k: "hash32 k" and env: "env_keccak env = k" and inv: "step_inv k m0 v" and run: "\<not> exited (vm_state v)"
    and st: "inner_step env v = Inr v'"
  shows "step_inv k m0 v'" and "advances ((vm_state v)\<lparr>step := step (vm_state v) + 1\<rparr>) (vm_state v')"
    and "mem_proof_enabled v' = mem_proof_enabled v"
proof -
  let ?v0 = "v\<lparr>vm_state := (vm_state v)\<lparr>step := step (vm_state v) + 1\<rparr>\<rparr>"
  have i0: "step_inv k m0 ?v0" using inv by (simp add: step_inv_def state_ok_def)
  obtain instruction v1 where get: "vm_get_memory (pc (vm_state ?v0)) ?v0 = Inr (instruction, v1)"
    and rest: "step_instruction env instruction v1 = Inr v'"
    using st run by (auto simp: inner_step_def)
  note g = vm_get_memory_ok [OF i0 get]
  note s = stillD [OF refreshes_still [OF g(2)]]
  have run1: "\<not> exited (vm_state v1)" using run s by simp
  from step_instruction_ok [OF k env g(1) run1 rest] s
  show "step_inv k m0 v'" and "advances ((vm_state v)\<lparr>step := step (vm_state v) + 1\<rparr>) (vm_state v')"
    and "mem_proof_enabled v' = mem_proof_enabled v"
    by (auto simp: advances_def)
qed

lemma inner_step_aligned:
  assumes "\<not> exited (vm_state v)" and "inner_step env v = Inr v'"
  shows "unat (pc (vm_state v)) mod 4 = 0"
proof (rule ccontr)
  assume "unat (pc (vm_state v)) mod 4 \<noteq> 0"
  with assms show False by (simp add: inner_step_def vm_get_memory_def get_memory_unaligned)
qed

end
