(* ===== verification/Demo.thy ===== *)
theory Demo
  imports Mips_Step
begin

text \<open>
  A small concrete instance of the parameters, used to show that the hypotheses of the properties
  can hold: a digest of 32 bytes, an oracle that knows one preimage and accepts hints, and a
  writer that keeps what is written.
\<close>

definition demo_hash :: hash_fn where
  "demo_hash xs = take 32 (rev xs @ replicate 32 7)"

definition demo_env :: "(bytes list, bytes) env" where
  "demo_env = \<lparr>env_keccak = demo_hash, env_get = (\<lambda>o1 key. Inr ([1, 2, 3], o1)),
     env_hint = (\<lambda>o1 h. Inr (o1 @ [h])), env_write = (\<lambda>w bs. Inr (w @ bs))\<rparr>"

definition demo_state :: state where
  "demo_state = state_default\<lparr>next_pc := 4\<rparr>"

definition demo_vm :: "(bytes list, bytes) instrumented" where
  "demo_vm = instrumented_new demo_state [] [] []"

lemma demo_hash32: "hash32 demo_hash"
  by (auto simp: hash32_def demo_hash_def)

lemma demo_keccak: "env_keccak demo_env = demo_hash"
  by (simp add: demo_env_def)

lemma demo_state_ok: "state_ok demo_hash demo_state"
  using state_default_ok [of demo_hash] by (simp add: demo_state_def state_ok_def)

lemma demo_vm_facts:
  "state_ok demo_hash (vm_state demo_vm)" "\<not> exited (vm_state demo_vm)" "length (mem_proof demo_vm) = 896"
  "unat (pc (vm_state demo_vm)) mod 4 = 0" "vm_memory demo_vm = memory_default"
  using demo_state_ok by (simp_all add: demo_vm_def instrumented_new_def demo_state_def state_default_def)

lemma demo_nop: "mem_word (vm_memory demo_vm) (pc (vm_state demo_vm)) = 0"
  by (simp add: demo_vm_facts mem_word_def from_be_def upt_rec)

text \<open>A machine with a key that is not cached, for the preimage calls.\<close>

definition demo_key_vm :: "(bytes list, bytes) instrumented" where
  "demo_key_vm = demo_vm\<lparr>vm_state := demo_state\<lparr>preimage_key := replicate 32 9\<rparr>\<rparr>"

lemma demo_key_inv: "step_inv demo_hash memory_default demo_key_vm"
  using demo_vm_facts by (simp add: demo_key_vm_def step_inv_def state_ok_def demo_vm_def instrumented_new_def demo_state_def state_default_def)

lemma demo_key_facts:
  "vm_memory demo_key_vm = memory_default" "mem_proof_enabled demo_key_vm = False" "preimage_key (vm_state demo_key_vm) = replicate 32 9"
  "preimage_offset (vm_state demo_key_vm) = 0" "last_preimage_key demo_key_vm = replicate 32 0"
  by (simp_all add: demo_key_vm_def demo_vm_def instrumented_new_def demo_state_def state_default_def)

lemma demo_get: "\<exists>m. get_memory 0 memory_default = Inr (0, m) \<and> mem_ok k m"
  by (rule get_memory_ok [OF memory_default_ok, of 0]) (auto simp: mem_word_def from_be_def upt_rec)

lemma demo_write_preimage: "\<exists>v'. sys_write_preimage demo_env 0 4 demo_key_vm = Inr (4, v')"
  using demo_get [of demo_hash] by (auto simp: sys_write_preimage_def track_mem_access_def vm_get_memory_def demo_key_facts Let_def)

lemma demo_read_preimage: "\<exists>v0 v'. sys_read_preimage demo_env 0 4 demo_key_vm = Inr (v0, v')"
proof -
  obtain m where m: "get_memory 0 memory_default = Inr (0, m)" "mem_ok demo_hash m" using demo_get by blast
  have "\<exists>m'. set_memory demo_hash 0 x m = Inr m'" for x by (rule set_memory_ok [OF m(2), of 0]) auto
  moreover have "(replicate 32 9 :: bytes) \<noteq> replicate 32 0" by simp
  ultimately show ?thesis
    using m(1) by (auto simp: sys_read_preimage_def track_mem_access_def vm_get_memory_def vm_set_memory_def read_preimage_def
        demo_key_facts demo_env_def Let_def split: prod.splits)
qed

end
