(* ===== verification/Merkle_Binding.thy ===== *)
theory Merkle_Binding
  imports Demo
begin

text \<open>
  What the Merkle root and the witness of a state commit to. The hash is a parameter, so collision
  resistance is the hypothesis that it is injective on the finitely many strings that the
  comparison hashes: the inner nodes of the trees, or the nodes on the two branches compared.
  Under it, a root determines the contents of the memory, a branch that checks against a root is
  the branch that \<open>merkle_proof\<close> returns, and an encoded state determines the state.
\<close>

section \<open>The strings that are hashed\<close>

text \<open>The inputs of the hash in a subtree, and in the check of a branch.\<close>

primrec tree_inputs :: "hash_fn \<Rightarrow> (nat \<Rightarrow> bytes) \<Rightarrow> nat \<Rightarrow> nat \<Rightarrow> bytes set" where
  "tree_inputs k leaf 0 j = {}"
| "tree_inputs k leaf (Suc h) j = insert (subtree k leaf h (2 * j) @ subtree k leaf h (Suc (2 * j)))
     (tree_inputs k leaf h (2 * j) \<union> tree_inputs k leaf h (Suc (2 * j)))"

fun branch_inputs :: "hash_fn \<Rightarrow> bytes \<Rightarrow> nat \<Rightarrow> bytes list \<Rightarrow> bytes set" where
  "branch_inputs k node idx [] = {}"
| "branch_inputs k node idx (s # ss) =
    (let x = if odd idx then s @ node else node @ s
     in insert x (branch_inputs k (k x) (idx div 2) ss))"

section \<open>Trees\<close>

lemma subtree_inject:
  assumes "subtree k f h j = subtree k g h j" and "inj_on k (tree_inputs k f h j \<union> tree_inputs k g h j)"
    and "hash32 k" and "\<And>i. length (f i) = 32" and "\<And>i. length (g i) = 32"
    and "j * 2 ^ h \<le> i" and "i < Suc j * 2 ^ h"
  shows "f i = g i"
  using assms(1,2,6,7)
proof (induction h arbitrary: j)
  case 0
  then have "i = j" by simp
  with 0 show ?case by simp
next
  case (Suc h)
  note len = length_subtree [OF assms(3,4)] length_subtree [OF assms(3,5)]
  let ?x = "\<lambda>f. subtree k f h (2 * j) @ subtree k f h (Suc (2 * j))"
  have "k (?x f) = k (?x g)" using Suc.prems(1) by simp
  then have "?x f = ?x g" by (rule inj_onD [OF Suc.prems(2)]) simp_all
  then have eq: "subtree k f h (2 * j) = subtree k g h (2 * j)" "subtree k f h (Suc (2 * j)) = subtree k g h (Suc (2 * j))"
    using len by simp_all
  have inj: "inj_on k (tree_inputs k f h (2 * j) \<union> tree_inputs k g h (2 * j))"
      "inj_on k (tree_inputs k f h (Suc (2 * j)) \<union> tree_inputs k g h (Suc (2 * j)))"
    by (rule inj_on_subset [OF Suc.prems(2)], auto)+
  show ?case
  proof (cases "i < Suc (2 * j) * 2 ^ h")
    case True
    with Suc.prems(3) show ?thesis by (intro Suc.IH [OF eq(1) inj(1)]) (simp_all add: algebra_simps)
  next
    case False
    with Suc.prems(4) show ?thesis by (intro Suc.IH [OF eq(2) inj(2)]) (simp_all add: algebra_simps)
  qed
qed

lemma verify_branch_inject:
  assumes "length ss = length ts" and "verify_branch k x idx ss = verify_branch k y idx ts"
    and "inj_on k (branch_inputs k x idx ss \<union> branch_inputs k y idx ts)" and "hash32 k"
    and "length x = 32" and "length y = 32"
    and "\<And>s. s \<in> set ss \<Longrightarrow> length s = 32" and "\<And>s. s \<in> set ts \<Longrightarrow> length s = 32"
  shows "x = y \<and> ss = ts"
  using assms
proof (induction ss ts arbitrary: x y idx rule: list_induct2)
  case (Cons s ss t ts)
  let ?x = "if odd idx then s @ x else x @ s" and ?y = "if odd idx then t @ y else y @ t"
  have "k ?x = k ?y \<and> ss = ts"
  proof (rule Cons.IH)
    show "verify_branch k (k ?x) (idx div 2) ss = verify_branch k (k ?y) (idx div 2) ts"
      using Cons.prems(1) by (cases "odd idx") (simp_all add: keccak_concat_hashes_def concat_fixed_def)
    show "inj_on k (branch_inputs k (k ?x) (idx div 2) ss \<union> branch_inputs k (k ?y) (idx div 2) ts)"
      by (rule inj_on_subset [OF Cons.prems(2)]) (auto simp: Let_def)
    show "length (k ?x) = 32" "length (k ?y) = 32" using Cons.prems(3) by (simp_all add: hash32_def)
  qed (use Cons.prems in simp_all)
  moreover have "?x \<in> branch_inputs k x idx (s # ss)" "?y \<in> branch_inputs k y idx (t # ts)" by (simp_all add: Let_def)
  ultimately have "?x = ?y" "ss = ts" using Cons.prems(2) by (auto dest: inj_onD)
  with Cons.prems(4-7) show ?case by (cases "odd idx") auto
qed simp

section \<open>Memories\<close>

text \<open>The strings hashed for the root of a memory, and in the check of a proof.\<close>

definition memory_inputs :: "hash_fn \<Rightarrow> memory \<Rightarrow> bytes set" where
  "memory_inputs k m = tree_inputs k (mem_leaf m) 27 0"

definition proof_inputs :: "hash_fn \<Rightarrow> u32 \<Rightarrow> bytes \<Rightarrow> bytes set" where
  "proof_inputs k a pf = branch_inputs k (hd (proof_nodes pf)) (unat a div 32) (tl (proof_nodes pf))"

lemma concat_chunks: "concat (map (\<lambda>i. take n (drop (n * i) xs)) [0..<c]) = take (n * c) xs"
proof (induction c)
  case (Suc c)
  have "take (n * c) xs @ take n (drop (n * c) xs) = take (n * c + n) xs" by (simp add: take_add)
  with Suc show ?case by (simp add: algebra_simps)
qed simp

lemma concat_proof_nodes: "length pf = 896 \<Longrightarrow> concat (proof_nodes pf) = pf"
  using concat_chunks [of 32 pf 28] by (simp add: proof_nodes_def del: upt_rec_numeral)

lemma proof_nodes_shape:
  assumes "length pf = 896"
  obtains x ss where "proof_nodes pf = x # ss" "length x = 32" "length ss = 27" "\<forall>s \<in> set ss. length s = 32"
proof -
  have len: "length (proof_nodes pf) = 28" by (simp add: proof_nodes_def del: upt_rec_numeral)
  then obtain x ss where p: "proof_nodes pf = x # ss" by (cases "proof_nodes pf") auto
  have "length s = 32" if "s \<in> set (proof_nodes pf)" for s
    using that assms by (auto simp: proof_nodes_def simp del: upt_rec_numeral)
  with p len show ?thesis by (intro that [of x ss]) auto
qed

lemma proof_root_inject:
  assumes "length pf = 896" and "length pf' = 896" and "hash32 k" and "proof_root k a pf = proof_root k a pf'"
    and "inj_on k (proof_inputs k a pf \<union> proof_inputs k a pf')"
  shows "pf = pf'"
proof -
  obtain x ss where x: "proof_nodes pf = x # ss" "length x = 32" "length ss = 27" "\<forall>s \<in> set ss. length s = 32"
    by (rule proof_nodes_shape [OF assms(1)])
  obtain y ts where y: "proof_nodes pf' = y # ts" "length y = 32" "length ts = 27" "\<forall>s \<in> set ts. length s = 32"
    by (rule proof_nodes_shape [OF assms(2)])
  have "x = y \<and> ss = ts"
    using assms(3-5) x y by (intro verify_branch_inject [where idx = "unat a div 32" and k = k])
      (simp_all add: proof_root_def proof_inputs_def)
  with x(1) y(1) concat_proof_nodes [OF assms(1)] concat_proof_nodes [OF assms(2)] show ?thesis by simp
qed

lemma merkle_root_value:
  assumes "mem_ok k m"
  shows "map_sum id fst (merkle_root k m) = Inr (subtree k (mem_leaf m) 27 0)"
  by (rule merkle_root_ok [OF assms]) simp

lemma mem_leaves_inject:
  assumes "\<And>j. j < 134217728 \<Longrightarrow> mem_leaf m j = mem_leaf m' j" and "b < 4294967296"
  shows "mem_byte m b = mem_byte m' b"
proof -
  have "b div 32 < 134217728" using assms(2) by simp
  from assms(1) [OF this] nth_mem_leaf [of "b mod 32" m "b div 32"] nth_mem_leaf [of "b mod 32" m' "b div 32"]
  show ?thesis by simp
qed

lemma root_determines_bytes:
  assumes "subtree k (mem_leaf m) 27 0 = subtree k (mem_leaf m') 27 0" and "hash32 k"
    and "inj_on k (memory_inputs k m \<union> memory_inputs k m')" and "b < 4294967296"
  shows "mem_byte m b = mem_byte m' b"
proof (rule mem_leaves_inject [OF _ assms(4)])
  fix j :: nat
  assume "j < 134217728"
  then have "0 * 2 ^ 27 \<le> j" "j < Suc 0 * 2 ^ 27" by simp_all
  with subtree_inject [OF assms(1) _ assms(2)] assms(3) show "mem_leaf m j = mem_leaf m' j"
    unfolding memory_inputs_def by simp
qed


section \<open>A concrete instance\<close>

lemma demo_hash_zero: "demo_hash (replicate 64 0) = zero32"
  by (simp add: demo_hash_def zero32_def)

lemma demo_default_leaf: "mem_leaf memory_default = (\<lambda>_. zero32)"
proof
  show "mem_leaf memory_default j = zero32" for j
    by (rule nth_equalityI) (simp_all add: zero32_def nth_mem_leaf)
qed

lemma zero32_append: "zero32 @ zero32 = replicate 64 0"
  by (simp add: zero32_def replicate_add [symmetric])

lemma demo_zero_subtree: "subtree demo_hash (\<lambda>_. zero32) h j = zero32"
  by (induction h arbitrary: j) (simp_all add: zero32_append demo_hash_zero)

lemma demo_zero_inputs: "tree_inputs demo_hash (\<lambda>_. zero32) h j \<subseteq> {replicate 64 0}"
  by (induction h arbitrary: j) (auto simp: demo_zero_subtree zero32_append)

lemma demo_default_inj: "inj_on demo_hash (memory_inputs demo_hash memory_default)"
  unfolding memory_inputs_def demo_default_leaf by (rule inj_on_subset [OF _ demo_zero_inputs]) simp

lemma demo_zero_branch:
  "verify_branch demo_hash zero32 i (replicate n zero32) = zero32"
  "branch_inputs demo_hash zero32 i (replicate n zero32) \<subseteq> {replicate 64 0}"
  by (induction n arbitrary: i) (auto simp: keccak_concat_hashes_def concat_fixed_def zero32_append demo_hash_zero Let_def)

lemma demo_zero_nodes: "proof_nodes (replicate 896 0) = zero32 # replicate 27 zero32"
  by (rule nth_equalityI) (simp_all add: proof_nodes_def zero32_def nth_Cons' del: upt_rec_numeral)

lemma demo_zero_proof_inj: "inj_on demo_hash (proof_inputs demo_hash a (replicate 896 0))"
proof (rule inj_on_subset)
  show "proof_inputs demo_hash a (replicate 896 0) \<subseteq> {replicate 64 0}"
    unfolding proof_inputs_def demo_zero_nodes list.sel by (rule demo_zero_branch(2))
qed simp

lemma demo_default_branch: "branch_of demo_hash memory_default a = replicate 896 0"
proof -
  have "siblings demo_hash (\<lambda>_. zero32) 0 27 j = replicate 27 zero32" for j
    by (rule nth_equalityI) (simp_all add: siblings_def demo_zero_subtree del: upt_rec_numeral)
  then have "proof_nodes (branch_of demo_hash memory_default a) = proof_nodes (replicate 896 0)"
    unfolding proof_nodes_branch [OF demo_hash32] demo_zero_nodes demo_default_leaf by simp
  then have "concat (proof_nodes (branch_of demo_hash memory_default a)) = concat (proof_nodes (replicate 896 0))" by (rule arg_cong)
  then show ?thesis using length_branch_of [OF demo_hash32] by (simp add: concat_proof_nodes)
qed

text \<open>Well-formed memories with the same contents have the same root.\<close>

lemma merkle_root_contents:
  assumes "mem_ok k m" and "mem_ok k m'" and "\<And>b. b < 4294967296 \<Longrightarrow> mem_byte m b = mem_byte m' b"
  shows "map_sum id fst (merkle_root k m) = map_sum id fst (merkle_root k m')"
proof -
  have "mem_leaf m j = mem_leaf m' j" if "j < 2 ^ 27" for j
    by (rule mem_leaf_eqI) (rule assms(3), use that in simp)
  from mt.determined [OF assms(1,2) this] show ?thesis by (simp add: merkle_root_def)
qed

section \<open>Properties\<close>

text \<open>C11. The memory root binds the contents: two memories with the same root agree on all \<open>2^32\<close>
  bytes, provided the hash has no collision among the inner nodes of the two trees.\<close>

theorem merkle_root_binding:
  assumes "hash32 k" and "mem_ok k m" and "mem_ok k m'"
    and "map_sum id fst (merkle_root k m) = map_sum id fst (merkle_root k m')"
    and "inj_on k (memory_inputs k m \<union> memory_inputs k m')" and "b < 4294967296"
  shows "mem_byte m b = mem_byte m' b"
  using root_determines_bytes [OF _ assms(1,5,6)] merkle_root_value [OF assms(2)] merkle_root_value [OF assms(3)] assms(4)
  by simp

theorem merkle_root_binding_witness:
  "mem_byte memory_default 77 = mem_byte (memory_default\<lparr>nodes := (nodes memory_default)(1 \<mapsto> None)\<rparr>) 77"
proof (rule merkle_root_binding [of demo_hash])
  let ?m = "memory_default\<lparr>nodes := (nodes memory_default)(1 \<mapsto> None)\<rparr>"
  show ok: "mem_ok demo_hash ?m"
    by (auto simp: mem_ok_def pages_ok_def last_page_ok_def nodes_ok_def memory_default_def)
  show "map_sum id fst (merkle_root demo_hash memory_default) = map_sum id fst (merkle_root demo_hash ?m)"
    using merkle_root_value [OF memory_default_ok, of demo_hash] merkle_root_value [OF ok] by (simp only: mem_leaf_fields)
  show "inj_on demo_hash (memory_inputs demo_hash memory_default \<union> memory_inputs demo_hash ?m)"
    using demo_default_inj by (simp add: memory_inputs_def mem_leaf_fields)
qed (simp_all add: demo_hash32 memory_default_ok)

text \<open>C10. \<open>merkle_proof\<close> never fails on a well-formed memory. It returns the 896 bytes of a branch that
  checks against the memory root and holds the word at the address, and it changes no content.\<close>

theorem merkle_proof_complete:
  assumes "hash32 k" and "mem_ok k m" and "unat a mod 4 = 0"
  shows "\<exists>pf m'. merkle_proof k a m = Inr (pf, m') \<and> length pf = 896
    \<and> map_sum id fst (merkle_root k m) = Inr (proof_root k a pf) \<and> proof_word a pf = mem_word m a
    \<and> mem_ok k m' \<and> mem_byte m' = mem_byte m"
proof -
  obtain m' where m': "merkle_proof k a m = Inr (branch_of k m a, m')" "mem_ok k m'" "mem_extends m m'"
    unfolding branch_of_def by (rule merkle_proof_ok [OF assms(2,1)])
  moreover have "a AND 3 = 0" using assms(3) by (simp add: aligned_iff)
  ultimately show ?thesis
    using length_branch_of [OF assms(1)] proof_root_ok [OF assms(1)] proof_word_ok merkle_root_value [OF assms(2)]
      mem_extends_byte [OF mem_okD(1) [OF assms(2)] m'(3)]
    by (metis branch_of_def)
qed

theorem merkle_proof_complete_witness:
  "\<exists>pf m'. merkle_proof demo_hash 8 memory_default = Inr (pf, m') \<and> length pf = 896"
proof -
  have "unat (8 :: u32) mod 4 = 0" by simp
  from merkle_proof_complete [OF demo_hash32 memory_default_ok this] show ?thesis by blast
qed

text \<open>C12. A branch is sound: any 896 bytes that check against the memory root are the bytes that
  \<open>merkle_proof\<close> returns, so no proof of another word at that address checks, provided the hash has
  no collision among the nodes on the two branches.\<close>

theorem merkle_proof_binding:
  assumes "hash32 k" and "mem_ok k m" and "length pf = 896"
    and "map_sum id fst (merkle_root k m) = Inr (proof_root k a pf)"
    and "inj_on k (proof_inputs k a pf \<union> proof_inputs k a (branch_of k m a))"
  shows "map_sum id fst (merkle_proof k a m) = Inr pf"
proof -
  have "proof_root k a pf = proof_root k a (branch_of k m a)"
    using assms(4) merkle_root_value [OF assms(2)] proof_root_ok [OF assms(1), of a m] by (simp add: branch_of_def del: subtree.simps)
  then have pf: "pf = branch_of k m a"
    by (rule proof_root_inject [OF assms(3) length_branch_of [OF assms(1)] assms(1) _ assms(5)])
  show ?thesis
    unfolding pf branch_of_def by (rule merkle_proof_ok [OF assms(2,1), of a]) simp
qed

theorem merkle_proof_binding_witness:
  "map_sum id fst (merkle_proof demo_hash 0 memory_default) = Inr (replicate 896 0)"
proof (rule merkle_proof_binding [OF demo_hash32 memory_default_ok])
  show "map_sum id fst (merkle_root demo_hash memory_default) = Inr (proof_root demo_hash 0 (replicate 896 0))"
    using merkle_root_value [OF memory_default_ok, of demo_hash]
    by (simp only: demo_default_leaf demo_zero_subtree proof_root_def demo_zero_nodes list.sel demo_zero_branch(1))
  show "inj_on demo_hash (proof_inputs demo_hash 0 (replicate 896 0) \<union> proof_inputs demo_hash 0 (branch_of demo_hash memory_default 0))"
    unfolding demo_default_branch using demo_zero_proof_inj by simp
qed simp

text \<open>C13. The encoding of a state has 226 bytes and commits to the state: equal encodings mean equal
  control state, registers and preimage fields, and equal memory contents, provided the hash has
  no collision in the two memory trees. Only \<open>last_hint\<close> is left out.\<close>

theorem encode_witness_binding:
  assumes "hash32 k" and "state_ok k s" and "state_ok k t"
    and "encode_witness k s = Inr (w, s')" and "encode_witness k t = Inr (w, t')"
    and "inj_on k (memory_inputs k (memory s) \<union> memory_inputs k (memory t))"
  shows "length w = 226 \<and> (\<forall>b < 4294967296. mem_byte (memory s) b = mem_byte (memory t) b)
    \<and> s\<lparr>memory := memory t, last_hint := last_hint t\<rparr> = t"
proof -
  let ?r = "\<lambda>s. subtree k (mem_leaf (memory s)) 27 0"
  have w: "w = witness_of (?r s) s" "w = witness_of (?r t) t"
    using encode_witness_ok [OF assms(2,1)] encode_witness_ok [OF assms(3,1)] assms(4,5) by auto
  have len: "length (?r s) = 32" "length (?r t) = 32" using length_subtree [OF assms(1)] by simp_all
  note d = state_okD [OF assms(2)] state_okD [OF assms(3)]
  have eq: "?r s = ?r t \<and> preimage_key s = preimage_key t \<and> preimage_offset s = preimage_offset t \<and> pc s = pc t
    \<and> next_pc s = next_pc t \<and> lo s = lo t \<and> hi s = hi t \<and> heap s = heap t \<and> exit_code s = exit_code t
    \<and> exited s = exited t \<and> step s = step t \<and> registers s = registers t"
    by (rule witness_of_inject) (use w len d in simp_all)
  then have "s\<lparr>memory := memory t, last_hint := last_hint t\<rparr> = t" by (cases s, cases t) simp
  moreover have "length w = 226" using w(1) length_witness_of [OF len(1) d(2,3)] by simp
  moreover have "mem_byte (memory s) b = mem_byte (memory t) b" if "b < 4294967296" for b
    using root_determines_bytes [OF conjunct1 [OF eq] assms(1,6) that] .
  ultimately show ?thesis by blast
qed

theorem encode_witness_binding_witness:
  "\<exists>w s'. encode_witness demo_hash demo_state = Inr (w, s') \<and> length w = 226"
proof -
  obtain w s' where e: "encode_witness demo_hash demo_state = Inr (w, s')"
    using encode_witness_ok [OF demo_state_ok demo_hash32] by metis
  have "memory demo_state = memory_default" by (simp add: demo_state_def state_default_def)
  then have "inj_on demo_hash (memory_inputs demo_hash (memory demo_state) \<union> memory_inputs demo_hash (memory demo_state))"
    using demo_default_inj by simp
  from encode_witness_binding [OF demo_hash32 demo_state_ok demo_state_ok e e this] e show ?thesis by blast
qed

text \<open>The state hash is the digest of the encoded state with the status in its first byte: 3 while
  the program runs, then 0, 1 or 2 for an exit code of 0, of 1, or of anything else.\<close>

lemma state_hash_status:
  assumes "hash32 k" and "state_ok k s" and "encode_witness k s = Inr (w, s')"
  shows "state_hash k w = (if \<not> exited s then 3 else if exit_code s = 0 then 0 else if exit_code s = 1 then 1 else 2) # tl (k w)"
proof -
  have w: "w = witness_of (subtree k (mem_leaf (memory s)) 27 0) s"
    using encode_witness_ok [OF assms(2,1)] assms(3) by auto
  have "length (subtree k (mem_leaf (memory s)) 27 0) = 32" using length_subtree [OF assms(1)] by simp
  from state_hash_witness [OF this state_okD(2) [OF assms(2)] assms(1)] show ?thesis
    unfolding w by (simp add: vm_status_def)
qed

lemma state_hash_status_example:
  "\<exists>w s'. encode_witness demo_hash demo_state = Inr (w, s') \<and> hd (state_hash demo_hash w) = 3"
proof -
  obtain w s' where e: "encode_witness demo_hash demo_state = Inr (w, s')"
    using encode_witness_ok [OF demo_state_ok demo_hash32] by metis
  moreover have "\<not> exited demo_state" by (simp add: demo_state_def state_default_def)
  ultimately show ?thesis using state_hash_status [OF demo_hash32 demo_state_ok e] by simp
qed

end
