(* ===== verification/Memory_IO.thy ===== *)
theory Memory_IO
  imports Memory_Proof
begin

text \<open>
  Filling a memory from a byte stream (\<open>Memory::set_memory_range\<close>) and the readers of
  \<open>std::io::Read\<close> that feed it: byte slices, cursors over vectors, and the \<open>MultiReader\<close> of
  \<open>patch.rs\<close>. A reader is a function from a buffer length to the bytes read and the rest of the
  reader; the bytes are written to the front of the buffer. The loop only ends when the reader
  reports the end, so it is a partial function, and the interface \<open>byte_reader\<close> is what makes it
  end.
\<close>

section \<open>Readers\<close>

type_synonym 'r read_fn = "nat \<Rightarrow> 'r \<Rightarrow> (bytes \<times> 'r) res"

text \<open>\<open>impl Read for &[u8]\<close>: copies as much as fits and advances the slice.\<close>

definition slice_read :: "bytes read_fn" where
  "slice_read n s = (let amt = min n (length s) in Inr (take amt s, drop amt s))"

text \<open>\<open>impl Read for Cursor<Vec<u8>>\<close>: reads from the position, clamped to the length.\<close>

record cursor =
  cur_inner :: bytes
  cur_pos :: nat

definition cursor_new :: "bytes \<Rightarrow> cursor" where
  "cursor_new xs = \<lparr>cur_inner = xs, cur_pos = 0\<rparr>"

definition cursor_read :: "cursor read_fn" where
  "cursor_read n c =
    (let rest = drop (min (cur_pos c) (length (cur_inner c))) (cur_inner c);
         amt = min n (length rest)
     in Inr (take amt rest, c\<lparr>cur_pos := cur_pos c + amt\<rparr>))"

definition multi_read :: "'r read_fn \<Rightarrow> 's read_fn \<Rightarrow> ('r \<times> 's) read_fn" where
  "multi_read read1 read2 n rs =
    (case rs of (r1, r2) \<Rightarrow>
       rbind (read1 n r1) (\<lambda>(read_first, r1').
         if length read_first = 0
         then rbind (read2 n r2) (\<lambda>(bs, r2'). Inr (bs, (r1', r2')))
         else Inr (read_first, (r1', r2))))"

text \<open>\<open>Box<dyn Read>\<close> of \<open>load_elf\<close>: a slice, or a slice followed by a vector of zeros.\<close>

datatype boxed_reader = SliceReader bytes | PaddedReader bytes cursor

fun boxed_read :: "boxed_reader read_fn" where
  "boxed_read n (SliceReader s) = rbind (slice_read n s) (\<lambda>(bs, s'). Inr (bs, SliceReader s'))"
| "boxed_read n (PaddedReader s c) =
     rbind (multi_read slice_read cursor_read n (s, c)) (\<lambda>(bs, (s', c')). Inr (bs, PaddedReader s' c'))"

section \<open>Setting a range\<close>

text \<open>The page of an address, allocated if it is missing, with its cache invalidated.\<close>

definition range_page :: "hash_fn \<Rightarrow> nat \<Rightarrow> memory \<Rightarrow> nat \<times> memory" where
  "range_page keccak page_index m =
    (let (r, m2) = (case page_lookup page_index m of
                      (Some r, m1) \<Rightarrow> (r, m1)
                    | (None, m1) \<Rightarrow> alloc_page keccak page_index m1)
     in (r, set_cell r (page_invalidate_full (cell m2 r)) m2))"

partial_function (option) set_memory_range ::
  "hash_fn \<Rightarrow> 'r read_fn \<Rightarrow> u32 \<Rightarrow> 'r \<Rightarrow> memory \<Rightarrow> memory res option" where
  "set_memory_range keccak read address input m =
    (let page_index = drop_bit PAGE_ADDRESS_SIZE (unat address);
         page_address = unat address AND PAGE_ADDRESS_MASK;
         (r, m1) = range_page keccak page_index m
     in case read (PAGE_SIZE - page_address) input of
          Inl e \<Rightarrow> Some (Inl e)
        | Inr (bs, input') \<Rightarrow>
            (let m2 = set_cell r ((cell m1 r)\<lparr>data := copy_from_slice page_address bs (data (cell m1 r))\<rparr>) m1
             in if length bs = 0 then Some (Inr m2)
                else set_memory_range keccak read (address + of_nat (length bs)) input' m2))"

section \<open>The interface of a reader\<close>

text \<open>
  A reader with finitely many bytes left: a read into a non-empty buffer returns a prefix of them
  that fits, and returns nothing only at the end.
\<close>

locale byte_reader =
  fixes read :: "'r read_fn"
    and content :: "'r \<Rightarrow> bytes"
  assumes read_prefix: "0 < n \<Longrightarrow>
      \<exists>bs r'. read n r = Inr (bs, r') \<and> length bs \<le> n \<and> content r = bs @ content r' \<and> (bs = [] \<longrightarrow> content r = [])"

definition cursor_content :: "cursor \<Rightarrow> bytes" where
  "cursor_content c = drop (cur_pos c) (cur_inner c)"

fun boxed_content :: "boxed_reader \<Rightarrow> bytes" where
  "boxed_content (SliceReader s) = s"
| "boxed_content (PaddedReader s c) = s @ cursor_content c"

interpretation sl: byte_reader slice_read "\<lambda>s. s"
  by unfold_locales (auto simp: slice_read_def Let_def min_def)

lemma cursor_read_eq:
  obtains c' where "cursor_read n c = Inr (take n (cursor_content c), c')" and "cursor_content c' = drop n (cursor_content c)"
proof -
  let ?xs = "cur_inner c" and ?p = "cur_pos c"
  have rest: "drop (min ?p (length ?xs)) ?xs = cursor_content c" by (simp add: min_def cursor_content_def)
  let ?amt = "min n (length (cursor_content c))"
  have "cursor_read n c = Inr (take n (cursor_content c), c\<lparr>cur_pos := ?p + ?amt\<rparr>)"
    unfolding cursor_read_def rest Let_def by (simp add: min_def)
  moreover have "drop ?amt (cursor_content c) = drop n (cursor_content c)" by (simp add: min_def)
  then have "cursor_content (c\<lparr>cur_pos := ?p + ?amt\<rparr>) = drop n (cursor_content c)"
    by (simp add: cursor_content_def add.commute)
  ultimately show ?thesis by (rule that)
qed

interpretation cu: byte_reader cursor_read cursor_content
proof
  fix n :: nat and c :: cursor
  assume n: "0 < n"
  obtain c' where c': "cursor_read n c = Inr (take n (cursor_content c), c')" "cursor_content c' = drop n (cursor_content c)"
    by (rule cursor_read_eq)
  with n show "\<exists>bs r'. cursor_read n c = Inr (bs, r') \<and> length bs \<le> n \<and> cursor_content c = bs @ cursor_content r'
      \<and> (bs = [] \<longrightarrow> cursor_content c = [])"
    by (intro exI [of _ "take n (cursor_content c)"] exI [of _ c']) simp
qed

text \<open>Reading one reader after the other keeps the contract.\<close>

lemma multi_reader:
  assumes "byte_reader read1 c1" and "byte_reader read2 c2"
  shows "byte_reader (multi_read read1 read2) (\<lambda>(r1, r2). c1 r1 @ c2 r2)"
proof
  fix n :: nat and rs :: "'a \<times> 'b"
  assume n: "0 < n"
  obtain r1 r2 where rs: "rs = (r1, r2)" by (cases rs)
  obtain bs r1' where 1: "read1 n r1 = Inr (bs, r1')" "length bs \<le> n" "c1 r1 = bs @ c1 r1'" "bs = [] \<longrightarrow> c1 r1 = []"
    using byte_reader.read_prefix [OF assms(1) n] by metis
  obtain cs r2' where 2: "read2 n r2 = Inr (cs, r2')" "length cs \<le> n" "c2 r2 = cs @ c2 r2'" "cs = [] \<longrightarrow> c2 r2 = []"
    using byte_reader.read_prefix [OF assms(2) n] by metis
  show "\<exists>bs r'. multi_read read1 read2 n rs = Inr (bs, r') \<and> length bs \<le> n
      \<and> (case rs of (r1, r2) \<Rightarrow> c1 r1 @ c2 r2) = bs @ (case r' of (r1, r2) \<Rightarrow> c1 r1 @ c2 r2)
      \<and> (bs = [] \<longrightarrow> (case rs of (r1, r2) \<Rightarrow> c1 r1 @ c2 r2) = [])"
  proof (cases "bs = []")
    case True
    with 1 2 rs show ?thesis by (intro exI [of _ cs] exI [of _ "(r1', r2')"]) (simp add: multi_read_def)
  next
    case False
    with 1 rs show ?thesis by (intro exI [of _ bs] exI [of _ "(r1', r2)"]) (simp add: multi_read_def)
  qed
qed

interpretation mu: byte_reader "multi_read slice_read cursor_read" "\<lambda>(s, c). s @ cursor_content c"
  by (rule multi_reader [OF sl.byte_reader_axioms cu.byte_reader_axioms])

interpretation bx: byte_reader boxed_read boxed_content
proof
  fix n :: nat and r
  assume n: "0 < n"
  show "\<exists>bs r'. boxed_read n r = Inr (bs, r') \<and> length bs \<le> n \<and> boxed_content r = bs @ boxed_content r'
      \<and> (bs = [] \<longrightarrow> boxed_content r = [])"
  proof (cases r)
    case (SliceReader s)
    obtain bs s' where "slice_read n s = Inr (bs, s')" "length bs \<le> n" "s = bs @ s'" "bs = [] \<longrightarrow> s = []"
      using sl.read_prefix [OF n] by metis
    with SliceReader show ?thesis by (intro exI [of _ bs] exI [of _ "SliceReader s'"]) simp
  next
    case (PaddedReader s c)
    obtain bs s' c' where "multi_read slice_read cursor_read n (s, c) = Inr (bs, (s', c'))" "length bs \<le> n"
        "s @ cursor_content c = bs @ s' @ cursor_content c'" "bs = [] \<longrightarrow> s @ cursor_content c = []"
      using mu.read_prefix [OF n, of "(s, c)"] by auto
    with PaddedReader show ?thesis by (intro exI [of _ bs] exI [of _ "PaddedReader s' c'"]) simp
  qed
qed

section \<open>One round of the loop\<close>

text \<open>
  A memory whose node cache is cold: no hash is cached, and the nodes above every page have an
  entry. The loader only ever works on cold memories.
\<close>

definition cold :: "memory \<Rightarrow> bool" where
  "cold m \<longleftrightarrow> (\<forall>g h. nodes m g \<noteq> Some (Some h)) \<and>
     (\<forall>i r s. pages m i = Some r \<longrightarrow> 0 < s \<longrightarrow> s \<le> 20 \<longrightarrow> nodes m (ancestor i s) = Some None)"

definition pages_valid :: "hash_fn \<Rightarrow> memory \<Rightarrow> bool" where
  "pages_valid k m \<longleftrightarrow> pages_ok k m \<and> last_page_ok m"

lemma cold_default: "cold memory_default"
  by (simp add: cold_def memory_default_def)

lemma mem_ok_pages_valid: "mem_ok k m \<Longrightarrow> pages_valid k m"
  by (simp add: mem_ok_def pages_valid_def)

lemma cold_mem_ok: "pages_valid k m \<Longrightarrow> cold m \<Longrightarrow> mem_ok k m"
  by (simp add: mem_ok_def pages_valid_def cold_def nodes_ok_def)

text \<open>The nodes above the pages stay cold when a page is looked up or allocated.\<close>

lemma cold_lookup:
  assumes i: "i < 1048576" and c: "cold m" and d: "dom (pages m') = insert i (dom (pages m))"
    and n: "nodes m' = (if i \<in> dom (pages m) then nodes m else invalidate_path (1048576 + i) (nodes m))"
  shows "cold m'"
proof -
  have e: "nodes m' g = Some None \<or> nodes m' g = nodes m g" for g using n by (simp add: invalidate_path_eq)
  have "nodes m' (ancestor j s) = Some None" if "pages m' j = Some x" "0 < s" "s \<le> 20" for j x s
  proof (cases "pages m j")
    case None
    with that(1) d have "j = i" by auto
    with None n that(2,3) i show ?thesis by (auto simp: invalidate_path_ancestor [OF i])
  next
    case (Some y)
    with c that(2,3) e [of "ancestor j s"] show ?thesis by (auto simp: cold_def)
  qed
  moreover have "nodes m' g \<noteq> Some (Some h)" for g h using c e [of g] by (auto simp: cold_def)
  ultimately show ?thesis by (simp add: cold_def)
qed

text \<open>Dropping the cached nodes of one page.\<close>

lemma page_invalidated_valid:
  assumes p: "pages_valid k m" and r: "pages m i = Some r"
  defines "m' \<equiv> set_cell r (page_invalidate_full (cell m r)) m"
  shows "pages_valid k m'" and "mem_byte m' = mem_byte m" and "valid (cell m' r) = replicate 128 False"
proof -
  let ?p = "page_invalidate_full (cell m r)"
  have po: "pages_ok k m" and lo: "last_page_ok m" using p by (simp_all add: pages_valid_def)
  note q = pages_okD [OF po r]
  have "page_ok k ?p" using page_invalidate_full_ok [OF q(3) page_okD(1) [OF q(3)]] by (simp add: page_invalidate_full_def)
  from pages_ok_set_cell [OF po this] lo show "pages_valid k m'" by (simp add: m'_def pages_valid_def last_page_ok_def)
  show "mem_byte m' = mem_byte m"
  proof
    fix b
    have "b div 4096 = i \<Longrightarrow> mem_byte m b = data ?p ! (b mod 4096)" using r by (simp add: mem_byte_def page_invalidate_full_def)
    then show "mem_byte m' b = mem_byte m b" by (simp add: m'_def mem_byte_set_cell [OF po r])
  qed
  show "valid (cell m' r) = replicate 128 False" using q(2) by (simp add: m'_def page_invalidate_full_def)
qed

lemma range_page_ok:
  assumes pv: "pages_valid k m" and i: "i < 1048576"
  obtains r m' where "range_page k i m = (r, m')" and "pages m' i = Some r" and "pages_valid k m'"
    and "mem_byte m' = mem_byte m" and "dom (pages m') = insert i (dom (pages m))" and "valid (cell m' r) = replicate 128 False"
    and "nodes m' = (if i \<in> dom (pages m) then nodes m else invalidate_path (1048576 + i) (nodes m))"
    and "cold m \<Longrightarrow> cold m'"
proof -
  note goal = that
  have po: "pages_ok k m" and lo: "last_page_ok m" using pv by (simp_all add: pages_valid_def)
  obtain lp where lp: "page_lookup i m = (pages m i, m\<lparr>last_page := lp\<rparr>)" "last_page_ok (m\<lparr>last_page := lp\<rparr>)"
    using page_lookup_eq [OF lo] by metis
  let ?m1 = "m\<lparr>last_page := lp\<rparr>"
  have po1: "pages_ok k ?m1" using po by (simp add: pages_ok_def)
  have fin: thesis if e: "range_page k i m = (r, set_cell r (page_invalidate_full (cell m2 r)) m2)"
    and r: "pages m2 i = Some r" and p2: "pages_valid k m2" and b2: "mem_byte m2 = mem_byte m"
    and d2: "dom (pages m2) = insert i (dom (pages m))"
    and n2: "nodes m2 = (if i \<in> dom (pages m) then nodes m else invalidate_path (1048576 + i) (nodes m))" for r m2
    using page_invalidated_valid [OF p2 r] b2 r d2 n2 cold_lookup [OF i, of m "set_cell r (page_invalidate_full (cell m2 r)) m2"]
    by (intro goal [OF e]) simp_all
  show thesis
  proof (cases "pages m i")
    case (Some r)
    then show thesis
      using lp po1 by (intro fin [of r ?m1]) (auto simp: range_page_def mem_byte_fields pages_valid_def)
  next
    case None
    have "pages_ok k (allocated k i ?m1)" using po1 i default_page_ok [of k]
      by (auto simp: pages_ok_def allocated_fields [OF i] nth_append less_Suc_eq)
    then show thesis
      using None lp mem_byte_allocated [OF po1 _ i] i
      by (intro fin [of "length (page_heap m)" "allocated k i ?m1"])
        (auto simp: range_page_def alloc_page_eq allocated_fields mem_byte_fields last_page_ok_def pages_valid_def)
  qed
qed

lemma overwrite_Nil [simp]: "overwrite a [] f = f"
  by (auto simp: overwrite_def fun_eq_iff)

lemma overwrite_append: "overwrite a (bs @ cs) f = overwrite (a + length bs) cs (overwrite a bs f)"
  by (auto simp: overwrite_def fun_eq_iff nth_append)

lemma page_write_bytes:
  assumes po: "pages_ok k m" and r: "pages m (unat a div 4096) = Some r" and len: "unat a mod 4096 + length bs \<le> 4096"
  shows "mem_byte (set_cell r ((cell m r)\<lparr>data := copy_from_slice (unat a mod 4096) bs (data (cell m r))\<rparr>) m)
    = overwrite (unat a) bs (mem_byte m)"
proof
  fix b
  note d = page_okD(1) [OF pages_okD(3) [OF po r]]
  show "mem_byte (set_cell r ((cell m r)\<lparr>data := copy_from_slice (unat a mod 4096) bs (data (cell m r))\<rparr>) m) b
    = overwrite (unat a) bs (mem_byte m) b"
  proof (cases "b div 4096 = unat a div 4096")
    case True
    have "mem_byte m b = data (cell m r) ! (b mod 4096)" using r True by (simp add: mem_byte_def)
    then show ?thesis
      using True len d same_page [OF True] by (simp add: mem_byte_set_cell [OF po r] nth_copy_from_slice overwrite_def)
  next
    case False
    have "\<not> (unat a \<le> b \<and> b < unat a + length bs)"
    proof
      assume h: "unat a \<le> b \<and> b < unat a + length bs"
      then have "unat a mod 4096 + (b - unat a) < 4096" using len by linarith
      from div_mod_in_page(1) [OF this] h False show False by simp
    qed
    with False show ?thesis by (auto simp: mem_byte_set_cell [OF po r] overwrite_def)
  qed
qed

lemma range_write_ok:
  assumes pv: "pages_valid k m" and r: "pages m (unat a div 4096) = Some r" and len: "unat a mod 4096 + length bs \<le> 4096"
    and inv: "valid (cell m r) = replicate 128 False"
    and m': "m' = set_cell r ((cell m r)\<lparr>data := copy_from_slice (unat a mod 4096) bs (data (cell m r))\<rparr>) m"
  shows "pages_valid k m'" and "mem_byte m' = overwrite (unat a) bs (mem_byte m)"
    and "pages m' = pages m" and "nodes m' = nodes m"
proof -
  have po: "pages_ok k m" and lo: "last_page_ok m" using pv by (simp_all add: pages_valid_def)
  note q = pages_okD(3) [OF po r]
  have "(cell m r)\<lparr>data := copy_from_slice (unat a mod 4096) bs (data (cell m r))\<rparr>
      = page_invalidate_full (cell m r)\<lparr>data := copy_from_slice (unat a mod 4096) bs (data (cell m r))\<rparr>"
    using inv by (cases "cell m r") (simp add: page_invalidate_full_def)
  then have "page_ok k ((cell m r)\<lparr>data := copy_from_slice (unat a mod 4096) bs (data (cell m r))\<rparr>)"
    using page_invalidate_full_ok [OF q] len page_okD(1) [OF q] by simp
  from pages_ok_set_cell [OF po this] lo show "pages_valid k m'"
    unfolding m' by (simp add: pages_valid_def last_page_ok_def)
  show "mem_byte m' = overwrite (unat a) bs (mem_byte m)" unfolding m' by (rule page_write_bytes [OF po r len])
qed (simp_all add: m')

text \<open>The address after a chunk wraps around only at the end of the range.\<close>

lemma next_chunk:
  fixes a :: u32
  assumes "unat a + (n + l) \<le> 4294967296"
  shows "unat (a + of_nat n) = unat a + n \<or> l = 0 \<and> unat (a + of_nat n) = 0"
proof (cases "unat a + n < 4294967296")
  case True
  then show ?thesis by (simp add: unat_word_ariths unat_of_nat)
next
  case False
  then have "unat a + n = 4294967296" "l = 0" using assms by linarith+
  then show ?thesis by (simp add: unat_word_ariths unat_of_nat mod_add_right_eq)
qed

section \<open>The whole range\<close>

context byte_reader
begin

lemma round:
  fixes m :: memory
  assumes pv: "pages_valid k m"
  obtains bs r' m' where "set_memory_range k read a r m = (if bs = [] then Some (Inr m') else set_memory_range k read (a + of_nat (length bs)) r' m')"
    and "content r = bs @ content r'" and "bs = [] \<longrightarrow> content r = []" and "pages_valid k m'" and "mem_byte m' = overwrite (unat a) bs (mem_byte m)"
    and "dom (pages m') = insert (unat a div 4096) (dom (pages m))" and "cold m \<longrightarrow> cold m'"
    and "unat a div 4096 \<in> dom (pages m) \<longrightarrow> nodes m' = nodes m"
proof -
  obtain q m1 where 1: "range_page k (unat a div 4096) m = (q, m1)" "pages m1 (unat a div 4096) = Some q" "pages_valid k m1"
      "mem_byte m1 = mem_byte m" "dom (pages m1) = insert (unat a div 4096) (dom (pages m))" "valid (cell m1 q) = replicate 128 False"
      "nodes m1 = (if unat a div 4096 \<in> dom (pages m) then nodes m else invalidate_path (1048576 + unat a div 4096) (nodes m))"
      "cold m \<longrightarrow> cold m1"
    by (rule range_page_ok [OF pv page_index_less]) blast
  have "0 < 4096 - unat a mod 4096" by simp
  from read_prefix [OF this, of r]
  obtain bs r' where 2: "read (4096 - unat a mod 4096) r = Inr (bs, r')" "length bs \<le> 4096 - unat a mod 4096"
      "content r = bs @ content r'" "bs = [] \<longrightarrow> content r = []"
    by (elim exE conjE)
  have len: "unat a mod 4096 + length bs \<le> 4096" using 2(2) by (simp add: le_diff_conv2)
  let ?m2 = "set_cell q ((cell m1 q)\<lparr>data := copy_from_slice (unat a mod 4096) bs (data (cell m1 q))\<rparr>) m1"
  note w = range_write_ok [OF 1(3,2) len 1(6) refl]
  have "set_memory_range k read a r m = (if bs = [] then Some (Inr ?m2) else set_memory_range k read (a + of_nat (length bs)) r' ?m2)"
    by (subst set_memory_range.simps) (simp add: 1(1) 2(1) address_simps Let_def)
  moreover have "cold m \<longrightarrow> cold ?m2" using 1(8) w(3,4) by (simp add: cold_def)
  ultimately show ?thesis
    using that [OF _ 2(3,4) w(1)] w 1 by simp
qed

lemma range_ok:
  assumes "pages_valid k m" and "unat a + length (content r) \<le> 4294967296"
  shows "\<exists>m'. set_memory_range k read a r m = Some (Inr m') \<and> pages_valid k m'
    \<and> mem_byte m' = overwrite (unat a) (content r) (mem_byte m) \<and> (cold m \<longrightarrow> cold m') \<and> dom (pages m) \<subseteq> dom (pages m')
    \<and> ((\<forall>b \<le> length (content r). unat (a + of_nat b) div 4096 \<in> dom (pages m)) \<longrightarrow> nodes m' = nodes m)"
  using assms
proof (induction "length (content r)" arbitrary: a r m rule: less_induct)
  case less
  obtain bs r' m1 where 1: "set_memory_range k read a r m = (if bs = [] then Some (Inr m1) else set_memory_range k read (a + of_nat (length bs)) r' m1)"
    "content r = bs @ content r'" "bs = [] \<longrightarrow> content r = []" "pages_valid k m1" "mem_byte m1 = overwrite (unat a) bs (mem_byte m)"
    "dom (pages m1) = insert (unat a div 4096) (dom (pages m))" "cold m \<longrightarrow> cold m1"
    "unat a div 4096 \<in> dom (pages m) \<longrightarrow> nodes m1 = nodes m"
    by (rule round [OF less.prems(1)])
  show ?case
  proof (cases "bs = []")
    case True
    then have c: "content r = []" using 1(3) by simp
    have a: "unat (a + of_nat 0) = unat a" by simp
    have "mem_byte m1 = overwrite (unat a) (content r) (mem_byte m)" using 1(5) True c by simp
    moreover have "nodes m1 = nodes m" if "\<forall>b \<le> length (content r). unat (a + of_nat b) div 4096 \<in> dom (pages m)"
      using that [rule_format, of 0] 1(8) unfolding a by simp
    ultimately show ?thesis using 1(1,4,6,7) True by (intro exI [of _ m1]) (simp add: subset_insertI)
  next
    case False
    let ?a = "a + of_nat (length bs)"
    have "unat a + (length bs + length (content r')) \<le> 4294967296" using less.prems(2) 1(2) by simp
    from next_chunk [OF this] have nxt: "unat ?a = unat a + length bs \<or> content r' = [] \<and> unat ?a = 0" by simp
    have "length (content r') < length (content r)" using False 1(2) by simp
    moreover have "unat ?a + length (content r') \<le> 4294967296" using nxt less.prems(2) 1(2) by auto
    ultimately obtain m2 where 2: "set_memory_range k read ?a r' m1 = Some (Inr m2)" "pages_valid k m2"
      "mem_byte m2 = overwrite (unat ?a) (content r') (mem_byte m1)" "cold m1 \<longrightarrow> cold m2" "dom (pages m1) \<subseteq> dom (pages m2)"
      "(\<forall>b \<le> length (content r'). unat (?a + of_nat b) div 4096 \<in> dom (pages m1)) \<longrightarrow> nodes m2 = nodes m1"
      using less.hyps [OF _ 1(4)] by blast
    have "mem_byte m2 = overwrite (unat a) (content r) (mem_byte m)"
      using 2(3) 1(2,5) nxt by (auto simp: overwrite_append)
    moreover have "nodes m2 = nodes m" if h: "\<forall>b \<le> length (content r). unat (a + of_nat b) div 4096 \<in> dom (pages m)"
    proof -
      have "unat a div 4096 \<in> dom (pages m)" using h [rule_format, of 0] by simp
      moreover have "unat (?a + of_nat b) div 4096 \<in> dom (pages m)" if "b \<le> length (content r')" for b
        using h [rule_format, of "length bs + b"] that 1(2) by (simp add: add.assoc)
      ultimately show ?thesis using 1(6,8) 2(6) by auto
    qed
    moreover have "dom (pages m) \<subseteq> dom (pages m2)" using 1(6) 2(5) by blast
    ultimately show ?thesis using 1(1,7) 2(1,2,4) False by (intro exI [of _ m2]) simp
  qed
qed

end

section \<open>Roots after a range\<close>

lemma merkle_root_caches:
  assumes "nodes m 1 \<noteq> None" and "merkle_root k m = Inr (h, m')"
  shows "nodes m' 1 = Some (Some h)"
  using assms by (subst (asm) merkle_root_def, subst (asm) mem_merkleize_subtree.simps)
    (auto simp: bit_len.simps Let_def split: option.splits)

lemma merkle_root_cached: "nodes m 1 = Some (Some h) \<Longrightarrow> merkle_root k m = Inr (h, m)"
  by (subst merkle_root_def, subst mem_merkleize_subtree.simps) (simp add: bit_len.simps)

text \<open>C22. Filling a range. With a byte slice as its input \<open>set_memory_range\<close> ends and succeeds on every
  range inside the address space; it overwrites the contents at the address with the slice and
  nothing else. On a memory with no cached hashes, as the loader has it, the result is well formed
  again, so that its root is the root of the reference tree.\<close>

theorem set_memory_range_contents:
  assumes "mem_ok k m" and "unat a + length bs \<le> 4294967296"
  shows "\<exists>m'. set_memory_range k slice_read a bs m = Some (Inr m')
    \<and> mem_byte m' = overwrite (unat a) bs (mem_byte m)
    \<and> (cold m \<longrightarrow> mem_ok k m' \<and> cold m' \<and> map_sum id fst (merkle_root k m') = Inr (subtree k (mem_leaf m') 27 0))"
proof -
  obtain m' where m': "set_memory_range k slice_read a bs m = Some (Inr m')" "pages_valid k m'"
      "mem_byte m' = overwrite (unat a) bs (mem_byte m)" "cold m \<longrightarrow> cold m'"
    using sl.range_ok [OF mem_ok_pages_valid [OF assms(1)], of a bs] assms(2) by blast
  moreover have "map_sum id fst (merkle_root k m') = Inr (subtree k (mem_leaf m') 27 0)" if "mem_ok k m'"
    by (rule merkle_root_ok [OF that]) simp
  ultimately show ?thesis using cold_mem_ok [OF m'(2)] by blast
qed

theorem set_memory_range_contents_witness:
  "\<exists>m'. set_memory_range (\<lambda>_. zero32) slice_read 0x1FFE [1, 2, 3, 4] memory_default = Some (Inr m')
    \<and> mem_byte m' 0x2000 = 3 \<and> mem_ok (\<lambda>_. zero32) m'"
proof -
  have "unat (0x1FFE :: u32) + length [1, 2, 3, 4 :: u8] \<le> 4294967296" by simp
  from set_memory_range_contents [OF memory_default_ok this, of "\<lambda>_. zero32"] cold_default show ?thesis
    by (auto simp: overwrite_def)
qed

text \<open>C23. A range does not invalidate the nodes above the pages it fills. Once the root of a memory with
  at least one page has been computed, filling a range of allocated pages changes the contents and
  \<open>merkle_root\<close> still returns the old root.\<close>

theorem set_memory_range_stale_root:
  assumes "mem_ok k m" and "nodes m 1 \<noteq> None" and "merkle_root k m = Inr (h, m1)"
    and "unat a + length bs \<le> 4294967296"
    and "\<forall>b \<le> length bs. unat (a + of_nat b) div 4096 \<in> dom (pages m)"
  shows "\<exists>m2. set_memory_range k slice_read a bs m1 = Some (Inr m2)
    \<and> mem_byte m2 = overwrite (unat a) bs (mem_byte m) \<and> merkle_root k m2 = Inr (h, m2)"
proof -
  obtain m' where "merkle_root k m = Inr (subtree k (mem_leaf m) 27 0, m')" "mem_ok k m'" "mem_extends m m'"
    by (rule merkle_root_ok [OF assms(1)])
  then have m1: "mem_ok k m1" "mem_extends m m1" using assms(3) by simp_all
  have "pages m1 = pages m" using m1(2) by (simp add: mem_extends_def)
  with assms(5) have pg: "\<forall>b \<le> length bs. unat (a + of_nat b) div 4096 \<in> dom (pages m1)" by simp
  obtain m2 where m2: "set_memory_range k slice_read a bs m1 = Some (Inr m2)"
      "mem_byte m2 = overwrite (unat a) bs (mem_byte m1)" "nodes m2 = nodes m1"
    using sl.range_ok [OF mem_ok_pages_valid [OF m1(1)] assms(4)] pg by blast
  have "merkle_root k m2 = Inr (h, m2)"
    using merkle_root_caches [OF assms(2,3)] m2(3) by (simp add: merkle_root_cached)
  with m2(1,2) show ?thesis using mem_extends_byte [OF mem_okD(1) [OF assms(1)] m1(2)] by simp
qed

theorem set_memory_range_stale_root_witness:
  "\<exists>m h m2. map_sum id fst (merkle_root (\<lambda>_. zero32) m) = Inr h \<and> mem_byte m 0 = 0 \<and> mem_byte m2 0 = 1
    \<and> merkle_root (\<lambda>_. zero32) m2 = Inr (h, m2)"
proof -
  let ?k = "\<lambda>_ :: bytes. zero32"
  have al: "unat (0 :: u32) mod 4 = 0" by simp
  obtain m where m: "mem_ok ?k m" "mem_byte m = overwrite 0 (u32_be 0) (mem_byte memory_default)" "dom (pages m) = {0}"
    by (rule set_memory_ok [OF memory_default_ok al, where v = 0 and k = ?k]) (auto simp: memory_default_def)
  then obtain r where r: "pages m 0 = Some r" by auto
  have "ancestor 0 20 = 1" by (simp add: ancestor_def)
  then have n1: "nodes m 1 \<noteq> None" using nodes_okD(2) [OF mem_okD(3) [OF m(1)] r, of 20] by simp
  obtain h m1 where h: "merkle_root ?k m = Inr (h, m1)" using merkle_root_ok [OF m(1)] by metis
  have len: "unat (0 :: u32) + length [1 :: u8] \<le> 4294967296" by simp
  have pg: "\<forall>b \<le> length [1 :: u8]. unat (0 + of_nat b :: u32) div 4096 \<in> dom (pages m)"
    using m(3) by (auto simp: le_Suc_eq)
  have "\<exists>m2. mem_byte m2 = overwrite 0 [1] (mem_byte m) \<and> merkle_root ?k m2 = Inr (h, m2)"
    using set_memory_range_stale_root [OF m(1) n1 h len pg] unfolding unsigned_0 by (elim exE conjE) blast
  moreover have "mem_byte m 0 = 0" using m(2) by (simp add: overwrite_def upt_rec numeral_eq_Suc)
  moreover have "overwrite 0 [1] (mem_byte m) 0 = 1" by (simp add: overwrite_def)
  moreover have "map_sum id fst (merkle_root ?k m) = Inr h" using h by simp
  ultimately show ?thesis by metis
qed

end
