(* ===== verification/Text.thy ===== *)
theory Text
  imports Prelude
begin

text \<open>
  The string functions of the Rust standard library that the program uses: \<open>{}\<close> of an unsigned
  integer, \<open>{:.1}\<close> of a quotient of integers, \<open>str::parse::<u64>\<close>, \<open>str::replace\<close> of \<open>%d\<close>, \<open>str::split\<close> and
  \<open>String::from_utf8\<close>. A string is the list of its bytes.
\<close>

section \<open>Printing\<close>

definition digit :: "nat \<Rightarrow> char" where
  "digit n = char_of (48 + n)"

fun show_nat :: "nat \<Rightarrow> string" where
  "show_nat n = (if n < 10 then [digit n] else show_nat (n div 10) @ [digit (n mod 10)])"

declare show_nat.simps [simp del]

text \<open>
  \<open>{:.1}\<close> of \<open>a as f64 / b as f64\<close>, where \<open>b\<close> is a power of two and \<open>a\<close> is below \<open>2^53\<close>, so that the
  quotient is exact: one digit after the point, ties to even.
\<close>

definition tenths :: "nat \<Rightarrow> nat \<Rightarrow> nat" where
  "tenths a b =
    (let q = a * 10 div b; r = a * 10 mod b
     in if b < 2 * r \<or> 2 * r = b \<and> odd q then q + 1 else q)"

definition show_tenths :: "nat \<Rightarrow> nat \<Rightarrow> string" where
  "show_tenths a b = show_nat (tenths a b div 10) @ ''.'' @ show_nat (tenths a b mod 10)"

section \<open>Parsing\<close>

definition digit_val :: "char \<Rightarrow> nat option" where
  "digit_val c = (let n = of_char c in if 48 \<le> n \<and> n \<le> 57 then Some (n - 48) else None)"

text \<open>The digits of a \<open>u64\<close>, with the checks for overflow.\<close>

fun parse_digits :: "nat \<Rightarrow> string \<Rightarrow> nat option" where
  "parse_digits acc [] = Some acc"
| "parse_digits acc (c # cs) =
    (case digit_val c of
       None \<Rightarrow> None
     | Some d \<Rightarrow> if acc * 10 + d < 2 ^ 64 then parse_digits (acc * 10 + d) cs else None)"

definition parse_u64 :: "string \<Rightarrow> u64 option" where
  "parse_u64 s =
    (case s of
       [] \<Rightarrow> None
     | c # cs \<Rightarrow> map_option of_nat (parse_digits 0 (if c = CHR ''+'' \<and> cs \<noteq> [] then cs else s)))"

fun replace_pct_d :: "string \<Rightarrow> string \<Rightarrow> string" where
  "replace_pct_d to [] = []"
| "replace_pct_d to [c] = [c]"
| "replace_pct_d to (c # d # cs) =
    (if c = CHR ''%'' \<and> d = CHR ''d'' then to @ replace_pct_d to cs else c # replace_pct_d to (d # cs))"

text \<open>\<open>str::split\<close> at a character: one part more than there are separators.\<close>

fun split_on :: "'a \<Rightarrow> 'a list \<Rightarrow> 'a list list" where
  "split_on c [] = [[]]"
| "split_on c (x # xs) =
    (if x = c then [] # split_on c xs else (case split_on c xs of [] \<Rightarrow> [[x]] | y # ys \<Rightarrow> (x # y) # ys))"

section \<open>Bytes\<close>

definition str_bytes :: "string \<Rightarrow> bytes" where
  "str_bytes s = map (\<lambda>c. of_nat (of_char c)) s"

text \<open>
  The check of \<open>String::from_utf8\<close>: the well-formed sequences of one to four bytes, without overlong
  forms, surrogates and values above the last code point.
\<close>

definition utf8_cont :: "u8 \<Rightarrow> bool" where
  "utf8_cont b \<longleftrightarrow> 0x80 \<le> b \<and> b \<le> 0xBF"

definition utf8_pair3 :: "u8 \<Rightarrow> u8 \<Rightarrow> bool" where
  "utf8_pair3 b c \<longleftrightarrow> b = 0xE0 \<and> 0xA0 \<le> c \<and> c \<le> 0xBF \<or> (0xE1 \<le> b \<and> b \<le> 0xEC \<or> 0xEE \<le> b \<and> b \<le> 0xEF) \<and> utf8_cont c
     \<or> b = 0xED \<and> 0x80 \<le> c \<and> c \<le> 0x9F"

definition utf8_pair4 :: "u8 \<Rightarrow> u8 \<Rightarrow> bool" where
  "utf8_pair4 b c \<longleftrightarrow> b = 0xF0 \<and> 0x90 \<le> c \<and> c \<le> 0xBF \<or> 0xF1 \<le> b \<and> b \<le> 0xF3 \<and> utf8_cont c
     \<or> b = 0xF4 \<and> 0x80 \<le> c \<and> c \<le> 0x8F"

fun utf8_valid :: "bytes \<Rightarrow> bool" where
  "utf8_valid [] = True"
| "utf8_valid (b # bs) =
    (if b < 0x80 then utf8_valid bs
     else case bs of
       [] \<Rightarrow> False
     | c1 # r1 \<Rightarrow>
         if 0xC2 \<le> b \<and> b \<le> 0xDF then utf8_cont c1 \<and> utf8_valid r1
         else (case r1 of
           [] \<Rightarrow> False
         | c2 # r2 \<Rightarrow>
             if utf8_pair3 b c1 then utf8_cont c2 \<and> utf8_valid r2
             else (case r2 of
               [] \<Rightarrow> False
             | c3 # r3 \<Rightarrow> utf8_pair4 b c1 \<and> utf8_cont c2 \<and> utf8_cont c3 \<and> utf8_valid r3)))"

definition from_utf8 :: "bytes \<Rightarrow> string option" where
  "from_utf8 bs = (if utf8_valid bs then Some (map (\<lambda>b. char_of (unat b)) bs) else None)"

section \<open>Facts\<close>

lemma utf8_valid_ascii: "\<forall>b \<in> set bs. b < 0x80 \<Longrightarrow> utf8_valid bs"
  by (induction bs) simp_all

lemma split_on_none: "c \<notin> set xs \<Longrightarrow> split_on c xs = [xs]"
  by (induction xs) auto

lemma split_on_append: "c \<notin> set xs \<Longrightarrow> split_on c (xs @ c # ys) = xs # split_on c ys"
  by (induction xs) auto

lemma from_utf8_str_bytes:
  assumes "\<forall>c \<in> set s. of_char c < (128 :: nat)"
  shows "from_utf8 (str_bytes s) = Some s"
proof -
  have u: "unat (of_nat (of_char c) :: u8) = of_char c" if "c \<in> set s" for c
    using assms that by (auto simp: unat_of_nat)
  have "of_nat (of_char c) < (0x80 :: u8)" if "c \<in> set s" for c
    using u [OF that] assms that by (auto simp: word_less_nat_alt)
  then have "utf8_valid (str_bytes s)" by (intro utf8_valid_ascii) (auto simp: str_bytes_def)
  moreover have "map (\<lambda>b. char_of (unat b)) (str_bytes s) = s"
    using u by (auto simp: str_bytes_def comp_def intro: map_idI)
  ultimately show ?thesis by (simp add: from_utf8_def)
qed

lemma of_char_digit: "n < 10 \<Longrightarrow> of_char (digit n) = 48 + n"
  by (simp add: digit_def)

lemma digit_val_digit: "n < 10 \<Longrightarrow> digit_val (digit n) = Some n"
  by (simp add: digit_val_def of_char_digit)

lemma digit_inject: "m < 10 \<Longrightarrow> n < 10 \<Longrightarrow> digit m = digit n \<Longrightarrow> m = n"
  using digit_val_digit by (metis option.inject)

lemma show_nat_nonempty [simp]: "show_nat n \<noteq> []"
  by (subst show_nat.simps) simp

lemma parse_show_digits:
  assumes "n < 2 ^ 64"
  shows "parse_digits 0 (show_nat n @ s) = parse_digits n s"
  using assms
proof (induction n arbitrary: s rule: show_nat.induct)
  case (1 n)
  show ?case
  proof (cases "n < 10")
    case True
    with "1.prems" show ?thesis by (subst show_nat.simps) (simp add: digit_val_digit)
  next
    case False
    have "parse_digits 0 (show_nat n @ s) = parse_digits 0 (show_nat (n div 10) @ digit (n mod 10) # s)"
      using False by (subst show_nat.simps) simp
    also have "\<dots> = parse_digits (n div 10) (digit (n mod 10) # s)"
      using "1.IH" [OF False] "1.prems" by simp
    also have "\<dots> = parse_digits n s"
      using "1.prems" by (simp add: digit_val_digit mult.commute)
    finally show ?thesis .
  qed
qed

lemma show_nat_digits: "set (show_nat n) \<subseteq> digit ` {..<10}"
proof (induction n rule: show_nat.induct)
  case (1 n)
  show ?case
  proof (cases "n < 10")
    case True
    then show ?thesis by (subst show_nat.simps) simp
  next
    case False
    have "digit (n mod 10) \<in> digit ` {..<10}" by simp
    with "1.IH" [OF False] False show ?thesis by (subst show_nat.simps) simp
  qed
qed

lemma digit_not_plus: "n < 10 \<Longrightarrow> digit n \<noteq> CHR ''+''"
proof
  assume "n < 10" and "digit n = CHR ''+''"
  then have "digit_val (CHR ''+'') = Some n" using digit_val_digit by metis
  then show False by (simp add: digit_val_def)
qed

lemma parse_show: "parse_u64 (show_nat (unat n)) = Some n"
proof -
  obtain c cs where c: "show_nat (unat n) = c # cs" by (cases "show_nat (unat n)") auto
  then have "c \<in> digit ` {..<10}" using show_nat_digits [of "unat n"] by auto
  then have "c \<noteq> CHR ''+''" using digit_not_plus by auto
  moreover have "unat n < 2 ^ 64" using unsigned_less [of n] by simp
  ultimately show ?thesis
    using parse_show_digits [of "unat n" "[]"] c by (simp add: parse_u64_def)
qed

lemma show_nat_inject: "show_nat (unat (m :: u64)) = show_nat (unat n) \<Longrightarrow> m = n"
  using parse_show by (metis option.inject)

end
