(* ===== verification/Memory_Serde.thy ===== *)
theory Memory_Serde
  imports Memory_IO Text
begin

text \<open>
  The serialized form of a memory (\<open>Serialize\<close> and \<open>Deserialize for Memory\<close>), the hexadecimal
  fields of \<open>ser.rs\<close>, and the human readable size of \<open>Memory::usage\<close>. The encoder and decoder of the
  crate \<open>hex\<close> are parameters, as is the order in which the hash map iterates over its pages. What
  the serde format does with the resulting sequence of entries is outside the model.
\<close>

section \<open>Hexadecimal fields\<close>

type_synonym hex_encode = "bytes \<Rightarrow> string"
type_synonym hex_decode = "string \<Rightarrow> bytes option"

definition fixed_hex_serialize :: "hex_encode \<Rightarrow> bytes \<Rightarrow> string" where
  "fixed_hex_serialize enc bs = ''0x'' @ enc bs"

text \<open>\<open>copy_from_slice\<close> into an array of another length panics.\<close>

definition fixed_hex_deserialize :: "nat \<Rightarrow> hex_decode \<Rightarrow> string \<Rightarrow> bytes res" where
  "fixed_hex_deserialize sz dec s =
    (case dec s of
       None \<Rightarrow> Inl SerdeError
     | Some bs \<Rightarrow> if length bs = sz then Inr bs else Inl PanicSlice)"

definition vec_hex_serialize :: "hex_encode \<Rightarrow> bytes \<Rightarrow> string" where
  "vec_hex_serialize enc bs = ''0x'' @ enc bs"

definition vec_hex_deserialize :: "hex_decode \<Rightarrow> string \<Rightarrow> bytes res" where
  "vec_hex_deserialize dec s = (case dec s of None \<Rightarrow> Inl SerdeError | Some bs \<Rightarrow> Inr bs)"

text \<open>What the crate \<open>hex\<close> documents: \<open>decode\<close> inverts \<open>encode\<close>, with or without the prefix.\<close>

definition hex_inverse :: "hex_encode \<Rightarrow> hex_decode \<Rightarrow> bool" where
  "hex_inverse enc dec \<longleftrightarrow> (\<forall>bs. dec (''0x'' @ enc bs) = Some bs)"

section \<open>Entries\<close>

record page_entry =
  entry_index :: nat
  entry_data :: bytes

definition page_entry_default :: page_entry where
  "page_entry_default = \<lparr>entry_index = 0, entry_data = replicate PAGE_SIZE 0\<rparr>"

text \<open>\<open>Memory::for_each_page\<close>: a closure with a state of its own, over the pages in the order of the map.\<close>

definition for_each_page :: "(nat \<Rightarrow> nat \<Rightarrow> 's \<Rightarrow> 's) \<Rightarrow> nat list \<Rightarrow> memory \<Rightarrow> 's \<Rightarrow> 's" where
  "for_each_page f iter m st = fold (\<lambda>key. f key (the (pages m key))) iter st"

definition mem_entries :: "nat list \<Rightarrow> memory \<Rightarrow> page_entry list" where
  "mem_entries iter m =
     sort_key entry_index (map (\<lambda>i. \<lparr>entry_index = i, entry_data = data (cell m (the (pages m i)))\<rparr>) iter)"

definition mem_serialize :: "hex_encode \<Rightarrow> nat list \<Rightarrow> memory \<Rightarrow> (nat \<times> string) list" where
  "mem_serialize enc iter m =
     map (\<lambda>e. (entry_index e, fixed_hex_serialize enc (entry_data e))) (mem_entries iter m)"

text \<open>\<open>Vec::deserialize\<close>: every entry is decoded, in order, before any page is loaded.\<close>

fun decode_entries :: "hex_decode \<Rightarrow> (nat \<times> string) list \<Rightarrow> page_entry list res" where
  "decode_entries dec [] = Inr []"
| "decode_entries dec ((i, s) # es) =
     rbind (fixed_hex_deserialize PAGE_SIZE dec s) (\<lambda>bs.
     rbind (decode_entries dec es) (\<lambda>ps. Inr (\<lparr>entry_index = i, entry_data = bs\<rparr> # ps)))"

text \<open>The loop over the entries, with the position of the entry.\<close>

fun load_entries :: "hash_fn \<Rightarrow> nat \<Rightarrow> page_entry list \<Rightarrow> memory \<Rightarrow> memory res" where
  "load_entries keccak i [] m = Inr m"
| "load_entries keccak i (p # ps) m =
    (if pages m (entry_index p) \<noteq> None then Inl (DuplicatePage i (entry_index p))
     else
       (let (r, m1) = alloc_page keccak (entry_index p) m;
            page = page_invalidate_full ((cell m1 r)\<lparr>data := entry_data p\<rparr>)
        in load_entries keccak (i + 1) ps (set_cell r page m1)))"

definition mem_deserialize :: "hash_fn \<Rightarrow> hex_decode \<Rightarrow> (nat \<times> string) list \<Rightarrow> memory res" where
  "mem_deserialize keccak dec es =
     rbind (decode_entries dec es) (\<lambda>page_entries. load_entries keccak 0 page_entries memory_default)"

section \<open>Sizes\<close>

text \<open>The loop of \<open>usage\<close>. The products wrap around at \<open>2^64\<close>.\<close>

function usage_loop :: "nat \<Rightarrow> nat \<Rightarrow> nat \<Rightarrow> nat \<times> nat" where
  "usage_loop d e n =
    (if 1024 \<le> n then usage_loop (d * 1024 mod 2 ^ 64) (e + 1) (n div 1024) else (d, e))"
  by pat_completeness auto
termination
  by (relation "measure (\<lambda>(d, e, n). n)") auto

declare usage_loop.simps [simp del]

definition usage :: "memory \<Rightarrow> string res" where
  "usage m =
    (let tot = page_count m * PAGE_SIZE mod 2 ^ 64
     in if tot < 1024 then Inr (show_nat tot @ '' B'')
        else
          (let (d, e) = usage_loop 1024 0 (tot div 1024)
           in if e < 6 then Inr (show_tenths tot d @ '' '' @ [''KMGTPE'' ! e] @ ''iB'') else Inl PanicSlice))"

section \<open>Loading entries\<close>

definition entry_ok :: "page_entry \<Rightarrow> bool" where
  "entry_ok p \<longleftrightarrow> entry_index p < 1048576 \<and> length (entry_data p) = 4096"

lemma load_entry_ok:
  assumes pv: "pages_valid k m" and c: "cold m" and new: "pages m (entry_index p) = None" and p: "entry_ok p"
  obtains r m' where "alloc_page k (entry_index p) m = (r, m')"
    and "pages_valid k (set_cell r (page_invalidate_full ((cell m' r)\<lparr>data := entry_data p\<rparr>)) m')"
    and "cold (set_cell r (page_invalidate_full ((cell m' r)\<lparr>data := entry_data p\<rparr>)) m')"
    and "dom (pages (set_cell r (page_invalidate_full ((cell m' r)\<lparr>data := entry_data p\<rparr>)) m')) = insert (entry_index p) (dom (pages m))"
    and "mem_byte (set_cell r (page_invalidate_full ((cell m' r)\<lparr>data := entry_data p\<rparr>)) m')
      = overwrite (4096 * entry_index p) (entry_data p) (mem_byte m)"
proof -
  let ?i = "entry_index p" and ?r = "length (page_heap m)"
  let ?m1 = "allocated k ?i m"
  let ?p = "page_invalidate_full ((cell ?m1 ?r)\<lparr>data := entry_data p\<rparr>)"
  have i: "?i < 1048576" and len: "length (entry_data p) = 4096" using p by (simp_all add: entry_ok_def)
  note f = allocated_fields [OF i]
  have ok1: "mem_ok k ?m1" using allocated_ok [OF cold_mem_ok [OF pv c] new i] .
  have r: "pages ?m1 ?i = Some ?r" by (simp add: f)
  have "?p = page_invalidate_full (default_page k)\<lparr>data := entry_data p\<rparr>"
    by (simp add: f page_invalidate_full_def default_page_def)
  then have "page_ok k ?p" using page_invalidate_full_ok [OF default_page_ok len] by simp
  then have pv2: "pages_valid k (set_cell ?r ?p ?m1)"
    using pages_ok_set_cell [OF mem_okD(1) [OF ok1]] mem_okD(2) [OF ok1] by (simp add: pages_valid_def last_page_ok_def)
  have "cold ?m1"
    using c by (auto simp: cold_def f invalidate_path_ancestor [OF i])
  then have cold2: "cold (set_cell ?r ?p ?m1)" by (simp add: cold_def)
  have po: "pages_ok k m" using pv by (simp add: pages_valid_def)
  have "mem_byte (set_cell ?r ?p ?m1) b = overwrite (4096 * ?i) (entry_data p) (mem_byte m) b" for b
  proof (cases "b div 4096 = ?i")
    case True
    then have "b - 4096 * ?i = b mod 4096" "4096 * ?i \<le> b" "b < 4096 * ?i + 4096"
      using mult_div_mod_eq [of 4096 b] by (auto simp: minus_mult_div_eq_mod)
    with True len show ?thesis
      by (simp add: mem_byte_set_cell [OF mem_okD(1) [OF ok1] r] overwrite_def page_invalidate_full_def)
  next
    case False
    then have "\<not> (4096 * ?i \<le> b \<and> b < 4096 * ?i + 4096)" by (auto intro: div_nat_eqI)
    with False len mem_byte_allocated [OF po new i] show ?thesis
      by (auto simp: mem_byte_set_cell [OF mem_okD(1) [OF ok1] r] overwrite_def)
  qed
  then show ?thesis
    using pv2 cold2 by (intro that [of ?r ?m1]) (simp_all add: alloc_page_eq f fun_eq_iff)
qed

text \<open>The contents that a list of entries stands for.\<close>

definition entries_byte :: "page_entry list \<Rightarrow> (nat \<Rightarrow> u8) \<Rightarrow> nat \<Rightarrow> u8" where
  "entries_byte ps f b =
    (case map_of (map (\<lambda>p. (entry_index p, entry_data p)) ps) (b div 4096) of
       None \<Rightarrow> f b
     | Some d \<Rightarrow> d ! (b mod 4096))"

lemma overwrite_page:
  assumes "length d = 4096"
  shows "overwrite (4096 * i) d f b = (if b div 4096 = i then d ! (b mod 4096) else f b)"
proof (cases "b div 4096 = i")
  case True
  then have "b - 4096 * i = b mod 4096" "4096 * i \<le> b" "b < 4096 * i + 4096"
    using mult_div_mod_eq [of 4096 b] by (auto simp: minus_mult_div_eq_mod)
  with True assms show ?thesis by (simp add: overwrite_def)
next
  case False
  then have "\<not> (4096 * i \<le> b \<and> b < 4096 * i + 4096)" by (auto intro: div_nat_eqI)
  with False assms show ?thesis by (auto simp: overwrite_def)
qed

lemma load_entries_ok:
  assumes "pages_valid k m" and "cold m" and "\<forall>p \<in> set ps. entry_ok p" and "distinct (map entry_index ps)"
    and "\<forall>p \<in> set ps. pages m (entry_index p) = None"
  obtains m' where "load_entries k i ps m = Inr m'" and "pages_valid k m'" and "cold m'"
    and "dom (pages m') = entry_index ` set ps \<union> dom (pages m)" and "mem_byte m' = entries_byte ps (mem_byte m)"
proof -
  have "\<exists>m'. load_entries k i ps m = Inr m' \<and> pages_valid k m' \<and> cold m'
      \<and> dom (pages m') = entry_index ` set ps \<union> dom (pages m) \<and> mem_byte m' = entries_byte ps (mem_byte m)"
    using assms
  proof (induction ps arbitrary: i m)
    case Nil
    then show ?case by (simp add: entries_byte_def fun_eq_iff)
  next
    case (Cons p ps)
    have p: "entry_ok p" "pages m (entry_index p) = None" using Cons.prems(3,5) by simp_all
    obtain r m1 where a: "alloc_page k (entry_index p) m = (r, m1)"
      and 1: "pages_valid k (set_cell r (page_invalidate_full ((cell m1 r)\<lparr>data := entry_data p\<rparr>)) m1)"
        "cold (set_cell r (page_invalidate_full ((cell m1 r)\<lparr>data := entry_data p\<rparr>)) m1)"
        "dom (pages (set_cell r (page_invalidate_full ((cell m1 r)\<lparr>data := entry_data p\<rparr>)) m1)) = insert (entry_index p) (dom (pages m))"
        "mem_byte (set_cell r (page_invalidate_full ((cell m1 r)\<lparr>data := entry_data p\<rparr>)) m1) = overwrite (4096 * entry_index p) (entry_data p) (mem_byte m)"
      by (rule load_entry_ok [OF Cons.prems(1,2) p(2,1)])
    let ?m2 = "set_cell r (page_invalidate_full ((cell m1 r)\<lparr>data := entry_data p\<rparr>)) m1"
    have fresh: "\<forall>q \<in> set ps. pages ?m2 (entry_index q) = None"
    proof
      fix q
      assume q: "q \<in> set ps"
      then have "entry_index q \<in> set (map entry_index ps)" by simp
      then have "entry_index q \<noteq> entry_index p" using Cons.prems(4) by auto
      then have "entry_index q \<notin> dom (pages ?m2)" using q Cons.prems(5) unfolding 1(3) by (simp add: domIff)
      then show "pages ?m2 (entry_index q) = None" by (simp add: domIff)
    qed
    obtain m' where 2: "load_entries k (i + 1) ps ?m2 = Inr m'" "pages_valid k m'" "cold m'"
        "dom (pages m') = entry_index ` set ps \<union> dom (pages ?m2)" "mem_byte m' = entries_byte ps (mem_byte ?m2)"
      using Cons.IH [OF 1(1,2) _ _ fresh, of "i + 1"] Cons.prems(3,4) by auto
    have len: "length (entry_data p) = 4096" using p(1) by (simp add: entry_ok_def)
    have "entry_index p \<notin> entry_index ` set ps" using Cons.prems(4) by simp
    then have "map_of (map (\<lambda>p. (entry_index p, entry_data p)) ps) (entry_index p) = None"
      by (simp add: map_of_eq_None_iff image_image)
    then have "mem_byte m' = entries_byte (p # ps) (mem_byte m)"
      unfolding 2(5) 1(4) by (auto simp: entries_byte_def fun_eq_iff overwrite_page [OF len] split: option.split)
    moreover have "load_entries k i (p # ps) m = Inr m'" using a p(2) 2(1) by (simp add: Let_def)
    moreover have "dom (pages m') = entry_index ` set (p # ps) \<union> dom (pages m)" using 2(4) unfolding 1(3) by auto
    ultimately show ?case using 2(2,3) by blast
  qed
  with that show ?thesis by blast
qed

section \<open>Entries of a memory\<close>

lemma insort_key_map: "(\<And>x. f (g x) = x) \<Longrightarrow> insort_key f (g x) (map g ys) = map g (insort x ys)"
  by (induction ys) simp_all

lemma sort_key_map: "(\<And>x. f (g x) = x) \<Longrightarrow> sort_key f (map g xs) = map g (sort xs)"
  by (induction xs) (simp_all add: insort_key_map)

text \<open>An enumeration of the page map, as its iterator yields it.\<close>

definition enumerates :: "nat list \<Rightarrow> memory \<Rightarrow> bool" where
  "enumerates iter m \<longleftrightarrow> distinct iter \<and> set iter = dom (pages m)"

lemma mem_entries_eq:
  assumes "enumerates iter m"
  shows "mem_entries iter m
    = map (\<lambda>i. \<lparr>entry_index = i, entry_data = data (cell m (the (pages m i)))\<rparr>) (sorted_list_of_set (dom (pages m)))"
proof -
  have "sort iter = sorted_list_of_set (dom (pages m))"
    using assms sorted_list_of_set_sort_remdups [of iter] by (simp add: enumerates_def distinct_remdups_id)
  then show ?thesis unfolding mem_entries_def by (subst sort_key_map) simp_all
qed

lemma mem_entries_facts:
  assumes e: "enumerates iter m" and ok: "mem_ok k m"
  shows "map entry_index (mem_entries iter m) = sorted_list_of_set (dom (pages m))" and "finite (dom (pages m))"
    and "\<forall>p \<in> set (mem_entries iter m). entry_ok p"
    and "entries_byte (mem_entries iter m) (\<lambda>_. 0) = mem_byte m"
proof -
  show fin: "finite (dom (pages m))" using e by (metis List.finite_set enumerates_def)
  show "map entry_index (mem_entries iter m) = sorted_list_of_set (dom (pages m))"
    by (simp add: mem_entries_eq [OF e] comp_def)
  note po = mem_okD(1) [OF ok]
  show "\<forall>p \<in> set (mem_entries iter m). entry_ok p"
    using fin pages_okD(1) [OF po] page_okD(1) [OF pages_okD(3) [OF po]]
    by (auto simp: mem_entries_eq [OF e] entry_ok_def)
  have "map_of (map (\<lambda>i. (i, data (cell m (the (pages m i))))) (sorted_list_of_set (dom (pages m)))) i
      = map_option (\<lambda>r. data (cell m r)) (pages m i)" for i
    using fin by (auto simp: map_of_map_restrict restrict_map_def domIff)
  then show "entries_byte (mem_entries iter m) (\<lambda>_. 0) = mem_byte m"
    by (auto simp: entries_byte_def mem_byte_def fun_eq_iff mem_entries_eq [OF e] comp_def split: option.split)
qed

lemma decode_encode:
  assumes "hex_inverse enc dec" and "\<forall>p \<in> set ps. entry_ok p"
  shows "decode_entries dec (map (\<lambda>e. (entry_index e, fixed_hex_serialize enc (entry_data e))) ps) = Inr ps"
  using assms(2)
proof (induction ps)
  case (Cons p ps)
  then have "fixed_hex_deserialize 4096 dec (fixed_hex_serialize enc (entry_data p)) = Inr (entry_data p)"
    using assms(1) by (simp add: fixed_hex_deserialize_def fixed_hex_serialize_def hex_inverse_def entry_ok_def)
  with Cons show ?case by simp
qed simp

lemma page_data_bytes:
  assumes "pages_ok k m" and "pages m i = Some r"
  shows "data (cell m r) = map (\<lambda>j. mem_byte m (4096 * i + j)) [0..<4096]"
  using page_okD(1) [OF pages_okD(3) [OF assms]] assms(2)
  by (intro nth_equalityI) (simp_all add: mem_byte_def del: upt_rec_numeral)

text \<open>Memories with the same pages and contents have the same entries.\<close>

lemma mem_entries_cong:
  assumes "enumerates iter m" and "enumerates iter' m'" and "pages_ok k m" and "pages_ok k m'"
    and "dom (pages m') = dom (pages m)" and "mem_byte m' = mem_byte m"
  shows "mem_entries iter' m' = mem_entries iter m"
proof -
  have "data (cell m' (the (pages m' i))) = data (cell m (the (pages m i)))" if i: "i \<in> dom (pages m)" for i
  proof -
    have "i \<in> dom (pages m')" using i assms(5) by simp
    with i obtain r r' where r: "pages m i = Some r" "pages m' i = Some r'" by blast
    show ?thesis using page_data_bytes [OF assms(3) r(1)] page_data_bytes [OF assms(4) r(2)] r assms(6) by simp
  qed
  moreover have "finite (dom (pages m))" using assms(1) by (metis List.finite_set enumerates_def)
  ultimately show ?thesis
    unfolding mem_entries_eq [OF assms(1)] mem_entries_eq [OF assms(2)] assms(5) by (intro map_cong) simp_all
qed

lemma load_entries_append:
  "load_entries k i (xs @ ys) m = rbind (load_entries k i xs m) (load_entries k (i + length xs) ys)"
  by (induction xs arbitrary: i m) (simp_all add: Let_def split: prod.split)

lemma pages_valid_default: "pages_valid k memory_default"
  by (rule mem_ok_pages_valid [OF memory_default_ok])

lemma mem_byte_default_fun: "mem_byte memory_default = (\<lambda>_. 0)"
  by (simp add: fun_eq_iff)

section \<open>Units\<close>

lemma power_1024_less:
  assumes "1024 ^ n \<le> tot" and "tot < (2 :: nat) ^ 64"
  shows "n \<le> 6"
proof (rule ccontr)
  assume "\<not> n \<le> 6"
  then have "(1024 :: nat) ^ 7 \<le> 1024 ^ n" by (intro power_increasing) simp_all
  then have "(1024 :: nat) ^ 7 < 2 ^ 64" using assms by linarith
  then show False by simp
qed

lemma usage_loop_unit:
  assumes "tot < 2 ^ 64" and "d = 1024 ^ (e + 1)" and "n = tot div 1024 ^ (e + 1)" and "0 < n"
  shows "\<exists>u < 6. usage_loop d e n = (1024 ^ (u + 1), u) \<and> 1024 ^ (u + 1) \<le> tot \<and> tot < 1024 ^ (u + 2)"
  using assms(2-4)
proof (induction d e n rule: usage_loop.induct)
  case (1 d e n)
  have le: "1024 ^ (e + 1) \<le> tot" using "1.prems"(2,3) by (simp add: div_greater_zero_iff)
  have half: "n div 1024 = tot div 1024 ^ (e + 2)" using "1.prems"(2) by (simp add: div_mult2_eq [symmetric] mult.commute)
  show ?case
  proof (cases "1024 \<le> n")
    case True
    then have n: "0 < n div 1024" by simp
    then have "1024 ^ (e + 2) \<le> tot" using half by (simp add: div_greater_zero_iff)
    from power_1024_less [OF this assms(1)] have "(1024 :: nat) ^ (e + 2) \<le> 1024 ^ 6" by (intro power_increasing) simp_all
    then have "d * 1024 mod 2 ^ 64 = 1024 ^ (e + 1 + 1)" using "1.prems"(1) by simp
    from "1.IH" [OF True this _ n] half True show ?thesis by (subst usage_loop.simps) simp
  next
    case False
    then have "tot div 1024 ^ (e + 1) < 1024" using "1.prems"(2) by simp
    then have "tot < 1024 ^ (e + 2)" by (simp add: div_less_iff_less_mult mult.commute mult.left_commute)
    moreover have "e < 6" using power_1024_less [OF le assms(1)] by simp
    moreover have "usage_loop d e n = (1024 ^ (e + 1), e)" using False "1.prems"(1) by (subst usage_loop.simps) simp
    ultimately show ?thesis using le by blast
  qed
qed

section \<open>Properties\<close>

text \<open>Serializing a memory and reading it back yields a well-formed memory with the same pages, the
  same contents and the same root, and serializes to the same entries again, in whatever order the
  hash maps iterate.\<close>

lemma mem_serde_roundtrip:
  assumes "hex_inverse enc dec" and "mem_ok k m" and "enumerates iter m"
  shows "\<exists>m'. mem_deserialize k dec (mem_serialize enc iter m) = Inr m' \<and> mem_ok k m'
    \<and> dom (pages m') = dom (pages m) \<and> mem_byte m' = mem_byte m
    \<and> map_sum id fst (merkle_root k m') = map_sum id fst (merkle_root k m)
    \<and> (\<forall>iter'. enumerates iter' m' \<longrightarrow> mem_serialize enc iter' m' = mem_serialize enc iter m)"
proof -
  note f = mem_entries_facts [OF assms(3,2)]
  have dist: "distinct (map entry_index (mem_entries iter m))" using f(1,2) by simp
  have new: "\<forall>p \<in> set (mem_entries iter m). pages memory_default (entry_index p) = None" by (simp add: memory_default_def)
  obtain m' where m': "load_entries k 0 (mem_entries iter m) memory_default = Inr m'" "pages_valid k m'" "cold m'"
      "dom (pages m') = entry_index ` set (mem_entries iter m) \<union> dom (pages memory_default)"
      "mem_byte m' = entries_byte (mem_entries iter m) (mem_byte memory_default)"
    by (rule load_entries_ok [OF pages_valid_default cold_default f(3) dist new])
  have ok: "mem_ok k m'" by (rule cold_mem_ok [OF m'(2,3)])
  have bytes: "mem_byte m' = mem_byte m" using m'(5) f(4) by (simp only: mem_byte_default_fun)
  have "entry_index ` set (mem_entries iter m) = dom (pages m)"
    using arg_cong [OF f(1), of set] f(2) by simp
  then have d: "dom (pages m') = dom (pages m)" using m'(4) by (simp add: memory_default_def)
  have "mem_serialize enc iter' m' = mem_serialize enc iter m" if "enumerates iter' m'" for iter'
    using mem_entries_cong [OF assms(3) that mem_okD(1) [OF assms(2)] mem_okD(1) [OF ok] d bytes] by (simp add: mem_serialize_def)
  moreover have "mem_deserialize k dec (mem_serialize enc iter m) = Inr m'"
    using decode_encode [OF assms(1) f(3)] m'(1) by (simp add: mem_deserialize_def mem_serialize_def)
  moreover have "map_sum id fst (merkle_root k m') = map_sum id fst (merkle_root k m)"
    using mt.determined [OF ok assms(2)] mem_leaf_cong [OF bytes] by (simp add: merkle_root_def)
  ultimately show ?thesis using ok d bytes by blast
qed

text \<open>An instance of the hexadecimal codec, one character for each byte.\<close>

definition demo_encode :: hex_encode where
  "demo_encode bs = map (\<lambda>b. char_of (unat b)) bs"

definition demo_decode :: hex_decode where
  "demo_decode s = Some (map (\<lambda>c. of_nat (of_char c)) (drop 2 s))"

lemma demo_hex: "hex_inverse demo_encode demo_decode"
proof -
  have "unat (b :: u8) < 256" for b using unsigned_less [of b] by simp
  then show ?thesis by (simp add: hex_inverse_def demo_encode_def demo_decode_def comp_def)
qed

text \<open>A page that occurs twice is refused: the error names the position of the first repeated entry
  and its page index.\<close>

lemma deserialize_duplicate:
  assumes "decode_entries dec es = Inr ps" and "\<forall>p \<in> set ps. entry_ok p" and "n < length ps"
    and "distinct (map entry_index (take n ps))" and "entry_index (ps ! n) \<in> entry_index ` set (take n ps)"
  shows "mem_deserialize k dec es = Inl (DuplicatePage n (entry_index (ps ! n)))"
proof -
  have ok: "\<forall>p \<in> set (take n ps). entry_ok p" using assms(2) by (meson in_set_takeD)
  have new: "\<forall>p \<in> set (take n ps). pages memory_default (entry_index p) = None" by (simp add: memory_default_def)
  obtain m' where m': "load_entries k 0 (take n ps) memory_default = Inr m'"
      "dom (pages m') = entry_index ` set (take n ps) \<union> dom (pages memory_default)"
    by (rule load_entries_ok [OF pages_valid_default cold_default ok assms(4) new])
  have "pages m' (entry_index (ps ! n)) \<noteq> None" using m'(2) assms(5) by auto
  moreover have "ps = take n ps @ ps ! n # drop (Suc n) ps" using assms(3) by (rule id_take_nth_drop)
  then have "load_entries k 0 ps memory_default = rbind (Inr m') (load_entries k (0 + length (take n ps)) (ps ! n # drop (Suc n) ps))"
    using load_entries_append m'(1) by metis
  ultimately show ?thesis using assms(1,3) by (simp add: mem_deserialize_def)
qed

lemma deserialize_duplicate_example:
  "mem_deserialize (\<lambda>_. zero32) (\<lambda>_. Some (replicate 4096 0)) [(7, []), (8, []), (7, [])] = Inl (DuplicatePage 2 7)"
proof -
  let ?e = "\<lambda>i :: nat. \<lparr>entry_index = i, entry_data = replicate 4096 (0 :: u8)\<rparr>"
  have "decode_entries (\<lambda>_. Some (replicate 4096 0)) [(7, []), (8, []), (7, [])] = Inr [?e 7, ?e 8, ?e 7]"
    by (simp add: fixed_hex_deserialize_def)
  from deserialize_duplicate [OF this, of 2] show ?thesis by (simp add: entry_ok_def)
qed

text \<open>Hexadecimal fields round trip. A field of a fixed size with any other number of bytes makes the
  copy into the array panic instead of returning a deserialization error.\<close>

lemma hex_fields:
  assumes "hex_inverse enc dec"
  shows "fixed_hex_deserialize sz dec (fixed_hex_serialize enc bs) = (if length bs = sz then Inr bs else Inl PanicSlice)
    \<and> vec_hex_deserialize dec (vec_hex_serialize enc bs) = Inr bs"
  using assms by (simp add: hex_inverse_def fixed_hex_deserialize_def fixed_hex_serialize_def vec_hex_deserialize_def vec_hex_serialize_def)

text \<open>\<open>usage\<close> never indexes outside its table of units, and picks the unit that the size fits:
  bytes below 1024, and otherwise the power of 1024 with a quotient from 1 to 1023.\<close>

lemma usage_unit:
  "\<exists>tot. tot = page_count m * 4096 mod 2 ^ 64 \<and>
    (if tot < 1024 then usage m = Inr (show_nat tot @ '' B'')
     else \<exists>u < 6. usage m = Inr (show_tenths tot (1024 ^ (u + 1)) @ '' '' @ [''KMGTPE'' ! u] @ ''iB'')
       \<and> 1024 ^ (u + 1) \<le> tot \<and> tot < 1024 ^ (u + 2))"
proof (rule exI, rule conjI, rule refl)
  let ?t = "page_count m * 4096 mod 2 ^ 64"
  show "if ?t < 1024 then usage m = Inr (show_nat ?t @ '' B'')
     else \<exists>u < 6. usage m = Inr (show_tenths ?t (1024 ^ (u + 1)) @ '' '' @ [''KMGTPE'' ! u] @ ''iB'')
       \<and> 1024 ^ (u + 1) \<le> ?t \<and> ?t < 1024 ^ (u + 2)"
  proof (cases "?t < 1024")
    case False
    have "?t < 2 ^ 64" by simp
    moreover have "0 < ?t div 1024" using False by simp
    ultimately obtain u where "u < 6" "usage_loop 1024 0 (?t div 1024) = (1024 ^ (u + 1), u)"
        "1024 ^ (u + 1) \<le> ?t" "?t < 1024 ^ (u + 2)"
      using usage_loop_unit [of ?t 1024 0 "?t div 1024"] by auto
    with False show ?thesis by (auto simp: usage_def Let_def)
  qed (simp add: usage_def Let_def)
qed

end
