(* ===== verification/Patch.thy ===== *)
theory Patch
  imports Memory_Serde State
begin

text \<open>
  The loader of \<open>patch.rs\<close>: the segments of an ELF file are copied into a fresh memory, the Go
  symbols that the emulator cannot run are overwritten by a return, and the initial stack is laid
  out. The parser of the crate \<open>elf\<close> is a parameter that returns the parts of a file that the
  loader looks at. A result of \<open>None\<close> means that a reader never ends.
\<close>

section \<open>Parsed files\<close>

record elf_segment =
  p_type :: u32
  p_vaddr :: u64
  p_filesz :: u64
  p_memsz :: u64

record elf_symbol =
  st_name :: u32
  st_value :: u64

text \<open>\<open>ehdr.e_entry\<close>, \<open>segments()\<close>, \<open>segment_data(header)\<close> and \<open>symbol_table()\<close> of a parsed file.\<close>

record elf_file =
  e_entry :: u64
  elf_segments :: "elf_segment list option"
  elf_segment_data :: "elf_segment \<Rightarrow> bytes res"
  elf_symbol_table :: "(elf_symbol list \<times> (nat \<Rightarrow> string res)) option res"

definition PT_LOAD :: u32 where
  [simp]: "PT_LOAD = 1"

section \<open>Sequencing\<close>

text \<open>\<open>?\<close> on a computation that may not end.\<close>

definition obind :: "'a res option \<Rightarrow> ('a \<Rightarrow> 'b res option) \<Rightarrow> 'b res option" where
  "obind r f = (case r of None \<Rightarrow> None | Some (Inl e) \<Rightarrow> Some (Inl e) | Some (Inr x) \<Rightarrow> f x)"

lemma obind_simps [simp]:
  "obind None f = None" "obind (Some (Inl e)) f = Some (Inl e)" "obind (Some (Inr x)) f = f x"
  by (simp_all add: obind_def)

section \<open>Loading\<close>

text \<open>The reader of a segment. \<open>vec![0; n]\<close> panics above the largest capacity.\<close>

definition segment_reader :: "elf_file \<Rightarrow> nat \<Rightarrow> elf_segment \<Rightarrow> boxed_reader res" where
  "segment_reader elf i header =
     rbind (elf_segment_data elf header) (\<lambda>d.
       if length d < unat (p_filesz header) then Inl PanicSlice
       else
         (let section_data = take (unat (p_filesz header)) d
          in if p_filesz header \<noteq> p_memsz header then
               if p_type header = PT_LOAD then
                 if p_filesz header < p_memsz header then
                   if 2 ^ 63 \<le> unat (p_memsz header - p_filesz header) then Inl PanicCapacity
                   else Inr (PaddedReader section_data (cursor_new (replicate (unat (p_memsz header - p_filesz header)) 0)))
                 else Inl (SegmentTooLarge i)
               else Inl (SegmentPadding i)
             else Inr (SliceReader section_data)))"

definition load_segment :: "hash_fn \<Rightarrow> elf_file \<Rightarrow> nat \<Rightarrow> elf_segment \<Rightarrow> state \<Rightarrow> state res option" where
  "load_segment keccak elf i header s =
    (if p_type header = 0x70000003 then Some (Inr s)
     else obind (Some (segment_reader elf i header)) (\<lambda>reader.
       if 2 ^ 32 \<le> p_vaddr header + p_memsz header then Some (Inl (SegmentOutOfRange i))
       else obind (set_memory_range keccak boxed_read (ucast (p_vaddr header)) reader (memory s)) (\<lambda>m.
         Some (Inr (s\<lparr>memory := m\<rparr>)))))"

fun load_segments :: "hash_fn \<Rightarrow> elf_file \<Rightarrow> nat \<Rightarrow> elf_segment list \<Rightarrow> state \<Rightarrow> state res option" where
  "load_segments keccak elf i [] s = Some (Inr s)"
| "load_segments keccak elf i (header # hs) s =
     obind (load_segment keccak elf i header s) (load_segments keccak elf (i + 1) hs)"

definition load_elf :: "hash_fn \<Rightarrow> (bytes \<Rightarrow> elf_file res) \<Rightarrow> bytes \<Rightarrow> state res option" where
  "load_elf keccak minimal_parse raw =
     obind (Some (minimal_parse raw)) (\<lambda>elf.
       let s = state_default\<lparr>pc := ucast (e_entry elf), next_pc := ucast (e_entry elf) + 4, heap := 0x20000000\<rparr>
       in case elf_segments elf of
            None \<Rightarrow> Some (Inl ElfError)
          | Some headers \<Rightarrow> load_segments keccak elf 0 headers s)"

section \<open>Go programs\<close>

definition GO_SYMBOLS :: "string list" where
  "GO_SYMBOLS = [''runtime.gcenable'', ''runtime.init.5'', ''runtime.main.func1'', ''runtime.deductSweepCredit'',
     ''runtime.(*gcControllerState).commit'', ''github.com/prometheus/client_golang/prometheus.init'',
     ''github.com/prometheus/client_golang/prometheus.init.0'', ''github.com/prometheus/procfs.init'',
     ''github.com/prometheus/common/model.init'', ''github.com/prometheus/client_model/go.init'',
     ''github.com/prometheus/client_model/go.init.0'', ''github.com/prometheus/client_model/go.init.1'',
     ''flag.init'', ''runtime.check'']"

definition patch_symbol :: "hash_fn \<Rightarrow> (nat \<Rightarrow> string res) \<Rightarrow> elf_symbol \<Rightarrow> state \<Rightarrow> state res option" where
  "patch_symbol keccak string_table symbol s =
     obind (Some (string_table (unat (st_name symbol)))) (\<lambda>name.
       if name \<in> set GO_SYMBOLS then
         obind (set_memory_range keccak slice_read (ucast (st_value symbol))
                  [0x03, 0xe0, 0x00, 0x08, 0x00, 0x00, 0x00, 0x00] (memory s))
           (\<lambda>m. Some (Inr (s\<lparr>memory := m\<rparr>)))
       else if name = ''runtime.MemProfileRate'' then
         obind (Some (set_memory keccak (ucast (st_value symbol)) 0 (memory s))) (\<lambda>m. Some (Inr (s\<lparr>memory := m\<rparr>)))
       else Some (Inr s))"

fun patch_symbols :: "hash_fn \<Rightarrow> (nat \<Rightarrow> string res) \<Rightarrow> elf_symbol list \<Rightarrow> state \<Rightarrow> state res option" where
  "patch_symbols keccak string_table [] s = Some (Inr s)"
| "patch_symbols keccak string_table (symbol # symbols) s =
     obind (patch_symbol keccak string_table symbol s) (patch_symbols keccak string_table symbols)"

definition patch_go :: "hash_fn \<Rightarrow> (bytes \<Rightarrow> elf_file res) \<Rightarrow> bytes \<Rightarrow> state \<Rightarrow> state res option" where
  "patch_go keccak minimal_parse raw s =
     obind (Some (minimal_parse raw)) (\<lambda>elf.
     obind (Some (elf_symbol_table elf)) (\<lambda>table.
       case table of
         None \<Rightarrow> Some (Inl ElfError)
       | Some (parsing_table, string_table) \<Rightarrow> patch_symbols keccak string_table parsing_table s))"

section \<open>The stack\<close>

definition store_mem :: "hash_fn \<Rightarrow> u32 \<Rightarrow> u32 \<Rightarrow> state \<Rightarrow> state res" where
  "store_mem keccak address value st = rbind (set_memory keccak address value (memory st)) (\<lambda>m. Inr (st\<lparr>memory := m\<rparr>))"

definition patch_stack :: "hash_fn \<Rightarrow> state \<Rightarrow> state res option" where
  "patch_stack keccak s =
    (let ptr = 0x7FFFD000
     in obind (set_memory_range keccak slice_read (ptr - 4 * of_nat PAGE_SIZE) (replicate (PAGE_SIZE * 5) 0) (memory s)) (\<lambda>m.
        let s1 = s\<lparr>memory := m, registers := (registers s)[29 := ptr]\<rparr>
        in obind (Some (rbind (store_mem keccak (ptr + 4) 0x42 s1) (\<lambda>s2.
             rbind (store_mem keccak (ptr + 4 * 2) 0x35 s2) (\<lambda>s3.
             rbind (store_mem keccak (ptr + 4 * 3) 0 s3) (\<lambda>s4.
             rbind (store_mem keccak (ptr + 4 * 4) 6 s4) (\<lambda>s5.
             rbind (store_mem keccak (ptr + 4 * 5) 4096 s5) (\<lambda>s6.
             rbind (store_mem keccak (ptr + 4 * 6) 25 s6) (\<lambda>s7.
             rbind (store_mem keccak (ptr + 4 * 7) (ptr + 4 * 9) s7) (\<lambda>s8.
             store_mem keccak (ptr + 4 * 8) 0 s8))))))))) (\<lambda>s9.
           obind (set_memory_range keccak slice_read (ptr + 4 * 9) (str_bytes ''4;byfairdiceroll'') (memory s9)) (\<lambda>m9.
             Some (Inr (s9\<lparr>memory := m9\<rparr>))))))"

section \<open>Loadable memories\<close>

text \<open>What the loader keeps: a well-formed memory with no cached hash.\<close>

definition loadable :: "hash_fn \<Rightarrow> memory \<Rightarrow> bool" where
  "loadable k m \<longleftrightarrow> mem_ok k m \<and> cold m"

lemma loadable_default: "loadable k memory_default"
  by (simp add: loadable_def memory_default_ok cold_default)

text \<open>A memory is cold when it is well formed and no node has a hash.\<close>

lemma coldI:
  assumes "mem_ok k m" and "\<And>g h. nodes m g \<noteq> Some (Some h)"
  shows "cold m"
proof -
  have "nodes m (ancestor i s) = Some None" if "pages m i = Some r" "0 < s" "s \<le> 20" for i r s
    using nodes_okD(2) [OF mem_okD(3) [OF assms(1)] that] assms(2) [of "ancestor i s"] by (cases "nodes m (ancestor i s)") auto
  with assms(2) show ?thesis by (simp add: cold_def)
qed

lemma page_lookup_nodes: "page_lookup i m = (r, m') \<Longrightarrow> nodes m' = nodes m"
  by (auto simp: page_lookup_def split: option.splits prod.splits)

lemma invalidate_path_uncached: "invalidate_path g ns x = Some (Some h) \<Longrightarrow> ns x = Some (Some h)"
  by (simp add: invalidate_path_eq split: if_splits)

lemma mem_invalidate_uncached:
  assumes "mem_invalidate a m = Inr m'" and "nodes m' g = Some (Some h)"
  shows "nodes m g = Some (Some h)"
  using assms by (auto simp: mem_invalidate_def Let_def page_invalidate_def dest!: page_lookup_nodes dest: invalidate_path_uncached
      split: if_splits prod.splits option.splits)

lemma alloc_page_uncached: "alloc_page k i m = (r, m') \<Longrightarrow> nodes m' g = Some (Some h) \<Longrightarrow> nodes m g = Some (Some h)"
  by (auto simp: alloc_page_def Let_def dest: invalidate_path_uncached)

lemma set_memory_uncached:
  assumes "set_memory k a v m = Inr m'" and "nodes m' g = Some (Some h)"
  shows "nodes m g = Some (Some h)"
proof -
  obtain r m1 where l: "page_lookup (unat a div 4096) m = (r, m1)" by (cases "page_lookup (unat a div 4096) m")
  note n = page_lookup_nodes [OF l]
  show ?thesis
  proof (cases r)
    case (Some q)
    with assms l obtain m2 where "mem_invalidate a m1 = Inr m2" "nodes m2 g = Some (Some h)"
      by (auto simp: set_memory_def address_simps Let_def split: if_splits)
    from mem_invalidate_uncached [OF this] n show ?thesis by simp
  next
    case None
    obtain q m2 where a: "alloc_page k (unat a div 4096) m1 = (q, m2)" by (cases "alloc_page k (unat a div 4096) m1")
    with assms l None have "nodes m2 g = Some (Some h)"
      by (auto simp: set_memory_def address_simps Let_def split: if_splits sum.splits)
    from alloc_page_uncached [OF a this] n show ?thesis by simp
  qed
qed

lemma set_memory_loadable:
  assumes "loadable k m" and "unat a mod 4 = 0"
  obtains m' where "set_memory k a v m = Inr m'" and "loadable k m'" and "mem_byte m' = overwrite (unat a) (u32_be v) (mem_byte m)"
proof -
  have m: "mem_ok k m" "cold m" using assms(1) by (simp_all add: loadable_def)
  obtain m' where m': "set_memory k a v m = Inr m'" "mem_ok k m'" "mem_byte m' = overwrite (unat a) (u32_be v) (mem_byte m)"
    by (rule set_memory_ok [OF m(1) assms(2)])
  have "cold m'" by (rule coldI [OF m'(2)]) (use set_memory_uncached [OF m'(1)] m(2) in \<open>auto simp: cold_def\<close>)
  with m' show ?thesis by (intro that) (simp_all add: loadable_def)
qed

context byte_reader
begin

lemma range_loadable:
  assumes "loadable k m" and "unat a + length (content r) \<le> 4294967296"
  obtains m' where "set_memory_range k read a r m = Some (Inr m')" and "loadable k m'"
    and "mem_byte m' = overwrite (unat a) (content r) (mem_byte m)"
proof -
  have m: "mem_ok k m" "cold m" using assms(1) by (simp_all add: loadable_def)
  from range_ok [OF mem_ok_pages_valid [OF m(1)] assms(2)] m(2) that show ?thesis
    unfolding loadable_def using cold_mem_ok by blast
qed

end

section \<open>Segments\<close>

text \<open>The bytes that a segment puts into memory: its file contents and the zeros up to its memory size.\<close>

definition segment_image :: "elf_file \<Rightarrow> elf_segment \<Rightarrow> bytes" where
  "segment_image elf h = (case elf_segment_data elf h of Inl e \<Rightarrow> [] | Inr d \<Rightarrow> take (unat (p_filesz h)) d)
     @ replicate (unat (p_memsz h) - unat (p_filesz h)) 0"

definition segment_ok :: "elf_file \<Rightarrow> elf_segment \<Rightarrow> bool" where
  "segment_ok elf h \<longleftrightarrow> (\<exists>d. elf_segment_data elf h = Inr d \<and> unat (p_filesz h) \<le> length d)
     \<and> (p_filesz h = p_memsz h \<or> p_type h = PT_LOAD \<and> p_filesz h < p_memsz h)
     \<and> unat (p_vaddr h) + unat (p_memsz h) < 4294967296"

definition apply_segment :: "elf_file \<Rightarrow> (nat \<Rightarrow> u8) \<Rightarrow> elf_segment \<Rightarrow> nat \<Rightarrow> u8" where
  "apply_segment elf f h = (if p_type h = 0x70000003 then f else overwrite (unat (p_vaddr h)) (segment_image elf h) f)"

lemma cursor_new_content [simp]: "cursor_content (cursor_new xs) = xs"
  by (simp add: cursor_content_def cursor_new_def)

lemma segment_reader_ok:
  assumes "segment_ok elf h"
  obtains r where "segment_reader elf i h = Inr r" and "boxed_content r = segment_image elf h"
proof -
  obtain d where d: "elf_segment_data elf h = Inr d" "unat (p_filesz h) \<le> length d" using assms by (auto simp: segment_ok_def)
  show ?thesis
  proof (cases "p_filesz h = p_memsz h")
    case True
    with d that [of "SliceReader (take (unat (p_filesz h)) d)"] show ?thesis
      by (simp add: segment_reader_def segment_image_def)
  next
    case False
    then have lt: "p_type h = PT_LOAD" "p_filesz h < p_memsz h" and b: "unat (p_memsz h) < 4294967296"
      using assms by (auto simp: segment_ok_def)
    have n: "unat (p_memsz h - p_filesz h) = unat (p_memsz h) - unat (p_filesz h)" using lt(2) by (simp add: unat_sub)
    moreover have "\<not> 2 ^ 63 \<le> unat (p_memsz h) - unat (p_filesz h)" using b by simp
    ultimately show ?thesis
      using d lt False that [of "PaddedReader (take (unat (p_filesz h)) d) (cursor_new (replicate (unat (p_memsz h - p_filesz h)) 0))"]
      by (simp add: segment_reader_def segment_image_def)
  qed
qed

lemma length_segment_image: "segment_ok elf h \<Longrightarrow> length (segment_image elf h) = unat (p_memsz h)"
  by (auto simp: segment_ok_def segment_image_def word_less_nat_alt)

lemma load_segment_ok:
  assumes m: "loadable k (memory s)" and h: "p_type h = 0x70000003 \<or> segment_ok elf h"
  obtains m' where "load_segment k elf i h s = Some (Inr (s\<lparr>memory := m'\<rparr>))" and "loadable k m'"
    and "mem_byte m' = apply_segment elf (mem_byte (memory s)) h"
proof (cases "p_type h = 0x70000003")
  case True
  with m that [of "memory s"] show ?thesis by (simp add: load_segment_def apply_segment_def)
next
  case False
  with h have ok: "segment_ok elf h" by simp
  obtain r where r: "segment_reader elf i h = Inr r" "boxed_content r = segment_image elf h" by (rule segment_reader_ok [OF ok])
  have v: "unat (p_vaddr h) + unat (p_memsz h) < 4294967296" using ok by (simp add: segment_ok_def)
  then have "unat (p_vaddr h) < 2 ^ 32" "unat (p_vaddr h + p_memsz h) = unat (p_vaddr h) + unat (p_memsz h)"
    by (simp_all add: unat_word_ariths)
  then have a: "unat (ucast (p_vaddr h) :: u32) = unat (p_vaddr h)" and rng: "\<not> 2 ^ 32 \<le> p_vaddr h + p_memsz h"
    using v by (simp_all add: unsigned_ucast_eq take_bit_nat_eq_self word_le_nat_alt)
  have len: "unat (ucast (p_vaddr h) :: u32) + length (boxed_content r) \<le> 4294967296"
    using v length_segment_image [OF ok] unfolding a r(2) by simp
  obtain m' where m': "set_memory_range k boxed_read (ucast (p_vaddr h)) r (memory s) = Some (Inr m')" "loadable k m'"
      "mem_byte m' = overwrite (unat (ucast (p_vaddr h) :: u32)) (boxed_content r) (mem_byte (memory s))"
    by (rule bx.range_loadable [OF m len])
  with False r rng a show ?thesis by (intro that [of m']) (simp_all add: load_segment_def apply_segment_def)
qed

lemma load_segments_ok:
  assumes "loadable k (memory s)" and "\<forall>h \<in> set hs. p_type h = 0x70000003 \<or> segment_ok elf h"
  shows "\<exists>m'. load_segments k elf i hs s = Some (Inr (s\<lparr>memory := m'\<rparr>)) \<and> loadable k m'
    \<and> mem_byte m' = foldl (apply_segment elf) (mem_byte (memory s)) hs"
  using assms
proof (induction hs arbitrary: i s)
  case Nil
  then show ?case by (intro exI [of _ "memory s"]) simp
next
  case (Cons h hs)
  have h: "p_type h = 0x70000003 \<or> segment_ok elf h" using Cons.prems(2) by auto
  obtain m1 where m1: "load_segment k elf i h s = Some (Inr (s\<lparr>memory := m1\<rparr>))" "loadable k m1"
      "mem_byte m1 = apply_segment elf (mem_byte (memory s)) h"
    by (rule load_segment_ok [OF Cons.prems(1) h])
  with Cons.IH [of "s\<lparr>memory := m1\<rparr>" "i + 1"] Cons.prems(2) show ?case by simp
qed

section \<open>Symbols\<close>

definition symbol_ok :: "(nat \<Rightarrow> string res) \<Rightarrow> elf_symbol \<Rightarrow> bool" where
  "symbol_ok string_table y \<longleftrightarrow> (\<exists>name. string_table (unat (st_name y)) = Inr name
     \<and> (name \<in> set GO_SYMBOLS \<longrightarrow> unat (ucast (st_value y) :: u32) + 8 \<le> 4294967296)
     \<and> (name = ''runtime.MemProfileRate'' \<longrightarrow> unat (ucast (st_value y) :: u32) mod 4 = 0))"

definition apply_symbol :: "(nat \<Rightarrow> string res) \<Rightarrow> (nat \<Rightarrow> u8) \<Rightarrow> elf_symbol \<Rightarrow> nat \<Rightarrow> u8" where
  "apply_symbol string_table f y =
    (case string_table (unat (st_name y)) of
       Inl e \<Rightarrow> f
     | Inr name \<Rightarrow>
         if name \<in> set GO_SYMBOLS then overwrite (unat (ucast (st_value y) :: u32)) (u32_be 0x03e00008 @ u32_be 0) f
         else if name = ''runtime.MemProfileRate'' then overwrite (unat (ucast (st_value y) :: u32)) (u32_be 0) f
         else f)"

text \<open>\<open>jr $ra\<close> and \<open>nop\<close>, as the bytes that are written.\<close>

lemma ret_bytes: "[0x03, 0xe0, 0x00, 0x08, 0x00, 0x00, 0x00, 0x00] = u32_be 0x03e00008 @ u32_be 0"
  by code_simp

lemma patch_symbol_ok:
  assumes m: "loadable k (memory s)" and y: "symbol_ok string_table y"
  obtains m' where "patch_symbol k string_table y s = Some (Inr (s\<lparr>memory := m'\<rparr>))" and "loadable k m'"
    and "mem_byte m' = apply_symbol string_table (mem_byte (memory s)) y"
proof -
  let ?a = "ucast (st_value y) :: u32"
  obtain name where n: "string_table (unat (st_name y)) = Inr name" using y by (auto simp: symbol_ok_def)
  consider "name \<in> set GO_SYMBOLS" | "name \<notin> set GO_SYMBOLS" "name = ''runtime.MemProfileRate''"
    | "name \<notin> set GO_SYMBOLS" "name \<noteq> ''runtime.MemProfileRate''" by blast
  then show ?thesis
  proof cases
    case 1
    then have len: "unat ?a + length (u32_be 0x03e00008 @ u32_be 0) \<le> 4294967296" using y n by (simp add: symbol_ok_def)
    obtain m' where "set_memory_range k slice_read ?a (u32_be 0x03e00008 @ u32_be 0) (memory s) = Some (Inr m')" "loadable k m'"
        "mem_byte m' = overwrite (unat ?a) (u32_be 0x03e00008 @ u32_be 0) (mem_byte (memory s))"
      by (rule sl.range_loadable [OF m len])
    with 1 n show ?thesis by (intro that [of m']) (simp_all only: patch_symbol_def apply_symbol_def obind_simps ret_bytes if_True sum.case)
  next
    case 2
    then have al: "unat ?a mod 4 = 0" using y n by (simp add: symbol_ok_def)
    obtain m' where "set_memory k ?a 0 (memory s) = Inr m'" "loadable k m'" "mem_byte m' = overwrite (unat ?a) (u32_be 0) (mem_byte (memory s))"
      by (rule set_memory_loadable [OF m al])
    with 2 n show ?thesis by (intro that [of m']) (simp_all add: patch_symbol_def apply_symbol_def del: be_bytes.simps)
  next
    case 3
    with m n show ?thesis by (intro that [of "memory s"]) (simp_all add: patch_symbol_def apply_symbol_def)
  qed
qed

lemma patch_symbols_ok:
  assumes "loadable k (memory s)" and "\<forall>y \<in> set ys. symbol_ok string_table y"
  shows "\<exists>m'. patch_symbols k string_table ys s = Some (Inr (s\<lparr>memory := m'\<rparr>)) \<and> loadable k m'
    \<and> mem_byte m' = foldl (apply_symbol string_table) (mem_byte (memory s)) ys"
  using assms
proof (induction ys arbitrary: s)
  case Nil
  then show ?case by (intro exI [of _ "memory s"]) simp
next
  case (Cons y ys)
  have y: "symbol_ok string_table y" using Cons.prems(2) by simp
  obtain m1 where m1: "patch_symbol k string_table y s = Some (Inr (s\<lparr>memory := m1\<rparr>))" "loadable k m1"
      "mem_byte m1 = apply_symbol string_table (mem_byte (memory s)) y"
    by (rule patch_symbol_ok [OF Cons.prems(1) y])
  with Cons.IH [of "s\<lparr>memory := m1\<rparr>"] Cons.prems(2) show ?case by simp
qed

section \<open>The stack image\<close>

lemma overwrite_within:
  assumes "n + length bs \<le> length xs"
  shows "overwrite (a + n) bs (overwrite a xs f) = overwrite a (copy_from_slice n bs xs) f"
  using assms by (auto simp: overwrite_def fun_eq_iff nth_copy_from_slice)

lemma store_mem_ok:
  assumes m: "loadable k (memory st)" and al: "unat a mod 4 = 0" and n: "4 \<le> n"
    and b: "mem_byte (memory st) = overwrite base (pre @ replicate n 0) f" and a: "unat a = base + length pre"
  obtains m' where "store_mem k a v st = Inr (st\<lparr>memory := m'\<rparr>)" and "loadable k m'"
    and "mem_byte m' = overwrite base ((pre @ u32_be v) @ replicate (n - 4) 0) f"
proof -
  obtain m' where m': "set_memory k a v (memory st) = Inr m'" "loadable k m'" "mem_byte m' = overwrite (unat a) (u32_be v) (mem_byte (memory st))"
    by (rule set_memory_loadable [OF m al])
  have "overwrite (base + length pre) (u32_be v) (overwrite base (pre @ replicate n 0) f)
      = overwrite base (pre @ u32_be v @ replicate (n - 4) 0) f"
    using n copy_append [OF refl, of pre "u32_be v" n 0] by (subst overwrite_within) (simp_all del: be_bytes.simps)
  with m' b a show ?thesis by (intro that [of m']) (simp_all add: store_mem_def del: be_bytes.simps)
qed

definition stack_words :: bytes where
  "stack_words = u32_be 0x42 @ u32_be 0x35 @ u32_be 0 @ u32_be 6 @ u32_be 4096 @ u32_be 25 @ u32_be 0x7FFFD024 @ u32_be 0"

definition stack_image :: bytes where
  "stack_image = replicate 16388 0 @ stack_words @ str_bytes ''4;byfairdiceroll'' @ replicate 4044 0"

lemma length_dice: "length (str_bytes ''4;byfairdiceroll'') = 16"
  by (simp add: str_bytes_def)

text \<open>The stores of the words, as a loop.\<close>

primrec store_all :: "hash_fn \<Rightarrow> u32 \<Rightarrow> u32 list \<Rightarrow> state \<Rightarrow> state res" where
  "store_all k a [] st = Inr st"
| "store_all k a (v # vs) st = rbind (store_mem k a v st) (store_all k (a + 4) vs)"

lemma rbind_right [simp]: "rbind r Inr = r"
  by (cases r) simp_all

lemma store_all_ok:
  assumes "loadable k (memory st)" and "unat a mod 4 = 0" and "4 * length vs \<le> n" and "base + length pre + n < 4294967296"
    and "mem_byte (memory st) = overwrite base (pre @ replicate n 0) f" and "unat a = base + length pre"
  shows "\<exists>m'. store_all k a vs st = Inr (st\<lparr>memory := m'\<rparr>) \<and> loadable k m'
    \<and> mem_byte m' = overwrite base (pre @ concat (map u32_be vs) @ replicate (n - 4 * length vs) 0) f"
  using assms
proof (induction vs arbitrary: a n pre st)
  case Nil
  then show ?case by (intro exI [of _ "memory st"]) simp
next
  case (Cons v vs)
  have n: "4 \<le> n" using Cons.prems(3) by simp
  obtain m1 where m1: "store_mem k a v st = Inr (st\<lparr>memory := m1\<rparr>)" "loadable k m1"
      "mem_byte m1 = overwrite base ((pre @ u32_be v) @ replicate (n - 4) 0) f"
    by (rule store_mem_ok [OF Cons.prems(1,2) n Cons.prems(5,6)])
  have a: "unat (a + 4) = unat a + 4" using Cons.prems(4,6) n by (simp add: unat_word_ariths)
  then have "unat (a + 4) mod 4 = 0" using Cons.prems(2) by simp
  moreover have "base + length (pre @ u32_be v) + (n - 4) < 4294967296" "unat (a + 4) = base + length (pre @ u32_be v)"
    "4 * length vs \<le> n - 4" using Cons.prems(3,4,6) n a by simp_all
  ultimately obtain m2 where "store_all k (a + 4) vs (st\<lparr>memory := m1\<rparr>) = Inr (st\<lparr>memory := m2\<rparr>)" "loadable k m2"
      "mem_byte m2 = overwrite base ((pre @ u32_be v) @ concat (map u32_be vs) @ replicate (n - 4 - 4 * length vs) 0) f"
    using Cons.IH [of "st\<lparr>memory := m1\<rparr>" "a + 4" "n - 4" "pre @ u32_be v"] m1(2,3) by auto
  with m1(1) show ?case by (intro exI [of _ m2]) (simp add: diff_diff_left del: be_bytes.simps)
qed

lemma patch_stack_ok:
  assumes m: "loadable k (memory s)"
  obtains m' where "patch_stack k s = Some (Inr (s\<lparr>registers := (registers s)[29 := 0x7FFFD000], memory := m'\<rparr>))"
    and "loadable k m'" and "mem_byte m' = overwrite 0x7FFF9000 stack_image (mem_byte (memory s))"
proof -
  let ?f = "mem_byte (memory s)" and ?z = "replicate 16388 (0 :: u8)"
  let ?vs = "[0x42, 0x35, 0, 6, 4096, 25, 0x7FFFD024, 0] :: u32 list"
  have len: "unat (0x7FFF9000 :: u32) + length (replicate 20480 (0 :: u8)) \<le> 4294967296" by simp
  obtain m1 where m1: "set_memory_range k slice_read 0x7FFF9000 (replicate 20480 0) (memory s) = Some (Inr m1)" "loadable k m1"
      "mem_byte m1 = overwrite (unat (0x7FFF9000 :: u32)) (replicate 20480 0) ?f"
    by (rule sl.range_loadable [OF m len])
  have b1: "mem_byte m1 = overwrite 0x7FFF9000 (?z @ replicate 4092 0) ?f" using m1(3) by (simp add: replicate_add [symmetric])
  let ?s1 = "s\<lparr>memory := m1, registers := (registers s)[29 := 0x7FFFD000]\<rparr>"
  obtain m2 where m2: "store_all k 0x7FFFD004 ?vs ?s1 = Inr (?s1\<lparr>memory := m2\<rparr>)" "loadable k m2"
      "mem_byte m2 = overwrite 0x7FFF9000 (?z @ concat (map u32_be ?vs) @ replicate (4092 - 4 * length ?vs) 0) ?f"
    using store_all_ok [of k ?s1 "0x7FFFD004" ?vs 4092 "0x7FFF9000" ?z ?f] m1(2) b1 by auto
  have b2: "mem_byte m2 = overwrite 0x7FFF9000 ((?z @ stack_words) @ replicate 4060 0) ?f"
    using m2(3) by (simp add: stack_words_def del: be_bytes.simps)
  let ?d = "str_bytes ''4;byfairdiceroll''"
  have dl: "unat (0x7FFFD024 :: u32) + length ?d \<le> 4294967296" by (simp add: length_dice)
  obtain m3 where m3: "set_memory_range k slice_read 0x7FFFD024 ?d m2 = Some (Inr m3)" "loadable k m3"
      "mem_byte m3 = overwrite (unat (0x7FFFD024 :: u32)) ?d (mem_byte m2)"
    by (rule sl.range_loadable [OF m2(2) dl])
  have lw: "length (?z @ stack_words) = 16420" by (simp add: stack_words_def)
  have "overwrite (0x7FFF9000 + 16420) ?d (mem_byte m2) = overwrite 0x7FFF9000 ((?z @ stack_words) @ ?d @ replicate (4060 - 16) 0) ?f"
    unfolding b2 using copy_append [OF lw, of ?d 4060 0] lw by (subst overwrite_within) (simp_all add: length_dice)
  then have "mem_byte m3 = overwrite 0x7FFF9000 stack_image ?f" using m3(3) by (simp add: stack_image_def)
  moreover have "patch_stack k s = Some (Inr (s\<lparr>registers := (registers s)[29 := 0x7FFFD000], memory := m3\<rparr>))"
    using m1(1) m2(1) m3(1) by (auto simp: patch_stack_def Let_def)
  ultimately show ?thesis using m3(2) by (intro that)
qed

section \<open>Properties\<close>

text \<open>Loading. If every segment of the file is well formed, the loader ends and succeeds. The program
  counter is the entry point and the heap starts at \<open>0x20000000\<close>; the memory holds the segments
  written one after the other, each padded with zeros to its memory size, over a memory of zeros.\<close>

lemma load_elf_ok:
  assumes "minimal_parse raw = Inr elf" and "elf_segments elf = Some hs"
    and "\<forall>h \<in> set hs. p_type h = 0x70000003 \<or> segment_ok elf h"
  obtains m' where "load_elf k minimal_parse raw
      = Some (Inr (state_default\<lparr>pc := ucast (e_entry elf), next_pc := ucast (e_entry elf) + 4, heap := 0x20000000, memory := m'\<rparr>))"
    and "loadable k m'" and "mem_byte m' = foldl (apply_segment elf) (\<lambda>_. 0) hs"
proof -
  let ?s = "state_default\<lparr>pc := ucast (e_entry elf), next_pc := ucast (e_entry elf) + 4, heap := 0x20000000\<rparr>"
  have d: "memory ?s = memory_default" by (simp add: state_default_def)
  have ld: "loadable k (memory ?s)" unfolding d by (rule loadable_default)
  obtain m' where m': "load_segments k elf 0 hs ?s = Some (Inr (?s\<lparr>memory := m'\<rparr>))" "loadable k m'"
      "mem_byte m' = foldl (apply_segment elf) (mem_byte (memory ?s)) hs"
    using load_segments_ok [OF ld assms(3)] by blast
  have "mem_byte (memory ?s) = (\<lambda>_. 0)" unfolding d by (rule mem_byte_default_fun)
  with m' assms(1,2) show ?thesis by (intro that [of m']) (simp_all add: load_elf_def)
qed

definition demo_segment :: elf_segment where
  "demo_segment = \<lparr>p_type = 1, p_vaddr = 0x1000, p_filesz = 3, p_memsz = 5\<rparr>"

definition demo_elf :: elf_file where
  "demo_elf = \<lparr>e_entry = 0x1000, elf_segments = Some [demo_segment], elf_segment_data = (\<lambda>_. Inr [7, 8, 9]),
     elf_symbol_table = Inr (Some ([\<lparr>st_name = 1, st_value = 0x2000\<rparr>], \<lambda>i. Inr ''runtime.check''))\<rparr>"

text \<open>C24. Refused segments. Loading fails at the first segment that has more bytes in the file than in
  memory, that needs padding without being a \<open>PT_LOAD\<close> segment, or whose end, computed with wrap-around in 64 bits, is not
  below \<open>2^32\<close>, whether it is padded or not, with an error that names its number; padding of \<open>2^63\<close> bytes or more panics.\<close>

theorem load_elf_refuses:
  assumes "minimal_parse raw = Inr elf" and "elf_segments elf = Some (hs @ h # rest)"
    and "\<forall>g \<in> set hs. p_type g = 0x70000003 \<or> segment_ok elf g" and "p_type h \<noteq> 0x70000003"
    and "elf_segment_data elf h = Inr d" and "unat (p_filesz h) \<le> length d"
  shows "(p_filesz h \<noteq> p_memsz h \<and> p_type h \<noteq> PT_LOAD \<longrightarrow> load_elf k minimal_parse raw = Some (Inl (SegmentPadding (length hs))))
    \<and> (p_memsz h < p_filesz h \<and> p_type h = PT_LOAD \<longrightarrow> load_elf k minimal_parse raw = Some (Inl (SegmentTooLarge (length hs))))
    \<and> ((p_filesz h = p_memsz h \<or> p_type h = PT_LOAD \<and> p_filesz h < p_memsz h \<and> unat (p_memsz h - p_filesz h) < 2 ^ 63)
        \<and> 2 ^ 32 \<le> p_vaddr h + p_memsz h \<longrightarrow> load_elf k minimal_parse raw = Some (Inl (SegmentOutOfRange (length hs))))
    \<and> (p_type h = PT_LOAD \<and> p_filesz h < p_memsz h \<and> 2 ^ 63 \<le> unat (p_memsz h - p_filesz h) \<longrightarrow> load_elf k minimal_parse raw = Some (Inl PanicCapacity))"
proof -
  let ?s = "state_default\<lparr>pc := ucast (e_entry elf), next_pc := ucast (e_entry elf) + 4, heap := 0x20000000\<rparr>"
  have d: "memory ?s = memory_default" by (simp add: state_default_def)
  have ld: "loadable k (memory ?s)" unfolding d by (rule loadable_default)
  obtain m' where m': "load_segments k elf 0 hs ?s = Some (Inr (?s\<lparr>memory := m'\<rparr>))"
    using load_segments_ok [OF ld assms(3)] by blast
  have app: "load_segments k elf i (xs @ ys) t = obind (load_segments k elf i xs t) (load_segments k elf (i + length xs) ys)" for i xs ys t
  proof (induction xs arbitrary: i t)
    case (Cons x xs)
    show ?case
    proof (cases "load_segment k elf i x t")
      case (Some r)
      then show ?thesis by (cases r) (simp_all add: Cons)
    qed simp
  qed simp
  have e: "load_elf k minimal_parse raw = obind (load_segment k elf (length hs) h (?s\<lparr>memory := m'\<rparr>)) (load_segments k elf (length hs + 1) rest)"
    using assms(1,2) m' app by (simp add: load_elf_def)
  have r: "segment_reader elf (length hs) h = Inl (SegmentPadding (length hs))" if "p_filesz h \<noteq> p_memsz h" "p_type h \<noteq> PT_LOAD"
    using that assms(5,6) by (simp add: segment_reader_def Let_def)
  have t: "segment_reader elf (length hs) h = Inl (SegmentTooLarge (length hs))" if "p_memsz h < p_filesz h" "p_type h = PT_LOAD"
    using that assms(5,6) by (simp add: segment_reader_def Let_def less_not_sym)
  have o: "segment_reader elf (length hs) h = Inr (SliceReader (take (unat (p_filesz h)) d))" if "p_filesz h = p_memsz h"
    using that assms(5,6) by (simp add: segment_reader_def Let_def)
  have p: "segment_reader elf (length hs) h
      = Inr (PaddedReader (take (unat (p_filesz h)) d) (cursor_new (replicate (unat (p_memsz h - p_filesz h)) 0)))"
    if "p_type h = PT_LOAD" "p_filesz h < p_memsz h" "unat (p_memsz h - p_filesz h) < 2 ^ 63"
    using that assms(5,6) by (simp add: segment_reader_def Let_def not_le less_imp_neq)
  have c: "segment_reader elf (length hs) h = Inl PanicCapacity"
    if "p_type h = PT_LOAD" "p_filesz h < p_memsz h" "2 ^ 63 \<le> unat (p_memsz h - p_filesz h)"
    using that assms(5,6) by (simp add: segment_reader_def Let_def less_imp_neq)
  have out: "load_elf k minimal_parse raw = Some (Inl (SegmentOutOfRange (length hs)))"
    if "segment_reader elf (length hs) h = Inr rd" "2 ^ 32 \<le> p_vaddr h + p_memsz h" for rd
    unfolding e using assms(4) that by (simp add: load_segment_def)
  have err: "load_elf k minimal_parse raw = Some (Inl x)" if "segment_reader elf (length hs) h = Inl x" for x
    unfolding e using assms(4) that by (simp add: load_segment_def)
  show ?thesis using err r t c out o p by blast
qed

theorem load_elf_refuses_witness:
  "load_elf (\<lambda>_. zero32) (\<lambda>_. Inr (demo_elf\<lparr>elf_segments := Some [demo_segment, demo_segment\<lparr>p_memsz := 2\<rparr>]\<rparr>)) []
    = Some (Inl (SegmentTooLarge 1))"
proof -
  let ?h = "demo_segment\<lparr>p_memsz := 2\<rparr>"
  let ?e = "demo_elf\<lparr>elf_segments := Some ([demo_segment] @ ?h # [])\<rparr>"
  have "\<forall>g \<in> set [demo_segment]. p_type g = 0x70000003 \<or> segment_ok ?e g"
    by (simp add: segment_ok_def demo_segment_def demo_elf_def)
  from load_elf_refuses [of "\<lambda>_. Inr ?e" "[]" ?e "[demo_segment]" ?h "[]" "[7, 8, 9]" "\<lambda>_. zero32", OF _ _ this]
  show ?thesis by (simp add: demo_segment_def demo_elf_def)
qed

text \<open>Patching Go. With readable names and aligned targets, \<open>patch_go\<close> writes \<open>jr $ra; nop\<close> over every
  listed function and zero over the memory profile rate, in the order of the symbol table, and
  changes nothing else of the state.\<close>

lemma patch_go_ok:
  assumes "loadable k (memory s)" and "minimal_parse raw = Inr elf"
    and "elf_symbol_table elf = Inr (Some (ys, string_table))" and "\<forall>y \<in> set ys. symbol_ok string_table y"
  shows "\<exists>m'. patch_go k minimal_parse raw s = Some (Inr (s\<lparr>memory := m'\<rparr>)) \<and> loadable k m'
    \<and> mem_byte m' = foldl (apply_symbol string_table) (mem_byte (memory s)) ys"
  using patch_symbols_ok [OF assms(1,4)] assms(2,3) by (simp add: patch_go_def)

text \<open>C25. The stack. \<open>patch_stack\<close> sets the stack pointer to \<open>0x7FFFD000\<close> and replaces the five pages from
  \<open>0x7FFF9000\<close> on by one image: zeros, the eight words from \<open>0x7FFFD004\<close> on, the sixteen bytes that the
  seventh word points to, and zeros again. Nothing else changes.\<close>

theorem patch_stack_image:
  assumes "loadable k (memory s)"
  shows "\<exists>m'. patch_stack k s = Some (Inr (s\<lparr>registers := (registers s)[29 := 0x7FFFD000], memory := m'\<rparr>)) \<and> loadable k m'
    \<and> mem_byte m' = overwrite 0x7FFF9000 (replicate 16388 0
        @ u32_be 0x42 @ u32_be 0x35 @ u32_be 0 @ u32_be 6 @ u32_be 4096 @ u32_be 25 @ u32_be 0x7FFFD024 @ u32_be 0
        @ str_bytes ''4;byfairdiceroll'' @ replicate 4044 0) (mem_byte (memory s))"
proof (rule patch_stack_ok [OF assms])
  fix m'
  assume "patch_stack k s = Some (Inr (s\<lparr>registers := (registers s)[29 := 0x7FFFD000], memory := m'\<rparr>))" and "loadable k m'"
    and "mem_byte m' = overwrite 0x7FFF9000 stack_image (mem_byte (memory s))"
  then show ?thesis by (intro exI [of _ m']) (simp only: stack_image_def stack_words_def append_assoc simp_thms)
qed

theorem patch_stack_image_witness:
  "\<exists>s'. patch_stack (\<lambda>_. zero32) state_default = Some (Inr s') \<and> registers s' ! 29 = 0x7FFFD000 \<and> loadable (\<lambda>_. zero32) (memory s')"
proof -
  have "loadable (\<lambda>_. zero32) (memory state_default)" by (simp add: state_default_def loadable_default)
  from patch_stack_image [OF this] obtain m' where
    "patch_stack (\<lambda>_. zero32) state_default = Some (Inr (state_default\<lparr>registers := (registers state_default)[29 := 0x7FFFD000], memory := m'\<rparr>))"
    "loadable (\<lambda>_. zero32) m'" by blast
  then show ?thesis
    by (intro exI [of _ "state_default\<lparr>registers := (registers state_default)[29 := 0x7FFFD000], memory := m'\<rparr>"]) (simp add: state_default_def)
qed

end
