(* ===== verification/Memory_History.thy ===== *)
theory Memory_History
  imports Patch Demo
begin

text \<open>
  The memory over whole histories. A history is a sequence of operations on a fresh memory: ranges that are filled, as the loader
  does, words stored and loaded, roots and branches asked for. It is compared with a plain array of bytes, on
  which a root is that of the reference tree over the array and a branch is its path in that tree. The two give the
  same answers, as long as no range is filled after a hash has been computed, which is how the program uses them;
  \<open>Memory_IO\<close> shows what happens otherwise.
\<close>

section \<open>Histories\<close>

datatype mem_op = OpFill u32 bytes | OpStore u32 u32 | OpLoad u32 | OpRoot | OpBranch u32

datatype mem_answer = Finished | Word u32 | Hash bytes | Refused error

text \<open>The operations of \<open>Memory\<close>. An operation that is refused leaves the memory alone; \<open>None\<close> is a range that never ends.\<close>

fun mem_do :: "hash_fn \<Rightarrow> mem_op \<Rightarrow> memory \<Rightarrow> (mem_answer \<times> memory) option" where
  "mem_do k (OpFill a bs) m =
    (case set_memory_range k slice_read a bs m of
       None \<Rightarrow> None | Some (Inl e) \<Rightarrow> Some (Refused e, m) | Some (Inr m1) \<Rightarrow> Some (Finished, m1))"
| "mem_do k (OpStore a v) m = Some (case set_memory k a v m of Inl e \<Rightarrow> (Refused e, m) | Inr m1 \<Rightarrow> (Finished, m1))"
| "mem_do k (OpLoad a) m = Some (case get_memory a m of Inl e \<Rightarrow> (Refused e, m) | Inr (w, m1) \<Rightarrow> (Word w, m1))"
| "mem_do k OpRoot m = Some (case merkle_root k m of Inl e \<Rightarrow> (Refused e, m) | Inr (h, m1) \<Rightarrow> (Hash h, m1))"
| "mem_do k (OpBranch a) m = Some (case merkle_proof k a m of Inl e \<Rightarrow> (Refused e, m) | Inr (b, m1) \<Rightarrow> (Hash b, m1))"

primrec mem_run :: "hash_fn \<Rightarrow> mem_op list \<Rightarrow> memory \<Rightarrow> (mem_answer list \<times> memory) option" where
  "mem_run k [] m = Some ([], m)"
| "mem_run k (op # ops) m =
    (case mem_do k op m of
       None \<Rightarrow> None
     | Some (x, m1) \<Rightarrow> (case mem_run k ops m1 of None \<Rightarrow> None | Some (xs, m2) \<Rightarrow> Some (x # xs, m2)))"

section \<open>The array\<close>

definition array_leaf :: "(nat \<Rightarrow> u8) \<Rightarrow> nat \<Rightarrow> bytes" where
  "array_leaf f j = map f [32 * j..<32 * j + 32]"

fun array_do :: "hash_fn \<Rightarrow> mem_op \<Rightarrow> (nat \<Rightarrow> u8) \<Rightarrow> mem_answer \<times> (nat \<Rightarrow> u8)" where
  "array_do k (OpFill a bs) f = (Finished, overwrite (unat a) bs f)"
| "array_do k (OpStore a v) f = (if unat a mod 4 = 0 then (Finished, overwrite (unat a) (u32_be v) f) else (Refused (UnalignedAccess a), f))"
| "array_do k (OpLoad a) f = (if unat a mod 4 = 0 then Word (word_at f a) else Refused (UnalignedAccess a), f)"
| "array_do k OpRoot f = (Hash (subtree k (array_leaf f) 27 0), f)"
| "array_do k (OpBranch a) f = (Hash (concat (array_leaf f (unat a div 32) # siblings k (array_leaf f) 0 27 (unat a div 32))), f)"

primrec array_run :: "hash_fn \<Rightarrow> mem_op list \<Rightarrow> (nat \<Rightarrow> u8) \<Rightarrow> mem_answer list \<times> (nat \<Rightarrow> u8)" where
  "array_run k [] f = ([], f)"
| "array_run k (op # ops) f = (case array_do k op f of (x, f1) \<Rightarrow> case array_run k ops f1 of (xs, f2) \<Rightarrow> (x # xs, f2))"

text \<open>Ranges stay inside the address space, and come before the first hash.\<close>

fun in_range :: "mem_op \<Rightarrow> bool" where
  "in_range (OpFill a bs) = (unat a + length bs \<le> 4294967296)"
| "in_range _ = True"

fun fills :: "mem_op \<Rightarrow> bool" where
  "fills (OpFill a bs) = True"
| "fills _ = False"

fun hashes :: "mem_op \<Rightarrow> bool" where
  "hashes OpRoot = True"
| "hashes (OpBranch a) = True"
| "hashes _ = False"

primrec fills_first :: "mem_op list \<Rightarrow> bool" where
  "fills_first [] = True"
| "fills_first (op # ops) = (if hashes op then list_all (\<lambda>op. \<not> fills op) ops else fills_first ops)"

section \<open>The memory answers like the array\<close>

lemma array_leaf_mem: "array_leaf (mem_byte m) = mem_leaf m"
  by (simp add: array_leaf_def mem_leaf_def fun_eq_iff)

lemma mem_do_array:
  assumes k: "hash32 k" and ok: "mem_ok k m" and fill: "fills op \<Longrightarrow> cold m" and r: "in_range op"
  shows "\<exists>m'. mem_do k op m = Some (fst (array_do k op (mem_byte m)), m') \<and> mem_ok k m' \<and> mem_byte m' = snd (array_do k op (mem_byte m))
    \<and> (cold m \<and> \<not> hashes op \<longrightarrow> cold m')"
proof (cases op)
  case (OpFill a bs)
  then have l: "loadable k m" using ok fill by (simp add: loadable_def)
  obtain m' where "set_memory_range k slice_read a bs m = Some (Inr m')" "loadable k m'" "mem_byte m' = overwrite (unat a) bs (mem_byte m)"
    by (rule sl.range_loadable [OF l, of a bs]) (use r OpFill in simp)
  with OpFill show ?thesis by (simp add: loadable_def)
next
  case (OpStore a v)
  show ?thesis
  proof (cases "unat a mod 4 = 0")
    case True
    obtain m' where m': "set_memory k a v m = Inr m'" "mem_ok k m'" "mem_byte m' = overwrite (unat a) (u32_be v) (mem_byte m)"
      by (rule set_memory_ok [OF ok True])
    have "cold m \<longrightarrow> cold m'" using coldI [OF m'(2)] set_memory_uncached [OF m'(1)] by (auto simp: cold_def)
    with m' True OpStore show ?thesis by simp
  qed (use OpStore ok in \<open>simp add: set_memory_unaligned\<close>)
next
  case (OpLoad a)
  show ?thesis
  proof (cases "unat a mod 4 = 0")
    case True
    obtain lp where "get_memory a m = Inr (mem_word m a, m\<lparr>last_page := lp\<rparr>)" "mem_ok k (m\<lparr>last_page := lp\<rparr>)"
      by (rule get_memory_ok [OF ok True])
    moreover have "cold (m\<lparr>last_page := lp\<rparr>) = cold m" by (simp add: cold_def)
    ultimately show ?thesis using True OpLoad by (simp add: mem_word_def mem_byte_fields del: upt_rec_numeral)
  qed (use OpLoad ok in \<open>simp add: get_memory_unaligned\<close>)
next
  case OpRoot
  obtain m' where "merkle_root k m = Inr (subtree k (mem_leaf m) 27 0, m')" "mem_ok k m'" "mem_extends m m'"
    by (rule merkle_root_ok [OF ok])
  moreover from this(3) have "mem_byte m' = mem_byte m" by (rule mem_extends_byte [OF mem_okD(1) [OF ok]])
  ultimately show ?thesis using OpRoot by (simp add: array_leaf_mem del: subtree.simps)
next
  case (OpBranch a)
  obtain m' where "merkle_proof k a m = Inr (branch_of k m a, m')" "mem_ok k m'" "mem_extends m m'"
    by (rule merkle_proof_ok [OF ok k, of a]) (simp add: branch_of_def)
  moreover from this(3) have "mem_byte m' = mem_byte m" by (rule mem_extends_byte [OF mem_okD(1) [OF ok]])
  ultimately show ?thesis using OpBranch by (simp add: array_leaf_mem branch_of_def del: subtree.simps)
qed

lemma no_fills_first: "list_all (\<lambda>op. \<not> fills op) ops \<Longrightarrow> fills_first ops"
  by (induction ops) auto

lemma mem_run_array:
  assumes k: "hash32 k" and "mem_ok k m" and "cold m \<and> fills_first ops \<or> list_all (\<lambda>op. \<not> fills op) ops" and "list_all in_range ops"
  shows "\<exists>m'. mem_run k ops m = Some (fst (array_run k ops (mem_byte m)), m') \<and> mem_ok k m' \<and> mem_byte m' = snd (array_run k ops (mem_byte m))"
  using assms(2-4)
proof (induction ops arbitrary: m)
  case (Cons op ops)
  have "fills op \<Longrightarrow> cold m" using Cons.prems(2) by auto
  then obtain m1 where m1: "mem_do k op m = Some (fst (array_do k op (mem_byte m)), m1)" "mem_ok k m1"
      "mem_byte m1 = snd (array_do k op (mem_byte m))" "cold m \<and> \<not> hashes op \<longrightarrow> cold m1"
    using mem_do_array [OF k Cons.prems(1), of op] Cons.prems(3) by auto
  have "cold m1 \<and> fills_first ops \<or> list_all (\<lambda>op. \<not> fills op) ops" using Cons.prems(2) m1(4) by (auto split: if_splits)
  from Cons.IH [OF m1(2) this] Cons.prems(3) m1(1,3) show ?case by (auto simp: split_def)
qed simp

section \<open>Properties\<close>

text \<open>C9. Histories of the memory. Take any sequence of operations on a fresh memory, with ranges inside the address
  space and none filled after the first hash. It runs to its end, and every answer is that of an array of bytes that starts with zeros: a
  word loaded is the word at its address, an access to an unaligned address is refused, a root is the root of
  the reference tree over the whole array at that point, and a branch is the path of its leaf in that tree. So roots
  do not depend on which pages are allocated, what the caches hold or in which order the contents came about.\<close>

theorem memory_history:
  assumes "hash32 k" and "list_all in_range ops" and "fills_first ops"
  shows "\<exists>m'. mem_run k ops memory_default = Some (fst (array_run k ops (\<lambda>_. 0)), m') \<and> mem_byte m' = snd (array_run k ops (\<lambda>_. 0))"
proof -
  have "mem_byte memory_default = (\<lambda>_. 0)" by (simp add: fun_eq_iff mem_byte_def memory_default_def)
  then show ?thesis using mem_run_array [OF assms(1) memory_default_ok _ assms(2)] assms(3) cold_default by auto
qed

theorem memory_history_witness:
  "\<exists>m'. mem_run demo_hash [OpFill 0x1FFE [1, 2, 3, 4], OpStore 0x2000 5, OpRoot, OpLoad 0x1FFC, OpStore 0x2001 6, OpLoad 0x2000] memory_default
    = Some ([Finished, Finished,
        Hash (subtree demo_hash (array_leaf (overwrite 0x2000 (u32_be 5) (overwrite 0x1FFE [1, 2, 3, 4] (\<lambda>_. 0)))) 27 0),
        Word 0x0102, Refused (UnalignedAccess 0x2001), Word 5], m')"
proof -
  let ?ops = "[OpFill 0x1FFE [1, 2, 3, 4], OpStore 0x2000 5, OpRoot, OpLoad 0x1FFC, OpStore 0x2001 6, OpLoad 0x2000]"
  let ?f = "overwrite 0x2000 (u32_be 5) (overwrite 0x1FFE [1, 2, 3, 4] (\<lambda>_. 0)) :: nat \<Rightarrow> u8"
  have "map (\<lambda>i. ?f (unat (0x1FFC :: u32) + i)) [0..<4] = [0, 0, 1, 2]"
    by (simp add: overwrite_def upt_rec)
  then have "word_at ?f 0x1FFC = 0x0102" by (simp only: from_be_def) simp
  moreover have "word_at ?f 0x2000 = 5" using word_at_overwrite_same [where a = "0x2000" and v = 5] by simp
  moreover have "list_all in_range ?ops" "fills_first ?ops" by simp_all
  ultimately show ?thesis
    using memory_history [OF demo_hash32, of ?ops] by (auto simp del: subtree.simps be_bytes.simps upt_rec_numeral)
qed

end
