(* ===== verification/Mips_Ref.thy ===== *)
theory Mips_Ref
  imports Memory_Spec
begin

text \<open>
  The instruction set that the machine is meant to implement, as an abstract processor: registers as
  a function, memory as an array of bytes, integers instead of masks. \<open>instr\<close> is the abstract syntax
  of the instructions of user mode, \<open>encode\<close> their encoding in 32 bits, and \<open>isa_step\<close> what the
  architecture requires of each. \<open>None\<close> stands for an exception (an overflow of \<open>add\<close>, an address
  that is not aligned) or for an outcome that the architecture leaves open (a branch in a delay slot, a
  division by zero). Register zero is never written, so it keeps the zero that a program starts with. System
  calls are not part of it, nor are the instructions that the machine does not know: traps, branches with
  link, likely branches, multiplication with accumulation.
\<close>

section \<open>Instructions\<close>

type_synonym reg = "5 word"
type_synonym imm = "16 word"

datatype shift_op = Sll | Srl | Sra
datatype alu_op = Add | Addu | Sub | Subu | And | Or | Xor | Nor | Slt | Sltu
datatype imm_op = Addi | Addiu | Slti | Sltiu | Andi | Ori | Xori
datatype muldiv_op = Mult | Multu | Div | Divu
datatype branch_op = Blez | Bgtz | Bltz | Bgez
datatype load_op = Lb | Lbu | Lh | Lhu | Lw | Lwl | Lwr | Ll
datatype store_op = Sb | Sh | Sw | Swl | Swr

datatype instr =
    Shift shift_op reg reg reg    \<comment> \<open>\<open>rd\<close>, \<open>rt\<close> and a constant amount\<close>
  | ShiftV shift_op reg reg reg   \<comment> \<open>\<open>rd\<close>, \<open>rt\<close> and the register of the amount\<close>
  | Alu alu_op reg reg reg        \<comment> \<open>\<open>rd\<close>, \<open>rs\<close>, \<open>rt\<close>\<close>
  | AluI imm_op reg reg imm       \<comment> \<open>\<open>rt\<close>, \<open>rs\<close> and the immediate operand\<close>
  | Lui reg imm
  | Mul reg reg reg
  | Clo reg reg
  | Clz reg reg
  | Movz reg reg reg
  | Movn reg reg reg
  | Mfhi reg
  | Mflo reg
  | Mthi reg
  | Mtlo reg
  | MulDiv muldiv_op reg reg
  | J "26 word"
  | Jal "26 word"
  | Jr reg
  | Jalr reg reg
  | Beq reg reg imm
  | Bne reg reg imm
  | Branch branch_op reg imm
  | Load load_op reg reg imm      \<comment> \<open>\<open>rt\<close>, base and offset\<close>
  | Store store_op reg reg imm
  | Sc reg reg imm
  | Sync

section \<open>Encoding\<close>

definition r_type :: "6 word \<Rightarrow> reg \<Rightarrow> reg \<Rightarrow> reg \<Rightarrow> reg \<Rightarrow> 6 word \<Rightarrow> u32" where
  "r_type op rs rt rd sa func = push_bit 26 (ucast op) OR push_bit 21 (ucast rs) OR push_bit 16 (ucast rt)
     OR push_bit 11 (ucast rd) OR push_bit 6 (ucast sa) OR ucast func"

definition i_type :: "6 word \<Rightarrow> reg \<Rightarrow> reg \<Rightarrow> imm \<Rightarrow> u32" where
  "i_type op rs rt i = push_bit 26 (ucast op) OR push_bit 21 (ucast rs) OR push_bit 16 (ucast rt) OR ucast i"

definition j_type :: "6 word \<Rightarrow> 26 word \<Rightarrow> u32" where
  "j_type op t = push_bit 26 (ucast op) OR ucast t"

primrec shift_func :: "shift_op \<Rightarrow> 6 word" where
  "shift_func Sll = 0" | "shift_func Srl = 2" | "shift_func Sra = 3"

primrec shiftv_func :: "shift_op \<Rightarrow> 6 word" where
  "shiftv_func Sll = 4" | "shiftv_func Srl = 6" | "shiftv_func Sra = 7"

primrec alu_func :: "alu_op \<Rightarrow> 6 word" where
  "alu_func Add = 0x20" | "alu_func Addu = 0x21" | "alu_func Sub = 0x22" | "alu_func Subu = 0x23"
| "alu_func And = 0x24" | "alu_func Or = 0x25" | "alu_func Xor = 0x26" | "alu_func Nor = 0x27"
| "alu_func Slt = 0x2A" | "alu_func Sltu = 0x2B"

primrec imm_opcode :: "imm_op \<Rightarrow> 6 word" where
  "imm_opcode Addi = 0x08" | "imm_opcode Addiu = 0x09" | "imm_opcode Slti = 0x0A" | "imm_opcode Sltiu = 0x0B"
| "imm_opcode Andi = 0x0C" | "imm_opcode Ori = 0x0D" | "imm_opcode Xori = 0x0E"

primrec muldiv_func :: "muldiv_op \<Rightarrow> 6 word" where
  "muldiv_func Mult = 0x18" | "muldiv_func Multu = 0x19" | "muldiv_func Div = 0x1A" | "muldiv_func Divu = 0x1B"

primrec encode_branch :: "branch_op \<Rightarrow> reg \<Rightarrow> imm \<Rightarrow> u32" where
  "encode_branch Blez rs i = i_type 6 rs 0 i" | "encode_branch Bgtz rs i = i_type 7 rs 0 i"
| "encode_branch Bltz rs i = i_type 1 rs 0 i" | "encode_branch Bgez rs i = i_type 1 rs 1 i"

primrec load_opcode :: "load_op \<Rightarrow> 6 word" where
  "load_opcode Lb = 0x20" | "load_opcode Lbu = 0x24" | "load_opcode Lh = 0x21" | "load_opcode Lhu = 0x25"
| "load_opcode Lw = 0x23" | "load_opcode Lwl = 0x22" | "load_opcode Lwr = 0x26" | "load_opcode Ll = 0x30"

primrec store_opcode :: "store_op \<Rightarrow> 6 word" where
  "store_opcode Sb = 0x28" | "store_opcode Sh = 0x29" | "store_opcode Sw = 0x2B" | "store_opcode Swl = 0x2A"
| "store_opcode Swr = 0x2E"

primrec encode :: "instr \<Rightarrow> u32" where
  "encode (Shift op rd rt sa) = r_type 0 0 rt rd sa (shift_func op)"
| "encode (ShiftV op rd rt rs) = r_type 0 rs rt rd 0 (shiftv_func op)"
| "encode (Alu op rd rs rt) = r_type 0 rs rt rd 0 (alu_func op)"
| "encode (AluI op rt rs i) = i_type (imm_opcode op) rs rt i"
| "encode (Lui rt i) = i_type 0x0F 0 rt i"
| "encode (Mul rd rs rt) = r_type 0x1C rs rt rd 0 0x02"
| "encode (Clo rd rs) = r_type 0x1C rs rd rd 0 0x21"
| "encode (Clz rd rs) = r_type 0x1C rs rd rd 0 0x20"
| "encode (Movz rd rs rt) = r_type 0 rs rt rd 0 0x0A"
| "encode (Movn rd rs rt) = r_type 0 rs rt rd 0 0x0B"
| "encode (Mfhi rd) = r_type 0 0 0 rd 0 0x10"
| "encode (Mflo rd) = r_type 0 0 0 rd 0 0x12"
| "encode (Mthi rs) = r_type 0 rs 0 0 0 0x11"
| "encode (Mtlo rs) = r_type 0 rs 0 0 0 0x13"
| "encode (MulDiv op rs rt) = r_type 0 rs rt 0 0 (muldiv_func op)"
| "encode (J t) = j_type 2 t"
| "encode (Jal t) = j_type 3 t"
| "encode (Jr rs) = r_type 0 rs 0 0 0 0x08"
| "encode (Jalr rd rs) = r_type 0 rs 0 rd 0 0x09"
| "encode (Beq rs rt i) = i_type 4 rs rt i"
| "encode (Bne rs rt i) = i_type 5 rs rt i"
| "encode (Branch op rs i) = encode_branch op rs i"
| "encode (Load op rt base i) = i_type (load_opcode op) base rt i"
| "encode (Store op rt base i) = i_type (store_opcode op) base rt i"
| "encode (Sc rt base i) = i_type 0x38 base rt i"
| "encode Sync = r_type 0 0 0 0 0 0x0F"

section \<open>The processor\<close>

record cpu =
  gpr :: "reg \<Rightarrow> u32"
  cpu_pc :: u32
  cpu_next_pc :: u32
  cpu_hi :: u32
  cpu_lo :: u32
  cells :: "nat \<Rightarrow> u8"

definition set_gpr :: "reg \<Rightarrow> u32 \<Rightarrow> cpu \<Rightarrow> cpu" where
  "set_gpr r x c = (if r = 0 then c else c\<lparr>gpr := (gpr c)(r := x)\<rparr>)"

definition advance :: "cpu \<Rightarrow> cpu" where
  "advance c = c\<lparr>cpu_pc := cpu_next_pc c, cpu_next_pc := cpu_next_pc c + 4\<rparr>"

text \<open>A branch or jump takes effect after the instruction in its delay slot, which is no branch itself.\<close>

definition delayed :: "u32 \<Rightarrow> cpu \<Rightarrow> cpu option" where
  "delayed target c =
    (if cpu_next_pc c = cpu_pc c + 4 then Some (c\<lparr>cpu_pc := cpu_next_pc c, cpu_next_pc := target\<rparr>) else None)"

definition branch :: "bool \<Rightarrow> imm \<Rightarrow> cpu \<Rightarrow> cpu option" where
  "branch taken i c = delayed (if taken then cpu_pc c + 4 + 4 * scast i else cpu_pc c + 8) c"

text \<open>Operations on words.\<close>

definition signed_result :: "int \<Rightarrow> u32 option" where
  "signed_result z = (if - 2147483648 \<le> z \<and> z < 2147483648 then Some (of_int z) else None)"

primrec shift_result :: "shift_op \<Rightarrow> nat \<Rightarrow> u32 \<Rightarrow> u32" where
  "shift_result Sll n x = of_int (uint x * 2 ^ n)"
| "shift_result Srl n x = of_int (uint x div 2 ^ n)"
| "shift_result Sra n x = of_int (sint x div 2 ^ n)"

primrec alu_result :: "alu_op \<Rightarrow> u32 \<Rightarrow> u32 \<Rightarrow> u32 option" where
  "alu_result Add x y = signed_result (sint x + sint y)"
| "alu_result Addu x y = Some (x + y)"
| "alu_result Sub x y = signed_result (sint x - sint y)"
| "alu_result Subu x y = Some (x - y)"
| "alu_result And x y = Some (x AND y)"
| "alu_result Or x y = Some (x OR y)"
| "alu_result Xor x y = Some (x XOR y)"
| "alu_result Nor x y = Some (NOT (x OR y))"
| "alu_result Slt x y = Some (if sint x < sint y then 1 else 0)"
| "alu_result Sltu x y = Some (if unat x < unat y then 1 else 0)"

primrec imm_alu :: "imm_op \<Rightarrow> alu_op" where
  "imm_alu Addi = Add" | "imm_alu Addiu = Addu" | "imm_alu Slti = Slt" | "imm_alu Sltiu = Sltu"
| "imm_alu Andi = And" | "imm_alu Ori = Or" | "imm_alu Xori = Xor"

definition imm_value :: "imm_op \<Rightarrow> imm \<Rightarrow> u32" where
  "imm_value op i = (case imm_alu op of And \<Rightarrow> ucast i | Or \<Rightarrow> ucast i | Xor \<Rightarrow> ucast i | _ \<Rightarrow> scast i)"

definition leading :: "bool \<Rightarrow> u32 \<Rightarrow> nat" where
  "leading b x = length (takeWhile (\<lambda>i. bit x (31 - i) = b) [0..<32])"

text \<open>The new values of \<open>hi\<close> and \<open>lo\<close>.\<close>

definition product_halves :: "int \<Rightarrow> u32 \<times> u32" where
  "product_halves z = (of_int (z div 4294967296), of_int z)"

primrec muldiv_result :: "muldiv_op \<Rightarrow> u32 \<Rightarrow> u32 \<Rightarrow> (u32 \<times> u32) option" where
  "muldiv_result Mult x y = Some (product_halves (sint x * sint y))"
| "muldiv_result Multu x y = Some (product_halves (uint x * uint y))"
| "muldiv_result Div x y =
    (if y = 0 then None
     else map_option (Pair (of_int (sint x smod sint y))) (signed_result (sint x sdiv sint y)))"
| "muldiv_result Divu x y = (if y = 0 then None else Some (of_int (uint x mod uint y), of_int (uint x div uint y)))"

primrec branch_taken :: "branch_op \<Rightarrow> u32 \<Rightarrow> bool" where
  "branch_taken Blez x = (sint x \<le> 0)" | "branch_taken Bgtz x = (0 < sint x)"
| "branch_taken Bltz x = (sint x < 0)" | "branch_taken Bgez x = (0 \<le> sint x)"

text \<open>Loads and stores, big endian. \<open>lwl\<close> and \<open>swl\<close> move the bytes from the address to the end of its
  word, \<open>lwr\<close> and \<open>swr\<close> those from the start of the word to the address.\<close>

definition cells_from :: "(nat \<Rightarrow> u8) \<Rightarrow> nat \<Rightarrow> nat \<Rightarrow> bytes" where
  "cells_from f a n = map f [a..<a + n]"

primrec load_result :: "load_op \<Rightarrow> (nat \<Rightarrow> u8) \<Rightarrow> nat \<Rightarrow> u32 \<Rightarrow> u32 option" where
  "load_result Lb f a old = Some (scast (f a))"
| "load_result Lbu f a old = Some (ucast (f a))"
| "load_result Lh f a old = (if a mod 2 = 0 then Some (scast (from_be (cells_from f a 2) :: 16 word)) else None)"
| "load_result Lhu f a old = (if a mod 2 = 0 then Some (ucast (from_be (cells_from f a 2) :: 16 word)) else None)"
| "load_result Lw f a old = (if a mod 4 = 0 then Some (from_be (cells_from f a 4)) else None)"
| "load_result Lwl f a old = Some (from_be (cells_from f a (4 - a mod 4) @ drop (4 - a mod 4) (u32_be old)))"
| "load_result Lwr f a old = Some (from_be (take (3 - a mod 4) (u32_be old) @ cells_from f (a - a mod 4) (a mod 4 + 1)))"
| "load_result Ll f a old = (if a mod 4 = 0 then Some (from_be (cells_from f a 4)) else None)"

primrec store_result :: "store_op \<Rightarrow> nat \<Rightarrow> u32 \<Rightarrow> (nat \<Rightarrow> u8) \<Rightarrow> (nat \<Rightarrow> u8) option" where
  "store_result Sb a x f = Some (f(a := ucast x))"
| "store_result Sh a x f = (if a mod 2 = 0 then Some (overwrite a (be_bytes 2 x) f) else None)"
| "store_result Sw a x f = (if a mod 4 = 0 then Some (overwrite a (u32_be x) f) else None)"
| "store_result Swl a x f = Some (overwrite a (take (4 - a mod 4) (u32_be x)) f)"
| "store_result Swr a x f = Some (overwrite (a - a mod 4) (drop (3 - a mod 4) (u32_be x)) f)"

section \<open>Steps of the processor\<close>

definition writes :: "reg \<Rightarrow> cpu \<Rightarrow> u32 \<Rightarrow> cpu" where
  "writes r c x = advance (set_gpr r x c)"

definition effective :: "reg \<Rightarrow> imm \<Rightarrow> cpu \<Rightarrow> u32" where
  "effective base i c = gpr c base + scast i"

primrec isa_step :: "instr \<Rightarrow> cpu \<Rightarrow> cpu option" where
  "isa_step (Shift op rd rt sa) c = Some (writes rd c (shift_result op (unat sa) (gpr c rt)))"
| "isa_step (ShiftV op rd rt rs) c = Some (writes rd c (shift_result op (unat (gpr c rs) mod 32) (gpr c rt)))"
| "isa_step (Alu op rd rs rt) c = map_option (writes rd c) (alu_result op (gpr c rs) (gpr c rt))"
| "isa_step (AluI op rt rs i) c = map_option (writes rt c) (alu_result (imm_alu op) (gpr c rs) (imm_value op i))"
| "isa_step (Lui rt i) c = Some (writes rt c (push_bit 16 (ucast i)))"
| "isa_step (Mul rd rs rt) c = Some (writes rd c (of_int (sint (gpr c rs) * sint (gpr c rt))))"
| "isa_step (Clo rd rs) c = Some (writes rd c (of_nat (leading True (gpr c rs))))"
| "isa_step (Clz rd rs) c = Some (writes rd c (of_nat (leading False (gpr c rs))))"
| "isa_step (Movz rd rs rt) c = Some (if gpr c rt = 0 then writes rd c (gpr c rs) else advance c)"
| "isa_step (Movn rd rs rt) c = Some (if gpr c rt \<noteq> 0 then writes rd c (gpr c rs) else advance c)"
| "isa_step (Mfhi rd) c = Some (writes rd c (cpu_hi c))"
| "isa_step (Mflo rd) c = Some (writes rd c (cpu_lo c))"
| "isa_step (Mthi rs) c = Some (advance (c\<lparr>cpu_hi := gpr c rs\<rparr>))"
| "isa_step (Mtlo rs) c = Some (advance (c\<lparr>cpu_lo := gpr c rs\<rparr>))"
| "isa_step (MulDiv op rs rt) c =
    map_option (\<lambda>(h, l). advance (c\<lparr>cpu_hi := h, cpu_lo := l\<rparr>)) (muldiv_result op (gpr c rs) (gpr c rt))"
| "isa_step (J t) c = delayed ((cpu_next_pc c AND 0xF0000000) OR push_bit 2 (ucast t)) c"
| "isa_step (Jal t) c =
    map_option (set_gpr 31 (cpu_pc c + 8)) (delayed ((cpu_next_pc c AND 0xF0000000) OR push_bit 2 (ucast t)) c)"
| "isa_step (Jr rs) c = delayed (gpr c rs) c"
| "isa_step (Jalr rd rs) c = map_option (set_gpr rd (cpu_pc c + 8)) (delayed (gpr c rs) c)"
| "isa_step (Beq rs rt i) c = branch (gpr c rs = gpr c rt) i c"
| "isa_step (Bne rs rt i) c = branch (gpr c rs \<noteq> gpr c rt) i c"
| "isa_step (Branch op rs i) c = branch (branch_taken op (gpr c rs)) i c"
| "isa_step (Load op rt base i) c =
    map_option (writes rt c) (load_result op (cells c) (unat (effective base i c)) (gpr c rt))"
| "isa_step (Store op rt base i) c =
    map_option (\<lambda>f. advance (c\<lparr>cells := f\<rparr>)) (store_result op (unat (effective base i c)) (gpr c rt) (cells c))"
| "isa_step (Sc rt base i) c =
    map_option (\<lambda>f. writes rt (c\<lparr>cells := f\<rparr>) 1) (store_result Sw (unat (effective base i c)) (gpr c rt) (cells c))"
| "isa_step Sync c = Some (advance c)"

text \<open>The one instruction on which the machine departs from the architecture: \<open>sra\<close> and \<open>srav\<close> by zero.\<close>

definition sra_by_zero :: "instr \<Rightarrow> cpu \<Rightarrow> bool" where
  "sra_by_zero i c =
    (case i of Shift op rd rt sa \<Rightarrow> op = Sra \<and> sa = 0
     | ShiftV op rd rt rs \<Rightarrow> op = Sra \<and> unat (gpr c rs) mod 32 = 0
     | _ \<Rightarrow> False)"

end
