(* ===== verification/Mips_Isa.thy ===== *)
theory Mips_Isa
  imports Mips_VM
begin

text \<open>
  What the instructions compute, stated without the shifts and masks of the code: sign extension
  and arithmetic shifts as signed operations, counts of leading bits, products and quotients as
  integers, loads and stores on the bytes of the memory word.
\<close>

section \<open>Sign extension and arithmetic shifts\<close>

lemma unat_of_small: "n < 4294967296 \<Longrightarrow> unat (of_nat n :: u32) = n"
  by (simp add: unat_of_nat)

lemma shl32_nat: "n < 32 \<Longrightarrow> shl32 x (of_nat n) = push_bit n x"
  by (simp add: shl32_def and_31_mod unat_of_small)

lemma shr32_nat: "n < 32 \<Longrightarrow> shr32 x (of_nat n) = drop_bit n x"
  by (simp add: shr32_def and_31_mod unat_of_small)

lemma shift_amounts:
  assumes "0 < n" and "n < 32"
  shows "(of_nat n - 1 :: u32) = of_nat (n - 1)" and "(32 - of_nat n :: u32) = of_nat (32 - n)"
  using assms by (simp_all add: of_nat_diff)

lemma sign_extend_eq:
  assumes n: "0 < n" "n < 32" and x: "unat x < 2 ^ n"
  shows "sign_extend x (of_nat n) = signed_take_bit (n - 1) x"
proof -
  have small: "\<not> bit x i" if "n \<le> i" for i
  proof -
    have "take_bit n x = x" using x by (metis take_bit_nat_eq_self unsigned_take_bit_eq word_unat_eq_iff)
    then show ?thesis using that by (metis bit_take_bit_iff not_less)
  qed
  have sg: "drop_bit (n - 1) x \<noteq> 0 \<longleftrightarrow> bit x (n - 1)"
  proof
    assume "drop_bit (n - 1) x \<noteq> 0"
    then obtain i where i: "bit (drop_bit (n - 1) x) i" by (metis bit_eqI bit_0_eq bot_apply bot_bool_def)
    then have "bit x (n - 1 + i)" by (simp add: bit_drop_bit_eq)
    with small have "i = 0" using n by (metis Suc_pred' add_Suc add_leD1 le_add1 not0_implies_Suc nat_arith.suc1 Suc_leI less_add_same_cancel1 linorder_not_less neq0_conv)
    with \<open>bit x (n - 1 + i)\<close> show "bit x (n - 1)" by simp
  next
    assume "bit x (n - 1)"
    then have "bit (drop_bit (n - 1) x) 0" by (simp add: bit_drop_bit_eq)
    then show "drop_bit (n - 1) x \<noteq> 0" by auto
  qed
  have e: "shr32 x (of_nat (n - 1)) = drop_bit (n - 1) x" "shl32 1 (of_nat (32 - n)) - 1 = mask (32 - n)"
    "shl32 y (of_nat n) = push_bit n y" "push_bit n 1 - 1 = (mask n :: u32)" for y
    using n by (simp_all add: shr32_nat shl32_nat mask_eq_exp_minus_1 push_bit_of_1 del: of_nat_diff push_bit_minus_one)
  have "sign_extend x (of_nat n) = (if bit x (n - 1) then (x AND mask n) OR push_bit n (mask (32 - n)) else x AND mask n)"
    unfolding sign_extend_def shift_amounts [OF n] Let_def e sg ..
  also have "\<dots> = signed_take_bit (n - 1) x"
  proof (rule bit_word_eqI)
    fix i
    assume "i < LENGTH(32)"
    then show "bit (if bit x (n - 1) then (x AND mask n) OR push_bit n (mask (32 - n)) else x AND mask n) i
        = bit (signed_take_bit (n - 1) x) i"
      using n small by (cases "i = n - 1") (auto simp: bit_simps min_def)
  qed
  finally show ?thesis .
qed

text \<open>The sign extensions of immediates, halfwords and bytes.\<close>

lemma sign_extend_16: "sign_extend (x AND 0xFFFF) 16 = scast (ucast x :: 16 word)"
proof -
  have m: "x AND 0xFFFF = take_bit 16 x" by (simp add: take_bit_eq_mask mask_eq_exp_minus_1)
  have "unat (x AND 0xFFFF) < 2 ^ 16" unfolding m unsigned_take_bit_eq by (rule take_bit_nat_less_exp)
  from sign_extend_eq [OF _ _ this] have "sign_extend (x AND 0xFFFF) 16 = signed_take_bit 15 (x AND 0xFFFF)" by simp
  also have "\<dots> = scast (ucast x :: 16 word)"
    unfolding m by (rule bit_word_eqI) (auto simp: bit_simps min_def)
  finally show ?thesis .
qed

lemma sign_extend_8: "sign_extend (x AND 0xFF) 8 = scast (ucast x :: u8)"
proof -
  have m: "x AND 0xFF = take_bit 8 x" by (simp add: take_bit_eq_mask mask_eq_exp_minus_1)
  have "unat (x AND 0xFF) < 2 ^ 8" unfolding m unsigned_take_bit_eq by (rule take_bit_nat_less_exp)
  from sign_extend_eq [OF _ _ this] have "sign_extend (x AND 0xFF) 8 = signed_take_bit 7 (x AND 0xFF)" by simp
  also have "\<dots> = scast (ucast x :: u8)"
    unfolding m by (rule bit_word_eqI) (auto simp: bit_simps min_def)
  finally show ?thesis .
qed

text \<open>At index 32 the mask is empty: the result is 0 whatever the data.\<close>

lemma sign_extend_32: "sign_extend x 32 = 0"
  by (simp add: sign_extend_def shl32_def Let_def)

lemma shift_amount_nat: "unat (a AND 0x1F :: u32) < 32"
  by (simp add: and_31_mod)

text \<open>Only the amount modulo 32 counts.\<close>

lemma and_31_cong_plus: "(x + 32 * z) AND 31 = (x AND 31 :: u32)"
proof -
  have "unat (x + 32 * z) mod 32 = (unat x + 32 * unat z) mod 32"
    by (simp add: unat_word_ariths mod_simps mod_mod_cancel del: mod_mult_self2)
  then show ?thesis by (simp add: word_unat_eq_iff and_31_mod)
qed

lemma and_31_cong: "(x - 32 * z) AND 31 = (x AND 31 :: u32)"
  using and_31_cong_plus [of x "- z"] by simp

lemma sra_amounts:
  fixes a :: u32
  defines "n \<equiv> 32 - unat a mod 32"
  shows "(32 - a) AND 31 = of_nat n AND 31" and "(32 - a - 1) AND 31 = (of_nat n - 1) AND 31"
    and "(32 - (32 - a)) AND 31 = (32 - of_nat n) AND 31"
proof -
  let ?q = "unat a div 32" and ?r = "unat a mod 32"
  have "of_nat (unat a) = a" by simp
  then have "of_nat (32 * ?q + ?r) = a" by (simp only: mult_div_mod_eq)
  then have w: "a = 32 * of_nat ?q + of_nat ?r" by (simp only: of_nat_add of_nat_mult of_nat_numeral)
  have n: "(of_nat n :: u32) = 32 - of_nat ?r" unfolding n_def by (simp add: of_nat_diff less_imp_le)
  have "32 - a = (32 - of_nat ?r) - 32 * of_nat ?q" "32 - a - 1 = (32 - of_nat ?r - 1) - 32 * of_nat ?q"
    "32 - (32 - a) = (32 - (32 - of_nat ?r)) + 32 * of_nat ?q"
    by (subst w, simp)+
  then show "(32 - a) AND 31 = of_nat n AND 31" and "(32 - a - 1) AND 31 = (of_nat n - 1) AND 31"
    and "(32 - (32 - a)) AND 31 = (32 - of_nat n) AND 31"
    by (simp_all only: n and_31_cong and_31_cong_plus)
qed

lemma unat_drop_bit_less:
  assumes "n < 32"
  shows "unat (drop_bit n (x :: u32)) < 2 ^ (32 - n)"
proof -
  have "n + (32 - n) = 32" using assms by simp
  then have "2 ^ n * 2 ^ (32 - n) = (4294967296 :: nat)" by (simp only: power_add [symmetric]) simp
  moreover have "unat (drop_bit n x) = unat x div 2 ^ n" by (simp only: unat_drop_bit_eq) (simp only: drop_bit_eq_div)
  ultimately show ?thesis
    using u32_less [of x] by (simp only: div_less_iff_less_mult zero_less_power zero_less_numeral mult.commute)
qed

text \<open>An arithmetic shift right by a nonzero amount; by zero, the value is lost.\<close>

lemma sra_eq:
  fixes a :: u32
  shows "sign_extend (shr32 x a) (32 - a) = (if unat a mod 32 = 0 then 0 else signed_drop_bit (unat a mod 32) x)"
proof -
  let ?n = "unat a mod 32"
  have same: "sign_extend y (32 - a) = sign_extend y (of_nat (32 - ?n))" for y
    unfolding sign_extend_def shr32_def shl32_def sra_amounts [of a] ..
  have r: "shr32 x a = drop_bit ?n x" by (simp add: shr32_def and_31_mod)
  show ?thesis
  proof (cases "?n = 0")
    case True
    with same sign_extend_32 show ?thesis by simp
  next
    case False
    have "sign_extend (drop_bit ?n x) (of_nat (32 - ?n)) = signed_take_bit (32 - ?n - 1) (drop_bit ?n x)"
      by (rule sign_extend_eq) (use False unat_drop_bit_less [of ?n x] in simp_all)
    also have "\<dots> = signed_drop_bit ?n x"
    proof (rule bit_word_eqI)
      fix i
      assume "i < LENGTH(32)"
      moreover have "?n + (31 - ?n) = 31" by simp
      ultimately show "bit (signed_take_bit (32 - ?n - 1) (drop_bit ?n x)) i = bit (signed_drop_bit ?n x) i"
        using False by (cases "i = 31 - ?n") (auto simp: bit_simps min_def)
    qed
    finally show ?thesis using False same r by simp
  qed
qed

section \<open>Counting leading bits\<close>

definition leading_ones :: "u32 \<Rightarrow> nat \<Rightarrow> bool" where
  "leading_ones x n \<longleftrightarrow> n \<le> 32 \<and> (\<forall>i < n. bit x (31 - i)) \<and> (n < 32 \<longrightarrow> \<not> bit x (31 - n))"

lemma clo_loop_eq: "\<exists>n. leading_ones x n \<and> clo_loop x i = i + of_nat n"
proof (induction x i rule: clo_loop.induct)
  case (1 x i)
  show ?case
  proof (cases "bit x 31")
    case False
    then have "clo_loop x i = i" by (subst clo_loop.simps) (simp only: and_top_bit if_False)
    with False show ?thesis by (intro exI [of _ 0]) (simp add: leading_ones_def)
  next
    case True
    then obtain n where n: "leading_ones (shl32 x 1) n" "clo_loop (shl32 x 1) (i + 1) = i + 1 + of_nat n"
      using "1.IH" by (auto simp only: and_top_bit)
    have sh: "bit (shl32 x 1) j \<longleftrightarrow> 0 < j \<and> j < 32 \<and> bit x (j - 1)" for j
      unfolding shl32_1 bit_push_bit_iff by auto
    have n31: "n \<le> 31"
    proof (rule ccontr)
      assume "\<not> n \<le> 31"
      then have "bit (shl32 x 1) (31 - 31)" using n(1) unfolding leading_ones_def by (metis not_le)
      with sh show False by simp
    qed
    have "bit x (31 - j)" if "j < Suc n" for j
    proof (cases j)
      case (Suc t)
      then have "bit (shl32 x 1) (31 - t)" using that n(1) by (simp add: leading_ones_def)
      with sh Suc show ?thesis by simp
    qed (use True in simp)
    moreover have "\<not> bit x (31 - Suc n)" if "Suc n < 32"
    proof -
      have "\<not> bit (shl32 x 1) (31 - n)" using n(1) n31 by (simp add: leading_ones_def)
      with sh that show ?thesis by simp
    qed
    ultimately have "leading_ones x (Suc n)" using n31 by (simp add: leading_ones_def)
    moreover have "clo_loop x i = i + of_nat (Suc n)"
      using True n(2) by (subst clo_loop.simps) (simp only: and_top_bit if_True of_nat_Suc add.assoc)
    ultimately show ?thesis by blast
  qed
qed

lemma leading_ones_unique:
  assumes "leading_ones x n" and "leading_ones x m"
  shows "n = m"
proof -
  have "\<not> a < b" if "leading_ones x a" "leading_ones x b" for a b
    using that unfolding leading_ones_def by (metis less_le_trans)
  with assms show ?thesis by (metis linorder_neqE_nat)
qed

section \<open>Products and quotients\<close>

lemma hi_lo_split: "unat (ucast (drop_bit 32 acc) :: u32) * 4294967296 + unat (ucast acc :: u32) = unat (acc :: u64)"
proof -
  have "unat acc < 18446744073709551616" using unsigned_less [of acc, where ?'a = nat] by simp
  then have small: "unat acc div 4294967296 < 4294967296" by (simp add: div_less_iff_less_mult)
  have "unat (drop_bit 32 acc) = unat acc div 4294967296"
    by (simp only: unat_drop_bit_eq) (simp add: drop_bit_eq_div)
  with small have "unat (ucast (drop_bit 32 acc) :: u32) = unat acc div 4294967296"
    by (simp only: unsigned_ucast_eq) (simp add: take_bit_eq_mod)
  moreover have "unat (ucast acc :: u32) = unat acc mod 4294967296"
    by (simp only: unsigned_ucast_eq) (simp add: take_bit_eq_mod)
  ultimately show ?thesis by simp
qed

lemma mult_result:
  assumes "hi_lo_result 0x18 rs rt s = Inr (val, s')"
  shows "int (unat (hi s') * 4294967296 + unat (lo s')) = (sint rs * sint rt) mod 18446744073709551616"
proof -
  let ?acc = "(scast rs :: u64) * scast rt"
  have s': "hi s' = ucast (drop_bit 32 ?acc)" "lo s' = ucast ?acc"
    using assms by (auto simp: hi_lo_result_def Let_def)
  have uint: "uint (of_int z :: u64) = z mod 18446744073709551616" for z by (simp add: uint_word_of_int_eq take_bit_eq_mod)
  have "?acc = of_int (sint rs * sint rt)" by simp
  then have "uint ?acc = (sint rs * sint rt) mod 18446744073709551616" using uint by (simp only:)
  moreover have "int (unat ?acc) = uint ?acc" by (simp only: uint_nat)
  ultimately show ?thesis unfolding s' hi_lo_split by (simp only:)
qed

lemma multu_result:
  assumes "hi_lo_result 0x19 rs rt s = Inr (val, s')"
  shows "unat (hi s') * 4294967296 + unat (lo s') = unat rs * unat rt"
proof -
  let ?acc = "(ucast rs :: u64) * ucast rt"
  have s': "hi s' = ucast (drop_bit 32 ?acc)" "lo s' = ucast ?acc"
    using assms by (auto simp: hi_lo_result_def Let_def)
  have "unat rs * unat rt < 4294967296 * 4294967296"
    using u32_less [of rs] u32_less [of rt] by (intro mult_strict_mono) simp_all
  moreover have "unat (ucast x :: u64) = unat x" for x :: u32
    using u32_less [of x] by (simp add: unsigned_ucast_eq take_bit_eq_mod)
  ultimately have "unat ?acc = unat rs * unat rt" by (simp add: unat_word_ariths)
  then show ?thesis unfolding s' hi_lo_split .
qed

lemma sint_of_int_u32: "- 2147483648 \<le> z \<Longrightarrow> z < 2147483648 \<Longrightarrow> sint (of_int z :: u32) = z"
  by (simp add: int_word_sint)

lemma sint_u32_range: "- 2147483648 \<le> sint (x :: u32) \<and> sint x < 2147483648"
  using sint_ge [of x] sint_lt [of x] by simp

lemma sint_inject: "sint x = sint y \<Longrightarrow> x = (y :: 'a::len word)"
  by (rule signed_word_eqI) simp

lemma sint_u32_cases: "sint x = - 2147483648 \<longleftrightarrow> x = (0x80000000 :: u32)" "sint x = - 1 \<longleftrightarrow> x = (0xFFFFFFFF :: u32)"
proof -
  have a: "sint (0x80000000 :: u32) = - 2147483648" and b: "sint (0xFFFFFFFF :: u32) = - 1" by simp_all
  show "sint x = - 2147483648 \<longleftrightarrow> x = (0x80000000 :: u32)" using a sint_inject by metis
  show "sint x = - 1 \<longleftrightarrow> x = (0xFFFFFFFF :: u32)" using b sint_inject by metis
qed

lemma div_result:
  assumes "hi_lo_result 0x1a rs rt s = Inr (val, s')"
  shows "sint (lo s') = sint rs sdiv sint rt" and "sint (hi s') = sint rs smod sint rt"
proof -
  have d: "hi s' = of_int (sint rs smod sint rt)" "lo s' = of_int (sint rs sdiv sint rt)" "rt \<noteq> 0"
    "\<not> (rs = 0x80000000 \<and> rt = 0xFFFFFFFF)"
    using assms by (auto simp: hi_lo_result_def split: if_splits)
  note r = sint_u32_range [of rs] sint_u32_range [of rt]
  have nz: "sint rt \<noteq> 0" using d(3) sint_inject [of rt 0] by auto
  have "sint rs sdiv sint rt \<noteq> 2147483648"
  proof
    assume eq: "sint rs sdiv sint rt = 2147483648"
    then have "sint rs = - 2147483648" using sdiv_int_range [of "sint rs" "sint rt"] r by auto
    moreover from this eq have "sint rt = - 1" using int_sdiv_negated_is_minus1 [of "sint rs" "sint rt"] by simp
    ultimately show False using d(4) unfolding sint_u32_cases by blast
  qed
  moreover have "- 2147483648 \<le> sint rs sdiv sint rt" "sint rs sdiv sint rt \<le> 2147483648"
    using sdiv_int_range [of "sint rs" "sint rt"] r by auto
  ultimately show "sint (lo s') = sint rs sdiv sint rt" unfolding d(2) by (intro sint_of_int_u32) simp_all
  show "sint (hi s') = sint rs smod sint rt"
    unfolding d(1) using smod_int_range [of "sint rt" "sint rs"] nz r by (intro sint_of_int_u32) auto
qed

section \<open>Loads and stores on the bytes of a word\<close>

text \<open>The bytes of a word, most significant first, and the four offsets of an address in its word.\<close>

lemma nth_u32_be: "i < 4 \<Longrightarrow> u32_be w ! i = ucast (drop_bit (24 - 8 * i) w)"
proof -
  assume "i < 4"
  then consider "i = 0" | "i = 1" | "i = 2" | "i = 3" by linarith
  then show ?thesis by cases (simp_all add: numeral_eq_Suc nth_append)
qed

lemma bit_u32_be: "i < 4 \<Longrightarrow> bit (u32_be w ! i) n \<longleftrightarrow> n < 8 \<and> bit w (24 - 8 * i + n)"
  by (simp only: nth_u32_be bit_unsigned_iff bit_drop_bit_eq comp_def) (auto dest: bit_imp_le_length)

lemma u32_be_eqI:
  assumes "length xs = 4" and "\<And>i n. i < 4 \<Longrightarrow> n < 8 \<Longrightarrow> bit w (24 - 8 * i + n) \<longleftrightarrow> bit (xs ! i) n"
  shows "u32_be w = xs"
proof (rule nth_equalityI)
  fix i
  assume i: "i < length (u32_be w)"
  then show "u32_be w ! i = xs ! i"
    using assms(2) by (intro bit_word_eqI) (simp add: bit_u32_be)
qed (simp add: assms(1))

text \<open>The shift amounts of the code, from the offset of an address in its word.\<close>

lemma byte_offset_less: "unat (a AND 3 :: u32) < 4"
  by (simp add: and_3_mod)

lemma half_offset: "unat (a AND 2 :: u32) = (if bit a 1 then 2 else 0)"
proof -
  have two: "(2 :: u32) = push_bit 1 1" by simp
  have "a AND 2 = (if bit a 1 then 2 else 0)"
  proof (rule bit_word_eqI)
    fix n
    show "bit (a AND 2) n = bit (if bit a 1 then 2 else 0 :: u32) n"
      unfolding two by (cases "n = 1") (auto simp only: bit_and_iff bit_push_bit_iff bit_1_iff bit_0_eq bot_apply bot_bool_def split: if_splits)
  qed
  then show ?thesis by simp
qed

lemma shift_offset:
  assumes "unat (c :: u32) < 4"
  shows "shl32 x (shl32 c 3) = push_bit (8 * unat c) x" and "shr32 x (shl32 c 3) = drop_bit (8 * unat c) x"
    and "shl32 x (24 - shl32 c 3) = push_bit (24 - 8 * unat c) x" and "shr32 x (24 - shl32 c 3) = drop_bit (24 - 8 * unat c) x"
proof -
  have "unat c = 0 \<or> unat c = 1 \<or> unat c = 2 \<or> unat c = 3" using assms by linarith
  then have c: "c = 0 \<or> c = 1 \<or> c = 2 \<or> c = 3" by (simp add: word_unat_eq_iff)
  show "shl32 x (shl32 c 3) = push_bit (8 * unat c) x" and "shr32 x (shl32 c 3) = drop_bit (8 * unat c) x"
    and "shl32 x (24 - shl32 c 3) = push_bit (24 - 8 * unat c) x" and "shr32 x (24 - shl32 c 3) = drop_bit (24 - 8 * unat c) x"
    using c by (auto simp: shl32_def shr32_def)
qed

lemma shift_half_offset:
  assumes "unat (c :: u32) = 0 \<or> unat c = 2"
  shows "shl32 x (16 - shl32 c 3) = push_bit (16 - 8 * unat c) x" and "shr32 x (16 - shl32 c 3) = drop_bit (16 - 8 * unat c) x"
proof -
  have c: "c = 0 \<or> c = 2" using assms by (simp add: word_unat_eq_iff)
  show "shl32 x (16 - shl32 c 3) = push_bit (16 - 8 * unat c) x" and "shr32 x (16 - shl32 c 3) = drop_bit (16 - 8 * unat c) x"
    using c by (auto simp: shl32_def shr32_def)
qed

lemma half_offset_cases: "unat (a AND 2 :: u32) = 0 \<or> unat (a AND 2 :: u32) = 2"
  by (simp add: half_offset)

lemma byte_masks:
  "x AND 0xFF = take_bit 8 (x :: u32)" "x AND 0xFFFF = take_bit 16 (x :: u32)"
  "(0xFFFFFFFF :: u32) = NOT 0" "(0xFF :: u32) = mask 8" "(0xFFFF :: u32) = mask 16"
  by (simp_all add: take_bit_eq_mask mask_eq_exp_minus_1)

lemmas offset_shifts = shift_offset [OF byte_offset_less] shift_half_offset [OF half_offset_cases]

text \<open>Loads: the byte or halfword at the address.\<close>

lemma lbu_eq: "execute_mem 0x24 rs rt w = Inr (ucast (u32_be w ! unat (rs AND 3)))"
proof -
  have "take_bit 8 (drop_bit (24 - 8 * unat (rs AND 3)) w) = ucast (u32_be w ! unat (rs AND 3))"
    by (rule bit_word_eqI) (auto simp: bit_u32_be byte_offset_less bit_take_bit_iff bit_drop_bit_eq bit_unsigned_iff)
  then show ?thesis by (simp add: execute_mem_def offset_shifts byte_masks(1))
qed

lemma lb_eq: "execute_mem 0x20 rs rt w = Inr (scast (u32_be w ! unat (rs AND 3)))"
proof -
  have "ucast (drop_bit (24 - 8 * unat (rs AND 3)) w) = u32_be w ! unat (rs AND 3)"
    by (simp only: nth_u32_be byte_offset_less)
  then show ?thesis by (simp add: execute_mem_def offset_shifts sign_extend_8)
qed

text \<open>The halfword at an even offset.\<close>

definition half_at :: "u32 \<Rightarrow> nat \<Rightarrow> 16 word" where
  "half_at w i = from_be (slice_at i (i + 2) (u32_be w))"

lemma half_at_eq: "i = 0 \<or> i = 2 \<Longrightarrow> half_at w i = ucast (drop_bit (16 - 8 * i) w)"
proof -
  assume i: "i = 0 \<or> i = 2"
  have "slice_at i (i + 2) (u32_be w) = [u32_be w ! i, u32_be w ! Suc i]"
    using i by (auto simp: slice_at_def numeral_eq_Suc)
  then have "half_at w i = push_bit 8 (ucast (u32_be w ! i)) OR ucast (u32_be w ! Suc i)"
    by (simp add: half_at_def from_be_def)
  also have "\<dots> = ucast (drop_bit (16 - 8 * i) w)"
    by (rule bit_word_eqI)
      (use i in \<open>auto simp: bit_or_iff bit_push_bit_iff bit_unsigned_iff bit_u32_be bit_drop_bit_eq\<close>)
  finally show ?thesis .
qed

lemma lhu_eq: "execute_mem 0x25 rs rt w = Inr (ucast (half_at w (unat (rs AND 2))))"
proof -
  have "take_bit 16 (drop_bit (16 - 8 * unat (rs AND 2)) w) = ucast (half_at w (unat (rs AND 2)))"
    unfolding half_at_eq [OF half_offset_cases]
    by (rule bit_word_eqI) (auto simp: bit_take_bit_iff bit_unsigned_iff)
  then show ?thesis by (simp add: execute_mem_def offset_shifts byte_masks(2))
qed

lemma lh_eq: "execute_mem 0x21 rs rt w = Inr (scast (half_at w (unat (rs AND 2))))"
  by (simp add: execute_mem_def offset_shifts sign_extend_16 half_at_eq [OF half_offset_cases])

text \<open>Bits of words that are merged under a shifted mask.\<close>

lemma bit_merge_left:
  "p < 32 \<Longrightarrow> bit ((x AND NOT (push_bit s (NOT 0))) OR push_bit s y :: u32) p \<longleftrightarrow> (if s \<le> p then bit y (p - s) else bit x p)"
  by (auto simp: bit_simps)

lemma bit_merge_right:
  "p < 32 \<Longrightarrow> bit ((x AND NOT (drop_bit s (NOT 0))) OR drop_bit s y :: u32) p \<longleftrightarrow> (if p + s < 32 then bit y (p + s) else bit x p)"
  by (auto simp: bit_simps add.commute dest: bit_imp_le_length)

lemma bit_merge_field:
  "p < 32 \<Longrightarrow> bit ((x AND NOT (push_bit s (mask b))) OR (push_bit s y AND push_bit s (mask b)) :: u32) p
    \<longleftrightarrow> (if s \<le> p \<and> p < s + b then bit y (p - s) else bit x p)"
  by (auto simp: bit_simps)

lemma byte_bit_less: "j < 4 \<Longrightarrow> n < 8 \<Longrightarrow> 24 - 8 * j + n < (32 :: nat)"
  by linarith

text \<open>
  The two halves of an unaligned load: \<open>lwl\<close> fills the register from the top with the bytes from
  the address on, \<open>lwr\<close> from the bottom with the bytes up to the address.
\<close>

lemma lwl_eq:
  assumes "execute_mem 0x22 rs rt w = Inr x"
  defines "i \<equiv> unat (rs AND 3)"
  shows "u32_be x = drop i (u32_be w) @ drop (4 - i) (u32_be rt)"
proof (rule u32_be_eqI)
  have i: "i < 4" unfolding i_def by (rule byte_offset_less)
  then show "length (drop i (u32_be w) @ drop (4 - i) (u32_be rt)) = 4" by simp
  have x: "x = (rt AND NOT (push_bit (8 * i) (NOT 0))) OR push_bit (8 * i) w"
    using assms(1) unfolding i_def by (simp add: execute_mem_def Let_def offset_shifts byte_masks(3))
  fix j n :: nat
  assume j: "j < 4" and n: "n < 8"
  have "8 * i \<le> 24 - 8 * j + n \<longleftrightarrow> j + i < 4" "j + i < 4 \<Longrightarrow> 24 - 8 * j + n - 8 * i = 24 - 8 * (i + j) + n"
    "\<not> j + i < 4 \<Longrightarrow> 4 - i + (j - (4 - i)) = j" "j < 4 - i \<longleftrightarrow> j + i < 4"
    using i j n by (linarith, simp, simp, simp add: less_diff_conv)
  then show "bit x (24 - 8 * j + n) \<longleftrightarrow> bit ((drop i (u32_be w) @ drop (4 - i) (u32_be rt)) ! j) n"
    using i j n byte_bit_less [OF j n] unfolding x
    by (simp only: bit_merge_left) (auto simp: nth_append bit_u32_be add.commute)
qed

lemma lwr_eq:
  assumes "execute_mem 0x26 rs rt w = Inr x"
  defines "i \<equiv> unat (rs AND 3)"
  shows "u32_be x = take (3 - i) (u32_be rt) @ take (i + 1) (u32_be w)"
proof (rule u32_be_eqI)
  have i: "i < 4" unfolding i_def by (rule byte_offset_less)
  then show "length (take (3 - i) (u32_be rt) @ take (i + 1) (u32_be w)) = 4" by simp
  have x: "x = (rt AND NOT (drop_bit (24 - 8 * i) (NOT 0))) OR drop_bit (24 - 8 * i) w"
    using assms(1) unfolding i_def by (simp add: execute_mem_def Let_def offset_shifts byte_masks(3))
  fix j n :: nat
  assume j: "j < 4" and n: "n < 8"
  have "24 - 8 * j + n + (24 - 8 * i) < 32 \<longleftrightarrow> 3 - i \<le> j" "3 - i \<le> j \<Longrightarrow> 24 - 8 * j + n + (24 - 8 * i) = 24 - 8 * (j - (3 - i)) + n"
    "3 - i \<le> j \<Longrightarrow> j - (3 - i) < i + 1" "3 - i \<le> j \<Longrightarrow> j - (3 - i) < 4"
    using i j n by linarith+
  then show "bit x (24 - 8 * j + n) \<longleftrightarrow> bit ((take (3 - i) (u32_be rt) @ take (i + 1) (u32_be w)) ! j) n"
    using i j n byte_bit_less [OF j n] unfolding x
    by (simp only: bit_merge_right) (auto simp: nth_append bit_u32_be not_less)
qed

text \<open>Stores: the word with the bytes of the register put in their place.\<close>

lemma sb_eq:
  assumes "execute_mem 0x28 rs rt w = Inr x"
  shows "u32_be x = (u32_be w)[unat (rs AND 3) := ucast rt]"
proof (rule u32_be_eqI)
  let ?i = "unat (rs AND 3)"
  have i: "?i < 4" by (rule byte_offset_less)
  have x: "x = (w AND NOT (push_bit (24 - 8 * ?i) (mask 8))) OR (push_bit (24 - 8 * ?i) rt AND push_bit (24 - 8 * ?i) (mask 8))"
    using assms by (simp only: execute_mem_def Let_def offset_shifts byte_masks) simp
  fix j n :: nat
  assume j: "j < 4" and n: "n < 8"
  have "24 - 8 * ?i \<le> 24 - 8 * j + n \<and> 24 - 8 * j + n < 24 - 8 * ?i + 8 \<longleftrightarrow> j = ?i"
    using i j n by linarith
  then show "bit x (24 - 8 * j + n) \<longleftrightarrow> bit ((u32_be w)[?i := ucast rt] ! j) n"
    using i j n byte_bit_less [OF j n] unfolding x
    by (simp only: bit_merge_field) (auto simp: nth_list_update bit_u32_be bit_unsigned_iff)
qed simp

lemma sh_eq:
  assumes "execute_mem 0x29 rs rt w = Inr x"
  shows "u32_be x = copy_from_slice (unat (rs AND 2)) (be_bytes 2 rt) (u32_be w)"
proof (rule u32_be_eqI)
  let ?i = "unat (rs AND 2)"
  note i = half_offset_cases [of rs]
  show len: "length (copy_from_slice ?i (be_bytes 2 rt) (u32_be w)) = 4" using i by (subst length_copy_from_slice) auto
  have x: "x = (w AND NOT (push_bit (16 - 8 * ?i) (mask 16))) OR (push_bit (16 - 8 * ?i) rt AND push_bit (16 - 8 * ?i) (mask 16))"
    using assms by (simp only: execute_mem_def Let_def offset_shifts byte_masks) simp
  fix j n :: nat
  assume j: "j < 4" and n: "n < 8"
  have be: "bit (be_bytes 2 rt ! t) n \<longleftrightarrow> bit rt (8 - 8 * t + n)" if "t < 2" for t
    using that n by (cases t) (auto simp: numeral_eq_Suc bit_simps)
  have "16 - 8 * ?i \<le> 24 - 8 * j + n \<and> 24 - 8 * j + n < 16 - 8 * ?i + 16 \<longleftrightarrow> ?i \<le> j \<and> j < ?i + 2"
    "?i \<le> j \<and> j < ?i + 2 \<Longrightarrow> 24 - 8 * j + n - (16 - 8 * ?i) = 8 - 8 * (j - ?i) + n"
    using i j n by linarith+
  then show "bit x (24 - 8 * j + n) \<longleftrightarrow> bit (copy_from_slice ?i (be_bytes 2 rt) (u32_be w) ! j) n"
    using i j n byte_bit_less [OF j n] be [of "j - ?i"] unfolding x
    by (simp only: bit_merge_field) (auto simp: nth_copy_from_slice bit_u32_be)
qed

lemma swl_eq:
  assumes "execute_mem 0x2a rs rt w = Inr x"
  defines "i \<equiv> unat (rs AND 3)"
  shows "u32_be x = copy_from_slice i (take (4 - i) (u32_be rt)) (u32_be w)"
proof (rule u32_be_eqI)
  have i: "i < 4" unfolding i_def by (rule byte_offset_less)
  then show "length (copy_from_slice i (take (4 - i) (u32_be rt)) (u32_be w)) = 4" by (subst length_copy_from_slice) auto
  have x: "x = (w AND NOT (drop_bit (8 * i) (NOT 0))) OR drop_bit (8 * i) rt"
    using assms(1) unfolding i_def by (simp add: execute_mem_def Let_def offset_shifts byte_masks(3))
  fix j n :: nat
  assume j: "j < 4" and n: "n < 8"
  have "24 - 8 * j + n + 8 * i < 32 \<longleftrightarrow> i \<le> j" "i \<le> j \<Longrightarrow> 24 - 8 * j + n + 8 * i = 24 - 8 * (j - i) + n"
    using i j n by linarith+
  then show "bit x (24 - 8 * j + n) \<longleftrightarrow> bit (copy_from_slice i (take (4 - i) (u32_be rt)) (u32_be w) ! j) n"
    using i j n byte_bit_less [OF j n] unfolding x
    by (simp only: bit_merge_right) (auto simp: nth_copy_from_slice bit_u32_be)
qed

lemma swr_eq:
  assumes "execute_mem 0x2e rs rt w = Inr x"
  defines "i \<equiv> unat (rs AND 3)"
  shows "u32_be x = drop (3 - i) (u32_be rt) @ drop (i + 1) (u32_be w)"
proof (rule u32_be_eqI)
  have i: "i < 4" unfolding i_def by (rule byte_offset_less)
  then show "length (drop (3 - i) (u32_be rt) @ drop (i + 1) (u32_be w)) = 4" by simp
  have x: "x = (w AND NOT (push_bit (24 - 8 * i) (NOT 0))) OR push_bit (24 - 8 * i) rt"
    using assms(1) unfolding i_def by (simp add: execute_mem_def Let_def offset_shifts byte_masks(3))
  fix j n :: nat
  assume j: "j < 4" and n: "n < 8"
  have a: "24 - 8 * i \<le> 24 - 8 * j + n \<longleftrightarrow> j \<le> i" using i j n by linarith
  have b: "24 - 8 * j + n - (24 - 8 * i) = 24 - 8 * (3 - i + j) + n" if "j \<le> i"
  proof -
    obtain t where t: "i = j + t" using \<open>j \<le> i\<close> le_Suc_ex by blast
    have le: "j + t \<le> 3" using i t by simp
    then have "8 * t \<le> 24 - 8 * j" by linarith
    moreover have "24 - 8 * i = 24 - 8 * j - 8 * t" unfolding t by simp
    ultimately have "24 - 8 * j = 8 * t + (24 - 8 * i)" by linarith
    moreover have "3 - i + j = 3 - t" using le unfolding t by linarith
    moreover have "24 - 8 * (3 - t) = 8 * t" using le by simp
    ultimately show ?thesis by simp
  qed
  have c: "j < 4 - (3 - i) \<longleftrightarrow> j \<le> i" "\<not> j \<le> i \<Longrightarrow> i + 1 + (j - (4 - (3 - i))) = j" using i j by linarith+
  show "bit x (24 - 8 * j + n) \<longleftrightarrow> bit ((drop (3 - i) (u32_be rt) @ drop (i + 1) (u32_be w)) ! j) n"
  proof (cases "j \<le> i")
    case True
    have "(drop (3 - i) (u32_be rt) @ drop (i + 1) (u32_be w)) ! j = u32_be rt ! (3 - i + j)"
      using True c i by (simp add: nth_append)
    moreover have "3 - i + j < 4" using True i by linarith
    ultimately show ?thesis
      unfolding x bit_merge_left [OF byte_bit_less [OF j n]] a using True n by (simp only: b bit_u32_be if_True simp_thms)
  next
    case False
    with c n j i show ?thesis
      unfolding x bit_merge_left [OF byte_bit_less [OF j n]] a by (simp add: nth_append bit_u32_be)
  qed
qed

text \<open>The remaining loads and stores move the whole word.\<close>

lemma word_moves: "execute_mem 0x23 rs rt w = Inr w" "execute_mem 0x30 rs rt w = Inr w"
    "execute_mem 0x2b rs rt w = Inr rt" "execute_mem 0x38 rs rt w = Inr rt"
  by (simp_all add: execute_mem_def)

section \<open>Properties of the instructions\<close>

text \<open>C36. Arithmetic shifts right. \<open>sra\<close> and \<open>srav\<close> shift a signed value by the amount modulo 32,
  except that a shift by zero returns zero instead of the value: \<open>sign_extend\<close> at index 32 has an
  empty mask.\<close>

theorem arithmetic_shift_right:
  "execute_fun 3 instruction rs rt = Inr (if drop_bit 6 instruction AND 0x1F = 0 then 0
      else signed_drop_bit (unat (drop_bit 6 instruction AND 0x1F)) rt)
   \<and> execute_fun 7 instruction rs rt = Inr (if unat rs mod 32 = 0 then 0 else signed_drop_bit (unat rs mod 32) rt)"
proof -
  let ?a = "drop_bit 6 instruction AND 0x1F"
  have "unat ?a mod 32 = unat ?a" using shift_amount_nat [of "drop_bit 6 instruction"] by (rule mod_less)
  moreover have "unat ?a = 0 \<longleftrightarrow> ?a = 0" by (simp only: unat_eq_zero)
  ultimately show ?thesis by (simp only: execute_fun_def Let_def sra_eq) simp
qed

text \<open>\<open>clo\<close> and \<open>clz\<close> return the number of leading ones and of leading zeros, and their loop
  ends on every input.\<close>

lemma count_leading:
  "(\<exists>n. leading_ones rs n \<and> execute_special2 0x21 rs rt = Inr (of_nat n))
   \<and> (\<exists>n. leading_ones (NOT rs) n \<and> execute_special2 0x20 rs rt = Inr (of_nat n))"
  using clo_loop_eq [of rs 0] clo_loop_eq [of "NOT rs" 0] by (auto simp: execute_special2_def)

text \<open>\<open>mult\<close> and \<open>multu\<close> leave the 64 bit product in \<open>hi\<close> and \<open>lo\<close>: the signed product modulo
  \<open>2^64\<close>, and the unsigned product exactly.\<close>

lemma products:
  "(\<exists>s'. handle_hi_lo 0x18 rs rt rd s = Inr s'
      \<and> int (unat (hi s') * 4294967296 + unat (lo s')) = (sint rs * sint rt) mod 18446744073709551616)
   \<and> (\<exists>s'. handle_hi_lo 0x19 rs rt rd s = Inr s'
      \<and> unat (hi s') * 4294967296 + unat (lo s') = unat rs * unat rt)"
proof -
  obtain v s1 where 1: "hi_lo_result 0x18 rs rt s = Inr (v, s1)" by (simp add: hi_lo_result_def Let_def)
  obtain u s2 where 2: "hi_lo_result 0x19 rs rt s = Inr (u, s2)" by (simp add: hi_lo_result_def Let_def)
  show ?thesis
    using mult_result [OF 1] multu_result [OF 2] 1 2 by (simp add: handle_hi_lo_def Let_def)
qed

text \<open>C35. \<open>div\<close> and \<open>divu\<close> leave quotient and remainder in \<open>lo\<close> and \<open>hi\<close>, truncated towards zero for
  signed values. A zero divisor and the one signed overflow make the machine panic.\<close>

theorem quotients:
  "(if rt = 0 \<or> sint rs = - 2147483648 \<and> sint rt = - 1 then handle_hi_lo 0x1a rs rt rd s = Inl PanicRemainder
    else \<exists>s'. handle_hi_lo 0x1a rs rt rd s = Inr s' \<and> sint (lo s') = sint rs sdiv sint rt \<and> sint (hi s') = sint rs smod sint rt)
   \<and> (if rt = 0 then handle_hi_lo 0x1b rs rt rd s = Inl PanicRemainder
    else \<exists>s'. handle_hi_lo 0x1b rs rt rd s = Inr s' \<and> unat (lo s') = unat rs div unat rt \<and> unat (hi s') = unat rs mod unat rt)"
proof -
  have "\<exists>s'. handle_hi_lo 0x1a rs rt rd s = Inr s' \<and> sint (lo s') = sint rs sdiv sint rt \<and> sint (hi s') = sint rs smod sint rt"
    if "\<not> (rt = 0 \<or> rs = 0x80000000 \<and> rt = 0xFFFFFFFF)"
  proof -
    from that obtain v s1 where 1: "hi_lo_result 0x1a rs rt s = Inr (v, s1)" by (auto simp: hi_lo_result_def)
    with div_result [OF 1] show ?thesis by (simp add: handle_hi_lo_def Let_def)
  qed
  moreover have "handle_hi_lo 0x1a rs rt rd s = Inl PanicRemainder" if "rt = 0 \<or> rs = 0x80000000 \<and> rt = 0xFFFFFFFF"
    using that by (auto simp: handle_hi_lo_def hi_lo_result_def)
  moreover have "if rt = 0 then handle_hi_lo 0x1b rs rt rd s = Inl PanicRemainder
    else \<exists>s'. handle_hi_lo 0x1b rs rt rd s = Inr s' \<and> unat (lo s') = unat rs div unat rt \<and> unat (hi s') = unat rs mod unat rt"
    by (simp add: handle_hi_lo_def hi_lo_result_def Let_def unat_div_distrib unat_mod_distrib)
  ultimately show ?thesis unfolding sint_u32_cases by metis
qed

text \<open>Loads of bytes and halfwords return the byte at the address, or the halfword at the address
  with its last bit dropped, extended with zeros or with the sign.\<close>

lemma narrow_loads:
  "execute_mem 0x24 rs rt w = Inr (ucast (u32_be w ! (unat rs mod 4)))
   \<and> execute_mem 0x20 rs rt w = Inr (scast (u32_be w ! (unat rs mod 4)))
   \<and> execute_mem 0x25 rs rt w = Inr (ucast (half_at w (if bit rs 1 then 2 else 0)))
   \<and> execute_mem 0x21 rs rt w = Inr (scast (half_at w (if bit rs 1 then 2 else 0)))"
  by (simp only: lbu_eq lb_eq lhu_eq lh_eq half_offset and_3_mod)

text \<open>Stores merge the register into the old word: \<open>sb\<close> replaces one byte, \<open>sh\<close> one halfword,
  \<open>swl\<close> the bytes from the address to the end of the word by the upper bytes of the register, and
  \<open>swr\<close> the bytes up to the address by its lower bytes. All other bytes stay.\<close>

lemma stores_merge:
  "(\<exists>x. execute_mem 0x28 rs rt w = Inr x \<and> u32_be x = (u32_be w)[unat rs mod 4 := ucast rt])
   \<and> (\<exists>x. execute_mem 0x29 rs rt w = Inr x \<and> u32_be x = copy_from_slice (if bit rs 1 then 2 else 0) (be_bytes 2 rt) (u32_be w))
   \<and> (\<exists>x. execute_mem 0x2a rs rt w = Inr x \<and> u32_be x = copy_from_slice (unat rs mod 4) (take (4 - unat rs mod 4) (u32_be rt)) (u32_be w))
   \<and> (\<exists>x. execute_mem 0x2e rs rt w = Inr x \<and> u32_be x = drop (3 - unat rs mod 4) (u32_be rt) @ drop (unat rs mod 4 + 1) (u32_be w))
   \<and> execute_mem 0x2b rs rt w = Inr rt"
proof -
  obtain x1 x2 x3 x4 where x: "execute_mem 0x28 rs rt w = Inr x1" "execute_mem 0x29 rs rt w = Inr x2"
      "execute_mem 0x2a rs rt w = Inr x3" "execute_mem 0x2e rs rt w = Inr x4"
    by (simp add: execute_mem_def Let_def)
  show ?thesis
    using sb_eq [OF x(1)] sh_eq [OF x(2)] swl_eq [OF x(3)] swr_eq [OF x(4)] x word_moves(3)
    unfolding half_offset and_3_mod by blast
qed

lemma u32_be_word_at: "u32_be (from_be (map g [0..<4])) = map g [0..<4]"
  using be_bytes_from_be [of "map g [0..<4]", where ?'a = 32] by simp

lemma aligned_down: "unat (a AND 0xFFFFFFFC :: u32) = unat a - unat a mod 4"
proof -
  have m: "(0xFFFFFFFC :: u32) = NOT (mask 2)" by (simp add: mask_eq_exp_minus_1)
  have "unat (a AND NOT (mask 2)) = unat (push_bit 2 (drop_bit 2 a))"
  proof (rule arg_cong [of _ _ unat], rule bit_word_eqI)
    fix n
    assume "n < LENGTH(32)"
    then show "bit (a AND NOT (mask 2)) n = bit (push_bit 2 (drop_bit 2 a)) n"
      using le_add_diff_inverse [of 2 n] by (cases "2 \<le> n") (simp_all only: bit_simps, auto)
  qed
  also have "\<dots> = unat a div 4 * 4"
  proof -
    have "unat (drop_bit 2 a) = unat a div 4" by (simp only: unat_drop_bit_eq) (simp add: drop_bit_eq_div)
    moreover have "unat a div 4 * 4 < 4294967296" using u32_less [of a] by linarith
    ultimately show ?thesis by (simp add: push_bit_eq_mult unat_word_ariths del: unat_div_distrib)
  qed
  finally show ?thesis unfolding m by (simp add: minus_mod_eq_div_mult)
qed

lemma lwl_lwr:
  assumes "unat a + 3 < 4294967296"
    and "execute_mem 0x22 a rt (word_at f (a AND 0xFFFFFFFC)) = Inr x"
    and "execute_mem 0x26 (a + 3) x (word_at f ((a + 3) AND 0xFFFFFFFC)) = Inr y"
  shows "u32_be y = map (\<lambda>i. f (unat a + i)) [0..<4]"
proof -
  let ?i = "unat a mod 4"
  have a3: "unat (a + 3) = unat a + 3" using assms(1) by (simp add: unat_word_ariths)
  have x: "u32_be x = drop ?i (map (\<lambda>i. f (unat a - ?i + i)) [0..<4]) @ drop (4 - ?i) (u32_be rt)"
    using lwl_eq [OF assms(2)] unfolding and_3_mod aligned_down u32_be_word_at .
  have y: "u32_be y = take (3 - (unat a + 3) mod 4) (u32_be x)
      @ take ((unat a + 3) mod 4 + 1) (map (\<lambda>i. f (unat a + 3 - (unat a + 3) mod 4 + i)) [0..<4])"
    using lwr_eq [OF assms(3)] unfolding and_3_mod aligned_down a3 u32_be_word_at .
  have i: "?i < 4" by simp
  show ?thesis
  proof (cases "?i = 0")
    case True
    then have "(unat a + 3) mod 4 = 3" by presburger
    with y show ?thesis by simp
  next
    case False
    then have m: "(unat a + 3) mod 4 = ?i - 1" using i by presburger
    have "unat a = 4 * (unat a div 4) + ?i" by simp
    then have e: "unat a + 3 - (?i - 1) = unat a - ?i + 4" using False i by linarith
    have "u32_be y ! j = f (unat a + j)" if "j < 4" for j
    proof (cases "j < 4 - ?i")
      case True
      then have "u32_be y ! j = f (unat a - ?i + (?i + j))"
        using False i unfolding y m x by (simp add: nth_append add.commute)
      then show ?thesis by simp
    next
      case jge: False
      then have "u32_be y ! j = f (unat a - ?i + 4 + (j - (4 - ?i)))"
        using False i that unfolding y m x e by (simp add: nth_append)
      moreover have "unat a - ?i + 4 + (j - (4 - ?i)) = unat a + j" using jge i mod_less_eq_dividend [of "unat a" 4] by linarith
      ultimately show ?thesis by simp
    qed
    then show ?thesis by (intro nth_equalityI) simp_all
  qed
qed

text \<open>C40. Unaligned loads. The pair \<open>lwl\<close> at an address and \<open>lwr\<close> three bytes later succeeds and loads the four bytes at that
  address into the register, whatever the register held and whether the address is aligned or not.\<close>

theorem unaligned_load:
  assumes "unat a + 3 < 4294967296"
  shows "\<exists>x y. execute_mem 0x22 a rt (word_at f (a AND 0xFFFFFFFC)) = Inr x
    \<and> execute_mem 0x26 (a + 3) x (word_at f ((a + 3) AND 0xFFFFFFFC)) = Inr y \<and> u32_be y = map (\<lambda>i. f (unat a + i)) [0..<4]"
proof -
  obtain x where x: "execute_mem 0x22 a rt (word_at f (a AND 0xFFFFFFFC)) = Inr x" by (simp add: execute_mem_def Let_def)
  obtain y where y: "execute_mem 0x26 (a + 3) x (word_at f ((a + 3) AND 0xFFFFFFFC)) = Inr y" by (simp add: execute_mem_def Let_def)
  from x y lwl_lwr [OF assms x y] show ?thesis by blast
qed

theorem unaligned_load_witness:
  "\<exists>y. execute_mem 0x26 9 0x06070000 (word_at of_nat 8) = Inr y \<and> u32_be y = map (\<lambda>i. of_nat (6 + i)) [0..<4]"
proof -
  have w: "word_at of_nat 4 = (0x04050607 :: u32)" by (simp add: from_be_def upt_rec push_bit_eq_mult)
  have a: "(6 :: u32) AND 0xFFFFFFFC = 4" "((6 :: u32) + 3) AND 0xFFFFFFFC = 8" "(6 :: u32) + 3 = 9" "unat (6 :: u32) = 6" by simp_all
  have "execute_mem 0x22 6 0 (word_at of_nat (6 AND 0xFFFFFFFC)) = Inr 0x06070000"
    unfolding a w by (simp add: execute_mem_def shl32_def Let_def)
  moreover have "unat (6 :: u32) + 3 < 4294967296" by simp
  ultimately show ?thesis using unaligned_load [where a = 6 and rt = 0 and f = of_nat] unfolding a by fastforce
qed

end
