(* ===== verification/Mips_Sys.thy ===== *)
theory Mips_Sys
  imports Demo Mips_Isa
begin

text \<open>
  The system calls: what preimage reads and writes do to memory and key, how hints leave the
  buffer, what is written to the two outputs, and how the heap grows.
\<close>

section \<open>Bytes of one word\<close>

lemma chunk_in_word:
  fixes a :: u32
  assumes "n \<le> 4 - unat a mod 4" and "i < n"
  shows "unat (a + of_nat i) = unat a + i" and "unat a + i = unat (a AND 0xFFFFFFFC) + (unat a mod 4 + i)" and "unat a mod 4 + i < 4"
proof -
  have m: "unat a = 4 * (unat a div 4) + unat a mod 4" by simp
  have "unat a div 4 < 1073741824" using u32_less [of a] by (simp add: div_less_iff_less_mult)
  then have "unat a + i < 4294967296" using m assms by linarith
  then show "unat (a + of_nat i) = unat a + i" by (simp add: unat_plus_of_nat)
  show "unat a + i = unat (a AND 0xFFFFFFFC) + (unat a mod 4 + i)"
    unfolding aligned_down using mod_less_eq_dividend [of "unat a" 4] by simp
  show "unat a mod 4 + i < 4" using assms by linarith
qed

text \<open>The bytes from an address to at most the end of its word, read from the word.\<close>

lemma word_bytes_range:
  assumes "n \<le> 4 - unat a mod 4"
  shows "take n (drop (unat a mod 4) (u32_be (mem_word m (a AND 0xFFFFFFFC)))) = mem_range m a n"
proof (rule nth_equalityI)
  show "length (take n (drop (unat a mod 4) (u32_be (mem_word m (a AND 0xFFFFFFFC))))) = length (mem_range m a n)"
    using assms by simp
  fix i
  assume "i < length (take n (drop (unat a mod 4) (u32_be (mem_word m (a AND 0xFFFFFFFC)))))"
  then have i: "i < n" by simp
  note c = chunk_in_word [OF assms i]
  have "u32_be (mem_word m (a AND 0xFFFFFFFC)) = map (\<lambda>j. mem_byte m (unat (a AND 0xFFFFFFFC) + j)) [0..<4]"
    unfolding mem_word_def by (rule u32_be_word_at)
  then have "take n (drop (unat a mod 4) (u32_be (mem_word m (a AND 0xFFFFFFFC)))) ! i
      = map (\<lambda>j. mem_byte m (unat (a AND 0xFFFFFFFC) + j)) [0..<4] ! (unat a mod 4 + i)"
    using i assms by (simp del: upt_rec_numeral)
  also have "\<dots> = mem_byte m (unat (a AND 0xFFFFFFFC) + (unat a mod 4 + i))"
    using c(3) by (subst nth_map) (simp_all del: upt_rec_numeral)
  finally show "take n (drop (unat a mod 4) (u32_be (mem_word m (a AND 0xFFFFFFFC)))) ! i = mem_range m a n ! i"
    using c i by (simp add: mem_range_def)
qed

text \<open>The word that has some of its bytes replaced.\<close>

lemma word_with_bytes:
  assumes "length bs \<le> 4 - unat a mod 4"
  shows "u32_be (from_be (copy_from_slice (unat a mod 4) bs (u32_be x)) :: u32) = copy_from_slice (unat a mod 4) bs (u32_be x)"
proof -
  have "unat a mod 4 + length bs \<le> length (u32_be x)"
    using assms mod_less_divisor [of 4 "unat a"] unfolding length_be_bytes by linarith
  then have "length (copy_from_slice (unat a mod 4) bs (u32_be x)) = 4" by (simp only: length_copy_from_slice length_be_bytes)
  then show ?thesis using be_bytes_from_be [of "copy_from_slice (unat a mod 4) bs (u32_be x)", where ?'a = 32] by simp
qed

text \<open>Writing them back.\<close>

lemma word_bytes_write:
  assumes n: "length bs \<le> 4 - unat a mod 4"
  shows "overwrite (unat (a AND 0xFFFFFFFC)) (copy_from_slice (unat a mod 4) bs (u32_be (mem_word m (a AND 0xFFFFFFFC)))) (mem_byte m)
    = overwrite (unat a) bs (mem_byte m)"
proof
  fix b
  let ?w = "unat (a AND 0xFFFFFFFC)" and ?o = "unat a mod 4"
  have w: "?w + ?o = unat a" unfolding aligned_down using mod_less_eq_dividend [of "unat a" 4] by simp
  have o: "?o + length bs \<le> 4" using n mod_less_divisor [of 4 "unat a"] by linarith
  have len: "length (copy_from_slice ?o bs (u32_be (mem_word m (a AND 0xFFFFFFFC)))) = 4" using o by simp
  have word: "u32_be (mem_word m (a AND 0xFFFFFFFC)) ! j = mem_byte m (?w + j)" if "j < 4" for j
    using that unfolding mem_word_def u32_be_word_at by (subst nth_map) (simp_all del: upt_rec_numeral)
  show "overwrite ?w (copy_from_slice ?o bs (u32_be (mem_word m (a AND 0xFFFFFFFC)))) (mem_byte m) b
      = overwrite (unat a) bs (mem_byte m) b"
  proof (cases "?w \<le> b \<and> b < ?w + 4")
    case True
    then obtain j where j: "b = ?w + j" "j < 4" by (metis le_add_diff_inverse nat_add_left_cancel_less)
    have "?w + j - unat a = j - ?o" "unat a \<le> ?w + j \<longleftrightarrow> ?o \<le> j" "?w + j < unat a + length bs \<longleftrightarrow> j < ?o + length bs"
      using w by linarith+
    then show ?thesis
      unfolding overwrite_def len j(1) using j(2) o word [OF j(2)] by (auto simp: nth_copy_from_slice)
  next
    case False
    then have "\<not> (unat a \<le> b \<and> b < unat a + length bs)" using w o by linarith
    with False show ?thesis unfolding overwrite_def len by (simp only: if_False)
  qed
qed

section \<open>Preimage keys\<close>

lemma min_space: "unat (if 4 - (a AND 3) < c then 4 - (a AND 3) else c :: u32) = min (unat c) (4 - unat a mod 4)"
proof -
  have "unat (a AND 3) < 4" by (rule byte_offset_less)
  then have "unat (4 - (a AND 3)) = 4 - unat a mod 4" by (simp add: unat_sub word_le_nat_alt and_3_mod [symmetric])
  then show ?thesis by (auto simp: word_less_nat_alt min_def)
qed

text \<open>The bytes written to the preimage file descriptor enter the key at its end.\<close>

lemma sys_write_preimage_eq:
  assumes k: "hash32 k" and env: "env_keccak env = k" and inv: "step_inv k m0 v"
    and sys: "sys_write_preimage env a1 a2 v = Inr (v0, v')"
  defines "n \<equiv> min (unat a2) (4 - unat a1 mod 4)"
  shows "unat v0 = n \<and> preimage_offset (vm_state v') = 0
    \<and> preimage_key (vm_state v') = drop n (preimage_key (vm_state v)) @ mem_range (vm_memory v) a1 n"
proof -
  let ?a = "a1 AND 0xFFFFFFFC" and ?n = "if 4 - (a1 AND 3) < a2 then 4 - (a1 AND 3) else a2"
  have n: "unat ?n = n" unfolding n_def by (rule min_space)
  obtain v1 x v2 where tr: "track_mem_access env ?a v = Inr v1" and get: "vm_get_memory ?a v1 = Inr (x, v2)"
    and v': "v0 = ?n" "v' = v2\<lparr>vm_state := (vm_state v2)\<lparr>preimage_key :=
        copy_from_slice (32 - n) (take n (drop (unat (a1 AND 3)) (u32_be x)))
          (copy_from_slice 0 (drop n (preimage_key (vm_state v2))) (preimage_key (vm_state v2))), preimage_offset := 0\<rparr>\<rparr>"
    using sys unfolding n [symmetric] by (auto simp: sys_write_preimage_def Let_def)
  note t = track_mem_access_ok [OF k env inv aligned_mask tr]
  note g = vm_get_memory_ok [OF t(1) get]
  have key: "preimage_key (vm_state v2) = preimage_key (vm_state v)" and byte: "mem_byte (vm_memory v1) = mem_byte (vm_memory v)"
    using t(2) g(2) by (auto elim!: refreshesE)
  have len: "length (preimage_key (vm_state v)) = 32" using step_inv_sizes [OF inv] by simp
  have n4: "n \<le> 4 - unat a1 mod 4" "n \<le> 4" by (simp_all add: n_def)
  have new: "take n (drop (unat (a1 AND 3)) (u32_be x)) = mem_range (vm_memory v) a1 n"
    using word_bytes_range [OF n4(1), of "vm_memory v1"] mem_range_cong [OF byte] unfolding g(3) and_3_mod by simp
  have "copy_from_slice (32 - n) (mem_range (vm_memory v) a1 n) (copy_from_slice 0 (drop n (preimage_key (vm_state v))) (preimage_key (vm_state v)))
      = drop n (preimage_key (vm_state v)) @ mem_range (vm_memory v) a1 n"
    using len n4(2) by (simp add: copy_from_slice_def)
  with v' n key new show ?thesis by simp
qed

text \<open>Chunks that shift through a key of 32 bytes.\<close>

lemma key_shift:
  assumes "length key = N" and "\<And>c. c \<in> set cs \<Longrightarrow> length c \<le> N"
  shows "foldl (\<lambda>key c. drop (length c) key @ c) key cs = drop (length (concat cs)) (key @ concat cs)"
  using assms
proof (induction cs arbitrary: key)
  case (Cons c cs)
  have "length (drop (length c) key @ c) = N" using Cons.prems by simp
  then have "foldl (\<lambda>key c. drop (length c) key @ c) key (c # cs) = drop (length (concat cs)) ((drop (length c) key @ c) @ concat cs)"
    using Cons by simp
  also have "(drop (length c) key @ c) @ concat cs = drop (length c) (key @ c @ concat cs)"
    using Cons.prems by simp
  finally show ?case by (simp only: drop_drop concat.simps length_append add.commute)
qed simp

section \<open>Preimage reads\<close>

text \<open>The cached preimage: its length in front, or the empty cache of a new machine.\<close>

lemma read_preimage_eq:
  assumes "read_preimage env key offset v = Inr ((dat, n), v')"
  shows "n = min 32 (length (last_preimage v') - unat offset)" and "take n dat = take n (drop (unat offset) (last_preimage v'))"
    and "unat offset \<le> length (last_preimage v')" and "last_preimage_offset v' = offset"
    and "key = last_preimage_key v \<Longrightarrow> last_preimage v' = last_preimage v"
    and "key \<noteq> last_preimage_key v \<Longrightarrow> \<exists>d orc. env_get env (preimage_oracle v) key = Inr (d, orc) \<and> last_preimage v' = u64_be (of_nat (length d)) @ d"
    and "last_preimage_key v' = key"
proof -
  obtain v1 where v1: "(if key \<noteq> last_preimage_key v then
          rbind (env_get env (preimage_oracle v) key) (\<lambda>(dat, oracle).
            Inr (v\<lparr>preimage_oracle := oracle, last_preimage_key := key, last_preimage := u64_be (of_nat (length dat)) @ dat\<rparr>))
        else Inr v) = Inr v1"
    and r: "\<not> length (last_preimage v1) < unat offset" "v' = v1\<lparr>last_preimage_offset := offset\<rparr>"
      "dat = copy_from_slice 0 (take 32 (drop (unat offset) (last_preimage v1))) (replicate 32 0)"
      "n = length (take 32 (drop (unat offset) (last_preimage v1)))"
    using assms by (auto simp: read_preimage_def Let_def split: if_split_asm)
  show "n = min 32 (length (last_preimage v') - unat offset)" "take n dat = take n (drop (unat offset) (last_preimage v'))"
    "unat offset \<le> length (last_preimage v')" "last_preimage_offset v' = offset"
    using r by (simp_all add: copy_from_slice_def)
  show "key = last_preimage_key v \<Longrightarrow> last_preimage v' = last_preimage v" and "last_preimage_key v' = key"
    and "key \<noteq> last_preimage_key v \<Longrightarrow> \<exists>d orc. env_get env (preimage_oracle v) key = Inr (d, orc) \<and> last_preimage v' = u64_be (of_nat (length d)) @ d"
    using v1 r(2) by (auto split: if_splits)
qed

lemma sys_read_preimage_eq:
  assumes k: "hash32 k" and env: "env_keccak env = k" and inv: "step_inv k m0 v"
    and sys: "sys_read_preimage env a1 a2 v = Inr (v0, v')"
  defines "off \<equiv> unat (preimage_offset (vm_state v))"
  defines "n \<equiv> min (unat a2) (min (4 - unat a1 mod 4) (length (last_preimage v') - off))"
  shows "unat v0 = n \<and> preimage_offset (vm_state v') = preimage_offset (vm_state v) + of_nat n
    \<and> mem_byte (vm_memory v') = overwrite (unat a1) (take n (drop off (last_preimage v'))) (mem_byte (vm_memory v))"
proof -
  let ?a = "a1 AND 0xFFFFFFFC" and ?o = "unat a1 mod 4"
  obtain v1 x v2 dat l v3 where
    tr: "track_mem_access env ?a v = Inr v1" and get: "vm_get_memory ?a v1 = Inr (x, v2)"
    and rp: "read_preimage env (preimage_key (vm_state v2)) (preimage_offset (vm_state v2)) v2 = Inr ((dat, l), v3)"
    and rest: "(let data_len = (if 4 - unat (a1 AND 3) < l then 4 - unat (a1 AND 3) else l);
              data_len = (if unat a2 < data_len then unat a2 else data_len);
              out_mem = copy_from_slice (unat (a1 AND 3)) (take data_len dat) (u32_be x)
          in rbind (vm_set_memory env ?a (from_be out_mem) v3) (\<lambda>v4.
               Inr (of_nat data_len :: u32,
                    v4\<lparr>vm_state := (vm_state v4)\<lparr>preimage_offset := preimage_offset (vm_state v4) + of_nat data_len\<rparr>\<rparr>))) = Inr (v0, v')"
    using sys unfolding sys_read_preimage_def Let_def by (elim rbind_InrE) (auto split: prod.splits)
  note t = track_mem_access_ok [OF k env inv aligned_mask tr]
  note g = vm_get_memory_ok [OF t(1) get]
  note r = read_preimage_still [OF rp] and e = read_preimage_eq [OF rp]
  let ?n = "min (unat a2) (min (4 - ?o) l)"
  have len: "(if unat a2 < (if 4 - ?o < l then 4 - ?o else l) then unat a2 else (if 4 - ?o < l then 4 - ?o else l)) = ?n"
    by (auto simp: min_def)
  obtain v4 where set: "vm_set_memory env ?a (from_be (copy_from_slice ?o (take ?n dat) (u32_be x))) v3 = Inr v4"
    and v': "v0 = of_nat ?n" "v' = v4\<lparr>vm_state := (vm_state v4)\<lparr>preimage_offset := preimage_offset (vm_state v4) + of_nat ?n\<rparr>\<rparr>"
    using rest unfolding Let_def and_3_mod len by (elim rbind_InrE) auto
  have i3: "step_inv k m0 v3" by (rule step_inv_cong [OF g(1)]) (use r step_inv_mem [OF g(1)] step_inv_sizes [OF g(1)] in simp_all)
  have last: "last_mem_access v3 = ?a" if "mem_proof_enabled v3"
    using that r g(5) t(3) refreshes_still [OF g(2)] by (simp add: still_def)
  note w = vm_set_memory_ok [OF env i3 last set]
  have b: "mem_byte (vm_memory v1) = mem_byte (vm_memory v)" "mem_byte (vm_memory v3) = mem_byte (vm_memory v)"
    "preimage_offset (vm_state v2) = preimage_offset (vm_state v)" "preimage_offset (vm_state v3) = preimage_offset (vm_state v)"
    using t(2) g(2) r(1) by (auto elim!: refreshesE)
  have x: "x = mem_word (vm_memory v) ?a" using g(3) b(1) by (simp add: mem_word_def)
  have lp: "last_preimage v' = last_preimage v3" using v'(2) w(3) by (metis (no_types) instrumented.select_convs(8) instrumented.surjective instrumented.update_convs(1))
  have "4 - ?o \<le> 32" by linarith
  then have n: "?n = n" using e(1) unfolding n_def off_def b(3) lp by (simp add: min_def)
  have sz: "length (take ?n dat) \<le> 4 - unat a1 mod 4" by simp
  note be = word_with_bytes [OF sz, of x]
  have bytes: "mem_byte (vm_memory v4) = overwrite (unat a1) (take ?n dat) (mem_byte (vm_memory v))"
    using w(4) word_bytes_write [OF sz, of "vm_memory v"] unfolding be b(2) unfolding x by simp
  have "take ?n dat = take ?n (take l dat)" by simp
  also have "\<dots> = take ?n (drop off (last_preimage v'))" unfolding e(2) lp off_def b(3) by simp
  finally have dat: "take ?n dat = take ?n (drop off (last_preimage v'))" .
  have "n \<le> 4" by (simp add: n_def)
  then have "unat (of_nat n :: u32) = n" by (simp add: unat_of_nat)
  moreover have "preimage_offset (vm_state v4) = preimage_offset (vm_state v)"
    using w(3) b(4) by (metis instrumented.select_convs(1) instrumented.surjective instrumented.update_convs(1) state.select_convs(3) state.surjective state.update_convs(1))
  ultimately show ?thesis using v' bytes n dat by simp
qed

text \<open>Where the data comes from: the cache when the key is the cached one, and otherwise the oracle, which is asked for the key.\<close>

definition preimage_view :: "('o, 'w) instrumented \<Rightarrow> bytes \<times> 'o \<times> bytes \<times> bytes" where
  "preimage_view v = (preimage_key (vm_state v), preimage_oracle v, last_preimage_key v, last_preimage v)"

lemma preimage_view_ops:
  "track_mem_access env a v = Inr v' \<Longrightarrow> preimage_view v' = preimage_view v" "vm_get_memory a v = Inr (x, v') \<Longrightarrow> preimage_view v' = preimage_view v"
  "vm_set_memory env a y v = Inr v' \<Longrightarrow> preimage_view v' = preimage_view v"
  by (auto simp: preimage_view_def track_mem_access_def vm_get_memory_def vm_set_memory_def Let_def split: if_splits)

definition preimage_source :: "('o, 'w) env \<Rightarrow> bytes \<Rightarrow> ('o, 'w) instrumented \<Rightarrow> ('o, 'w) instrumented \<Rightarrow> bool" where
  "preimage_source env key v v' \<longleftrightarrow> last_preimage_key v' = key \<and>
    (if key = last_preimage_key v then last_preimage v' = last_preimage v \<and> preimage_oracle v' = preimage_oracle v
     else \<exists>d. env_get env (preimage_oracle v) key = Inr (d, preimage_oracle v') \<and> last_preimage v' = u64_be (of_nat (length d)) @ d)"

lemma read_preimage_source: "read_preimage env key offset v = Inr (x, v') \<Longrightarrow> preimage_source env key v v'"
  by (auto simp: read_preimage_def preimage_source_def Let_def split: if_split_asm)

lemma sys_read_preimage_source:
  assumes "sys_read_preimage env a1 a2 v = Inr (x, v')"
  shows "preimage_source env (preimage_key (vm_state v)) v v'"
proof -
  obtain v1 w v2 dat n v3 v4 val l where
    v1: "track_mem_access env (a1 AND 0xFFFFFFFC) v = Inr v1" and v2: "vm_get_memory (a1 AND 0xFFFFFFFC) v1 = Inr (w, v2)"
    and v3: "read_preimage env (preimage_key (vm_state v2)) (preimage_offset (vm_state v2)) v2 = Inr ((dat, n), v3)"
    and v4: "vm_set_memory env (a1 AND 0xFFFFFFFC) val v3 = Inr v4"
    and v': "v' = v4\<lparr>vm_state := (vm_state v4)\<lparr>preimage_offset := preimage_offset (vm_state v4) + of_nat l\<rparr>\<rparr>"
    using assms by (auto simp: sys_read_preimage_def Let_def)
  have "preimage_view v2 = preimage_view v" using preimage_view_ops(1) [OF v1] preimage_view_ops(2) [OF v2] by simp
  moreover have "preimage_view v' = preimage_view v3" using preimage_view_ops(3) [OF v4] v' by (simp add: preimage_view_def)
  ultimately show ?thesis using read_preimage_source [OF v3] by (simp add: preimage_view_def preimage_source_def split: if_splits del: be_bytes.simps)
qed

section \<open>Properties of the system calls\<close>

text \<open>C31. A read from the preimage file descriptor. If the key of the state is not the key of the cached preimage, the
  oracle is asked for that key, and its answer, with its length in front, becomes the cached preimage; if it is, the cached
  preimage is used and the oracle is not asked. The read overwrites memory at \<open>a1\<close> with the next bytes of the
  length-prefixed preimage, as many as are asked for, remain, and fit into the word of \<open>a1\<close>; it
  returns their number and advances the offset by it. No other byte changes.\<close>

theorem preimage_read:
  assumes "hash32 k" and "env_keccak env = k" and "step_inv k m0 v"
    and "sys_read_preimage env a1 a2 v = Inr (v0, v')"
  shows "unat v0 = min (unat a2) (min (4 - unat a1 mod 4) (length (last_preimage v') - unat (preimage_offset (vm_state v))))
    \<and> preimage_offset (vm_state v') = preimage_offset (vm_state v) + v0
    \<and> mem_byte (vm_memory v') = overwrite (unat a1)
        (take (unat v0) (drop (unat (preimage_offset (vm_state v))) (last_preimage v'))) (mem_byte (vm_memory v))
    \<and> last_preimage_key v' = preimage_key (vm_state v)
    \<and> (if preimage_key (vm_state v) = last_preimage_key v
       then last_preimage v' = last_preimage v \<and> preimage_oracle v' = preimage_oracle v
       else \<exists>d. env_get env (preimage_oracle v) (preimage_key (vm_state v)) = Inr (d, preimage_oracle v')
         \<and> last_preimage v' = u64_be (of_nat (length d)) @ d)"
proof -
  note e = sys_read_preimage_eq [OF assms] and src = sys_read_preimage_source [OF assms(4), unfolded preimage_source_def]
  then have "v0 = of_nat (min (unat a2) (min (4 - unat a1 mod 4) (length (last_preimage v') - unat (preimage_offset (vm_state v)))))"
    by (metis of_nat_unat unat_of_nat word_unat_eq_iff ucast_id unsigned_of_nat)
  with e have "unat v0 = min (unat a2) (min (4 - unat a1 mod 4) (length (last_preimage v') - unat (preimage_offset (vm_state v))))
    \<and> preimage_offset (vm_state v') = preimage_offset (vm_state v) + v0
    \<and> mem_byte (vm_memory v') = overwrite (unat a1)
        (take (unat v0) (drop (unat (preimage_offset (vm_state v))) (last_preimage v'))) (mem_byte (vm_memory v))" by metis
  with src show ?thesis by blast
qed

theorem preimage_read_witness:
  "\<exists>v0 v'. sys_read_preimage demo_env 0 4 demo_key_vm = Inr (v0, v') \<and> last_preimage v' = u64_be 3 @ [1, 2, 3]
    \<and> mem_byte (vm_memory v') = overwrite 0 (take (unat v0) (last_preimage v')) (mem_byte memory_default)"
proof -
  obtain v0 v' where r: "sys_read_preimage demo_env 0 4 demo_key_vm = Inr (v0, v')" using demo_read_preimage by blast
  have "(replicate 32 9 :: bytes) \<noteq> replicate 32 0" by simp
  with preimage_read [OF demo_hash32 demo_keccak demo_key_inv r] r show ?thesis
    by (auto simp: demo_key_facts demo_env_def simp del: be_bytes.simps)
qed

text \<open>C32. Keys. A write to the preimage file descriptor shifts the bytes at \<open>a1\<close>, up to the end of its
  word, into the end of the key and resets the offset; once chunks of 32 bytes in all have been
  shifted in, the key consists of exactly these bytes.\<close>

theorem preimage_key_write:
  assumes "hash32 k" and "env_keccak env = k" and "step_inv k m0 v"
    and "sys_write_preimage env a1 a2 v = Inr (v0, v')"
  shows "unat v0 = min (unat a2) (4 - unat a1 mod 4) \<and> preimage_offset (vm_state v') = 0
    \<and> preimage_key (vm_state v') = drop (unat v0) (preimage_key (vm_state v)) @ mem_range (vm_memory v) a1 (unat v0)
    \<and> (\<forall>cs. (\<forall>c \<in> set cs. length c \<le> 4) \<longrightarrow> length (concat cs) = 32
        \<longrightarrow> foldl (\<lambda>key c. drop (length c) key @ c) (preimage_key (vm_state v')) cs = concat cs)"
proof -
  note e = sys_write_preimage_eq [OF assms]
  have len: "length (preimage_key (vm_state v')) = 32"
    using sys_write_preimage_ok [OF assms] step_inv_sizes by blast
  have "foldl (\<lambda>key c. drop (length c) key @ c) (preimage_key (vm_state v')) cs = concat cs"
    if "\<forall>c \<in> set cs. length c \<le> 4" "length (concat cs) = 32" for cs
  proof -
    have "length c \<le> 32" if "c \<in> set cs" for c using that \<open>\<forall>c \<in> set cs. length c \<le> 4\<close> by fastforce
    from key_shift [OF len this] that(2) len show ?thesis by simp
  qed
  with e show ?thesis by simp
qed

theorem preimage_key_write_witness:
  "\<exists>v'. sys_write_preimage demo_env 0 4 demo_key_vm = Inr (4, v')
    \<and> preimage_key (vm_state v') = replicate 28 9 @ mem_range memory_default 0 4"
  using demo_write_preimage preimage_key_write [OF demo_hash32 demo_keccak demo_key_inv, of 0 4] by (fastforce simp: demo_key_facts)

text \<open>C33. Hints. Of the buffered bytes, a hint reaches the oracle exactly when the buffer holds one
  complete hint and nothing else. A buffer with less than the announced length makes the slice
  panic, and a buffer with more leaves all hints where they are: the comparison in the loop is the
  wrong way round.\<close>

theorem hint_buffer:
  assumes "4 \<le> length lh" and "length lh < 4294967296"
  shows "process_hints hint orc lh =
    (let len = unat (from_be (take 4 lh) :: u32)
     in if len = length lh - 4 then rbind (hint orc (drop 4 lh)) (\<lambda>orc1. Inr (orc1, []))
        else if length lh - 4 < len then Inl PanicSlice
        else Inr (orc, lh))"
proof -
  let ?h = "from_be (take 4 lh) :: u32"
  have le: "of_nat (length lh) - 4 \<le> ?h \<longleftrightarrow> length lh - 4 \<le> unat ?h"
  proof -
    have "(of_nat (length lh) :: u32) - 4 = of_nat (length lh - 4)" using assms(1) by (simp add: of_nat_diff)
    moreover have "unat (of_nat (length lh - 4) :: u32) = length lh - 4" using assms(2) by (simp add: unat_of_nat)
    ultimately show ?thesis by (simp only: word_le_nat_alt)
  qed
  have short: "process_hints hint o1 [] = Inr (o1, [])" for o1 by (simp add: process_hints.simps)
  show ?thesis
  proof (cases "unat ?h = length lh - 4")
    case True
    then have "slice_at 4 (4 + unat ?h) lh = drop 4 lh" "drop (4 + unat ?h) lh = []" "\<not> length lh < 4 + unat ?h"
      using assms(1) by (simp_all add: slice_at_def)
    with True assms(1) le short show ?thesis
      by (subst process_hints.simps) (simp add: Let_def)
  next
    case False
    with assms(1) le show ?thesis by (subst process_hints.simps) (auto simp: Let_def)
  qed
qed

theorem hint_buffer_witness:
  "process_hints (\<lambda>o1 h. Inr (o1 @ [h])) [] [0, 0, 0, 2, 8, 9] = Inr ([[8, 9]], [])
   \<and> process_hints (\<lambda>o1 h. Inr (o1 @ [h])) [] [0, 0, 0, 9, 8, 9] = Inl PanicSlice
   \<and> process_hints (\<lambda>o1 h. Inr (o1 @ [h])) [] [0, 0, 0, 1, 8, 0, 0, 0, 1, 9] = Inr ([], [0, 0, 0, 1, 8, 0, 0, 0, 1, 9])"
  using hint_buffer [of "[0, 0, 0, 2, 8, 9]" "\<lambda>o1 h. Inr (o1 @ [h])" "[]"]
    hint_buffer [of "[0, 0, 0, 9, 8, 9]" "\<lambda>o1 h. Inr (o1 @ [h])" "[]"]
    hint_buffer [of "[0, 0, 0, 1, 8, 0, 0, 0, 1, 9]" "\<lambda>o1 h. Inr (o1 @ [h])" "[]"]
  by (simp add: from_be_def Let_def)

text \<open>C34. Output. A write to standard output hands the writer the bytes of the range, in order and
  page by page, and leaves the contents of the memory alone; a range that wraps around into its
  own first page panics.\<close>

theorem stdout_write:
  assumes "mem_ok k (vm_memory v)" and "Fd_try_from (ucast a0) = Some Stdout"
  shows "concat (mem_chunks (vm_memory v) a1 a2) = mem_range (vm_memory v) a1 (unat a2)
    \<and> (if a2 \<noteq> 0 \<and> wraps_into_page a1 a2 then sys_write env a0 a1 a2 v = Inl PanicSlice
       else \<exists>lp. sys_write env a0 a1 a2 v = rbind (write_chunks (env_write env) (mem_chunks (vm_memory v) a1 a2) (std_out v))
          (\<lambda>w. Inr ((a2, 0), set_vm_memory ((vm_memory v)\<lparr>last_page := lp\<rparr>) (v\<lparr>std_out := w\<rparr>))))"
proof (cases "a2 \<noteq> 0 \<and> wraps_into_page a1 a2")
  case True
  with assms(2) show ?thesis by (simp add: sys_write_def io_copy_panic concat_mem_chunks)
next
  case False
  let ?cs = "mem_chunks (vm_memory v) a1 a2"
  have "a2 = 0 \<or> \<not> wraps_into_page a1 a2" using False by blast
  from io_copy_ok [OF assms(1) this, of "env_write env"] obtain lp a' where
    c: "\<And>w. io_copy (env_write env) (reader_new (vm_memory v) a1 a2) w
        = rbind (write_chunks (env_write env) ?cs w) (\<lambda>w'. Inr (reader_new ((vm_memory v)\<lparr>last_page := lp\<rparr>) a' 0, w'))"
    by blast
  have "sys_write env a0 a1 a2 v = rbind (write_chunks (env_write env) ?cs (std_out v))
      (\<lambda>w. Inr ((a2, 0), set_vm_memory ((vm_memory v)\<lparr>last_page := lp\<rparr>) (v\<lparr>std_out := w\<rparr>)))"
    using assms(2) c [of "std_out v"]
    by (cases "write_chunks (env_write env) ?cs (std_out v)") (simp_all add: sys_write_def reader_new_def)
  with False show ?thesis by (auto simp: concat_mem_chunks)
qed

theorem stdout_write_witness:
  "\<exists>lp. sys_write demo_env 1 16 5000 demo_vm = rbind (write_chunks (env_write demo_env) (mem_chunks (vm_memory demo_vm) 16 5000) (std_out demo_vm))
        (\<lambda>w. Inr ((5000, 0), set_vm_memory ((vm_memory demo_vm)\<lparr>last_page := lp\<rparr>) (demo_vm\<lparr>std_out := w\<rparr>)))"
proof -
  have "\<not> wraps_into_page 16 5000" by (rule no_wrap) simp
  moreover have "mem_ok demo_hash (vm_memory demo_vm)" using demo_vm_facts by (simp add: memory_default_ok)
  moreover have "Fd_try_from (ucast (1 :: u32)) = Some Stdout" by (simp add: Fd_try_from_def)
  ultimately show ?thesis
    using stdout_write [of demo_hash demo_vm 1 16 5000 demo_env] by simp
qed

lemma round_up_page:
  fixes a :: u32
  defines "sz \<equiv> if a AND 4095 \<noteq> 0 then a + (4096 - (a AND 4095)) else a"
  shows "unat sz mod 4096 = 0" and "unat a \<le> 4294963200 \<Longrightarrow> unat a \<le> unat sz \<and> unat sz < unat a + 4096"
proof -
  let ?m = "unat a mod 4096"
  have m: "unat (a AND 4095) = ?m" by (rule page_offset_mod)
  have "unat sz mod 4096 = 0 \<and> (unat a \<le> 4294963200 \<longrightarrow> unat a \<le> unat sz \<and> unat sz < unat a + 4096)"
  proof (cases "?m = 0")
    case True
    then have "a AND 4095 = 0" using m by (simp add: unat_eq_zero)
    with True show ?thesis by (simp add: sz_def)
  next
    case False
    then have nz: "a AND 4095 \<noteq> 0" using m by auto
    have "?m < 4096" by simp
    then have "unat (4096 - (a AND 4095)) = 4096 - ?m" using m by (simp add: unat_sub word_le_nat_alt)
    then have u: "unat sz = (unat a + (4096 - ?m)) mod 4294967296" using nz by (simp add: sz_def unat_word_ariths)
    have d: "unat a + (4096 - ?m) = 4096 * (unat a div 4096) + 4096"
      using mult_div_mod_eq [of 4096 "unat a"] \<open>?m < 4096\<close> by linarith
    have "unat sz mod 4096 = (4096 * (unat a div 4096) + 4096) mod 4096" unfolding u d by (simp add: mod_mod_cancel)
    then have "unat sz mod 4096 = 0" by simp
    moreover have "unat a \<le> unat sz \<and> unat sz < unat a + 4096" if "unat a \<le> 4294963200"
    proof -
      have "unat a \<noteq> 4294963200" using False by auto
      then have "unat a + (4096 - ?m) < 4294967296" using that False by linarith
      then have "unat sz = unat a + (4096 - ?m)" unfolding u by (rule mod_less)
      then show ?thesis using False \<open>?m < 4096\<close> by linarith
    qed
    ultimately show ?thesis by blast
  qed
  then show "unat sz mod 4096 = 0" and "unat a \<le> 4294963200 \<Longrightarrow> unat a \<le> unat sz \<and> unat sz < unat a + 4096" by auto
qed

text \<open>\<open>mmap\<close> without an address returns the heap pointer and moves it up by the size rounded up
  to whole pages, and changes nothing else; with an address it returns the address.\<close>

lemma mmap_heap:
  "(\<exists>sz. sys_mmap 0 a1 s = (heap s, s\<lparr>heap := heap s + sz\<rparr>) \<and> unat sz mod 4096 = 0
      \<and> (unat a1 \<le> 4294963200 \<longrightarrow> unat a1 \<le> unat sz \<and> unat sz < unat a1 + 4096))
   \<and> (a0 \<noteq> 0 \<longrightarrow> sys_mmap a0 a1 s = (a0, s))"
  using round_up_page [of a1]
  by (intro conjI exI [of _ "if a1 AND 4095 \<noteq> 0 then a1 + (4096 - (a1 AND 4095)) else a1"])
    (simp_all only: sys_mmap_def Let_def PAGE_SIZE_def PAGE_ADDRESS_MASK_def PAGE_ADDRESS_SIZE_def, simp_all)

end
