(* ===== verification/Mips_Ref_Values.thy ===== *)
theory Mips_Ref_Values
  imports Mips_Ref Mips_Sys
begin

text \<open>
  The values that the machine computes are those that the architecture requires: the fields that the
  code extracts from an encoded instruction, the results of the ALU, products, quotients and counts,
  and the bytes that loads and stores move.
\<close>

section \<open>Fields of encoded instructions\<close>

text \<open>A field of width \<open>w\<close> at position \<open>m\<close>, and where a field that was put at position \<open>n\<close> shows in it.\<close>

definition field :: "nat \<Rightarrow> nat \<Rightarrow> u32 \<Rightarrow> u32" where
  "field m w x = take_bit w (drop_bit m x)"

lemma field_or: "field m w (x OR y) = field m w x OR field m w y"
  by (simp add: field_def)

lemma field_other:
  fixes x :: "'a::len word"
  assumes "m + w \<le> n \<or> n + LENGTH('a) \<le> m"
  shows "field m w (push_bit n (ucast x)) = 0"
proof (rule bit_word_eqI)
  fix j
  assume "j < LENGTH(32)"
  have "\<not> bit x (m + j - n)" if "n + LENGTH('a) \<le> m" using that bit_imp_le_length [of x "m + j - n"] by linarith
  with assms show "bit (field m w (push_bit n (ucast x))) j = bit (0 :: u32) j"
    by (auto simp: field_def bit_take_bit_iff bit_drop_bit_eq bit_push_bit_iff bit_unsigned_iff)
qed

lemma field_own:
  fixes x :: "'a::len word"
  assumes "m + LENGTH('a) \<le> 32"
  shows "field m LENGTH('a) (push_bit m (ucast x)) = ucast x"
proof (rule bit_word_eqI)
  fix j
  assume "j < LENGTH(32)"
  then show "bit (field m LENGTH('a) (push_bit m (ucast x))) j = bit (ucast x :: u32) j"
    using assms by (auto simp: field_def bit_take_bit_iff bit_drop_bit_eq bit_push_bit_iff bit_unsigned_iff dest: bit_imp_le_length)
qed

lemma field_code:
  "drop_bit 26 x = field 26 6 x" "drop_bit 21 x AND 0x1F = field 21 5 x" "drop_bit 16 x AND 0x1F = field 16 5 x"
  "drop_bit 11 x AND 0x1F = field 11 5 x" "drop_bit 6 x AND 0x1F = field 6 5 x" "x AND 0x3F = field 0 6 x"
  "x AND 0xFFFF = field 0 16 x" "x AND 0x03FFFFFF = field 0 26 x"
proof -
  have m: "(0x1F :: u32) = mask 5" "(0x3F :: u32) = mask 6" "(0xFFFF :: u32) = mask 16" "(0x03FFFFFF :: u32) = mask 26"
    by (simp_all add: mask_eq_exp_minus_1)
  show "drop_bit 26 x = field 26 6 x"
    by (rule bit_word_eqI) (auto simp: field_def bit_take_bit_iff bit_drop_bit_eq dest: bit_imp_le_length)
  show "drop_bit 21 x AND 0x1F = field 21 5 x" "drop_bit 16 x AND 0x1F = field 16 5 x"
    "drop_bit 11 x AND 0x1F = field 11 5 x" "drop_bit 6 x AND 0x1F = field 6 5 x" "x AND 0x3F = field 0 6 x"
    "x AND 0xFFFF = field 0 16 x" "x AND 0x03FFFFFF = field 0 26 x"
    unfolding m field_def take_bit_eq_mask by simp_all
qed

lemmas own_fields = field_own [where ?'a = 5, simplified] field_own [where ?'a = 6, simplified]
  field_own [where ?'a = 16, simplified] field_own [where ?'a = 26, simplified]

lemma push_bit_none: "ucast x = push_bit 0 (ucast x :: u32)"
  by simp

lemma r_type_fields [simp]:
  "drop_bit 26 (r_type op rs rt rd sa func) = ucast op"
  "drop_bit 21 (r_type op rs rt rd sa func) AND 0x1F = ucast rs"
  "drop_bit 16 (r_type op rs rt rd sa func) AND 0x1F = ucast rt"
  "drop_bit 11 (r_type op rs rt rd sa func) AND 0x1F = ucast rd"
  "drop_bit 6 (r_type op rs rt rd sa func) AND 0x1F = ucast sa"
  "r_type op rs rt rd sa func AND 0x3F = ucast func"
  unfolding field_code r_type_def
  by (subst push_bit_none [of func], simp add: field_or field_other own_fields del: push_bit_0_id)+

lemma i_type_fields [simp]:
  "drop_bit 26 (i_type op rs rt i) = ucast op"
  "drop_bit 21 (i_type op rs rt i) AND 0x1F = ucast rs"
  "drop_bit 16 (i_type op rs rt i) AND 0x1F = ucast rt"
  "i_type op rs rt i AND 0xFFFF = ucast i"
  unfolding field_code i_type_def
  by (subst push_bit_none [of i], simp add: field_or field_other own_fields del: push_bit_0_id)+

lemma j_type_fields [simp]: "drop_bit 26 (j_type op t) = ucast op" "j_type op t AND 0x03FFFFFF = ucast t"
  unfolding field_code j_type_def
  by (subst push_bit_none [of t], simp add: field_or field_other own_fields del: push_bit_0_id)+

text \<open>Register numbers.\<close>

lemma reg_less [simp]: "unat (r :: reg) < 32"
  using unsigned_less [of r, where ?'a = nat] by simp

lemma unat_reg [simp]: "unat (ucast (r :: reg) :: u32) = unat r"
proof -
  have "unat r < 2 ^ 32" using reg_less [of r] by (rule less_trans) simp
  then show ?thesis by (simp only: unsigned_ucast_eq) (simp add: take_bit_nat_eq_self)
qed

lemma reg_zero [simp]: "(ucast (r :: reg) :: u32) = 0 \<longleftrightarrow> r = 0"
  using unat_reg [of r] by (metis unat_eq_zero unsigned_0 word_unat_eq_iff)

lemma reg_valid [simp]: "\<not> (32 :: u32) \<le> ucast (r :: reg)"
  by (simp add: word_le_nat_alt not_le)

lemma sign_extend_imm: "sign_extend (ucast (i :: imm)) 16 = scast i"
proof -
  have m: "(0xFFFF :: u32) = mask 16" by (simp add: mask_eq_exp_minus_1)
  have "(ucast i :: u32) AND 0xFFFF = ucast i"
    unfolding m by (rule bit_word_eqI) (auto simp: bit_simps dest: bit_imp_le_length)
  moreover have "ucast (ucast i :: u32) = i" by (rule bit_word_eqI) (auto simp: bit_simps)
  ultimately show ?thesis using sign_extend_16 [of "ucast i"] by simp
qed

section \<open>Results\<close>

lemma shift_value:
  "shift_result op n x = (case op of Sll \<Rightarrow> push_bit n x | Srl \<Rightarrow> drop_bit n x | Sra \<Rightarrow> signed_drop_bit n x)"
proof -
  have u: "uint (drop_bit n x) = uint x div 2 ^ n" unfolding drop_bit_eq_div [symmetric]
    by (rule bit_eqI) (simp add: bit_unsigned_iff bit_drop_bit_eq)
  have s: "sint (signed_drop_bit n x) = sint x div 2 ^ n" by (simp add: sint_signed_drop_bit_eq drop_bit_eq_div)
  have "of_int (uint (drop_bit n x)) = drop_bit n x" "of_int (sint (signed_drop_bit n x)) = signed_drop_bit n x" by simp_all
  then show ?thesis unfolding u s by (cases op) (simp_all add: push_bit_eq_mult)
qed

lemma sra_execute: "unat a mod 32 \<noteq> 0 \<Longrightarrow> sign_extend (shr32 x a) (32 - a) = signed_drop_bit (unat a mod 32) x"
  by (simp only: sra_eq if_False)

lemma reg_mod [simp]: "unat (r :: reg) mod 32 = unat r"
  by (rule mod_less) simp

lemma shift_execute:
  assumes "op = Sra \<Longrightarrow> sa \<noteq> 0"
  shows "execute_fun (ucast (shift_func op)) (r_type o' rs rt rd sa f) x y = Inr (shift_result op (unat sa) y)"
proof -
  have "sign_extend (shr32 y (ucast sa)) (32 - ucast sa) = signed_drop_bit (unat sa) y" if "sa \<noteq> 0"
    using sra_execute [of "ucast sa" y] that by (simp add: unat_eq_zero)
  then show ?thesis unfolding shift_value
    using assms by (cases op) (simp_all add: execute_fun_def shl32_def shr32_def and_31_mod Let_def)
qed

lemma shiftv_execute:
  assumes "op = Sra \<Longrightarrow> unat x mod 32 \<noteq> 0"
  shows "execute_fun (ucast (shiftv_func op)) w x y = Inr (shift_result op (unat x mod 32) y)"
  unfolding shift_value
  using assms sra_execute [of x y] by (cases op) (simp_all add: execute_fun_def shl32_def shr32_def and_31_mod)

text \<open>Leading bits.\<close>

lemma leading_ones_leading: "leading_ones x (leading True x)"
proof -
  let ?P = "\<lambda>i. bit x (31 - i) = True" and ?xs = "[0..<32 :: nat]"
  have "leading True x \<le> 32" using length_takeWhile_le [of ?P ?xs] by (simp add: leading_def)
  moreover have "bit x (31 - i)" if "i < leading True x" for i
  proof -
    have "takeWhile ?P ?xs ! i \<in> set (takeWhile ?P ?xs)" using that unfolding leading_def by (rule nth_mem)
    moreover have "takeWhile ?P ?xs ! i = i"
      using takeWhile_nth [of i ?P ?xs] length_takeWhile_le [of ?P ?xs] that unfolding leading_def by simp
    ultimately show ?thesis by (metis (mono_tags, lifting) set_takeWhileD)
  qed
  moreover have "\<not> bit x (31 - leading True x)" if "leading True x < 32"
    using nth_length_takeWhile [of ?P ?xs] that unfolding leading_def by simp
  ultimately show ?thesis by (simp add: leading_ones_def)
qed

lemma leading_False: "leading False x = leading True (NOT x)"
  unfolding leading_def by (rule arg_cong [of _ _ length], rule takeWhile_cong) (auto simp: bit_not_iff)

lemma clo_loop_leading: "clo_loop x 0 = of_nat (leading True x)"
proof -
  obtain n where "leading_ones x n" "clo_loop x 0 = of_nat n" using clo_loop_eq [of x 0] by auto
  with leading_ones_unique [OF this(1) leading_ones_leading] show ?thesis by simp
qed

lemma alu_value:
  assumes "alu_result op x y = Some z"
  shows "execute_fun (ucast (alu_func op)) w x y = Inr z"
proof -
  have "of_int (sint x + sint y) = x + y" "of_int (sint x - sint y) = x - y" by simp_all
  with assms show ?thesis
    by (cases op) (auto simp: execute_fun_def signed_result_def word_less_nat_alt split: if_splits)
qed

lemma imm_execute:
  assumes "alu_result (imm_alu op) x (imm_value op i) = Some z"
  shows "execute (i_type (imm_opcode op) rs rt j) x (imm_value op i) m = Inr z"
proof -
  have "execute (i_type (imm_opcode op) rs rt j) x (imm_value op i) m
      = execute_fun (ucast (alu_func (imm_alu op))) (i_type (imm_opcode op) rs rt j) x (imm_value op i)"
    by (cases op) (simp_all add: execute_def Let_def)
  with alu_value [OF assms] show ?thesis by simp
qed

lemma product_hi_lo:
  fixes acc :: u64
  assumes "acc = of_int z"
  shows "(ucast (drop_bit 32 acc) :: u32) = of_int (z div 4294967296)" "(ucast acc :: u32) = of_int z"
proof -
  have d: "z div 4294967296 = drop_bit 32 z" by (simp add: drop_bit_eq_div)
  show "(ucast (drop_bit 32 acc) :: u32) = of_int (z div 4294967296)" "(ucast acc :: u32) = of_int z"
    unfolding d assms by (rule bit_word_eqI, simp add: bit_unsigned_iff bit_drop_bit_eq bit_word_of_int_iff Bit_Operations.bit_drop_bit_eq)+
qed

lemma muldiv_execute:
  assumes "muldiv_result op x y = Some (h, l)"
  shows "hi_lo_result (ucast (muldiv_func op)) x y s = Inr (0, s\<lparr>hi := h, lo := l\<rparr>)"
proof -
  have z: "(scast x :: u64) * scast y = of_int (sint x * sint y)" "(ucast x :: u64) * ucast y = of_int (uint x * uint y)"
    by simp_all
  have u: "of_int (uint x mod uint y) = x mod y" "of_int (uint x div uint y) = x div y"
    by (simp_all only: word_mod_def word_div_def)
  have "\<not> (x = 0x80000000 \<and> y = 0xFFFFFFFF)" if "sint x sdiv sint y < 2147483648"
    using that by (auto simp: signed_divide_int_def)
  with assms u show ?thesis
    by (cases op)
      (auto simp: hi_lo_result_def Let_def product_halves_def product_hi_lo [OF z(1)] product_hi_lo [OF z(2)] signed_result_def split: if_splits)
qed

section \<open>Loads and stores\<close>

text \<open>The word that holds an address, as bytes.\<close>

lemma word_cells: "u32_be (mem_word m (a AND 0xFFFFFFFC)) = cells_from (mem_byte m) (unat a - unat a mod 4) 4"
  unfolding mem_word_def u32_be_word_at aligned_down cells_from_def by (rule nth_equalityI) simp_all

lemma drop_cells: "i \<le> n \<Longrightarrow> drop i (cells_from f a n) = cells_from f (a + i) (n - i)"
  by (simp add: cells_from_def drop_map)

lemma take_cells: "i \<le> n \<Longrightarrow> take i (cells_from f a n) = cells_from f a i"
  by (simp add: cells_from_def take_map)

lemma nth_cells: "i < n \<Longrightarrow> cells_from f a n ! i = f (a + i)"
  by (simp add: cells_from_def)

lemma length_cells [simp]: "length (cells_from f a n) = n"
  by (simp add: cells_from_def)

lemma half_offset_even: "unat a mod 2 = 0 \<Longrightarrow> unat (a AND 2 :: u32) = unat a mod 4"
proof -
  assume e: "unat a mod 2 = 0"
  have "bit a 1 \<longleftrightarrow> odd (unat a div 2)"
    using bit_unsigned_iff [of a 1, where ?'a = nat] by (simp add: bit_iff_odd)
  moreover have "odd (unat a div 2) \<Longrightarrow> unat a mod 4 = 2" "even (unat a div 2) \<Longrightarrow> unat a mod 4 = 0" using e by presburger+
  ultimately show ?thesis unfolding half_offset by simp
qed

lemma half_cells:
  assumes "unat a mod 2 = 0"
  shows "half_at (mem_word m (a AND 0xFFFFFFFC)) (unat (a AND 2)) = from_be (cells_from (mem_byte m) (unat a) 2)"
proof -
  have "unat a mod 4 \<le> 2" using assms by presburger
  moreover have "unat a - unat a mod 4 + unat a mod 4 = unat a" using mod_less_eq_dividend by simp
  ultimately show ?thesis
    unfolding half_at_def half_offset_even [OF assms] slice_at_def word_cells
    by (simp add: drop_cells take_cells)
qed

lemma aligned_same: "unat a mod 4 = 0 \<Longrightarrow> a AND 0xFFFFFFFC = (a :: u32)"
  by (simp add: word_unat_eq_iff aligned_down)

lemma load_execute:
  assumes "load_result op (mem_byte m) (unat a) old = Some z" and "op = Lwl \<or> op = Lwr \<Longrightarrow> y = old"
  shows "execute_mem (ucast (load_opcode op)) a y (mem_word m (a AND 0xFFFFFFFC)) = Inr z"
proof -
  let ?w = "mem_word m (a AND 0xFFFFFFFC)" and ?i = "unat a mod 4"
  have i: "?i < 4" "unat a - ?i + ?i = unat a" using mod_less_eq_dividend by simp_all
  have byte: "u32_be ?w ! unat (a AND 3) = mem_byte m (unat a)"
    unfolding word_cells and_3_mod by (simp only: nth_cells i)
  have word: "from_be (cells_from (mem_byte m) (unat a) 4) = ?w" if "?i = 0"
    using word_cells [of m a] that u32_of_be [of ?w] by simp
  obtain x where l: "execute_mem 0x22 a y ?w = Inr x" by (simp add: execute_mem_def Let_def)
  obtain x' where r: "execute_mem 0x26 a y ?w = Inr x'" by (simp add: execute_mem_def Let_def)
  have "x = from_be (cells_from (mem_byte m) (unat a) (4 - ?i) @ drop (4 - ?i) (u32_be y))"
    using lwl_eq [OF l] u32_of_be [of x] i unfolding word_cells and_3_mod by (simp add: drop_cells)
  moreover have "x' = from_be (take (3 - ?i) (u32_be y) @ cells_from (mem_byte m) (unat a - ?i) (?i + 1))"
    using lwr_eq [OF r] u32_of_be [of x'] i unfolding word_cells and_3_mod by (simp add: take_cells)
  ultimately show ?thesis
    using assms l r word byte half_cells [of a m] lb_eq lbu_eq lh_eq lhu_eq word_moves
    by (cases op) (auto split: if_splits)
qed

lemma overwrite_one: "overwrite a [b] f = f(a := b)"
  by (auto simp: overwrite_def fun_eq_iff)

text \<open>The bytes of the word after a store at offset \<open>i\<close>.\<close>

primrec merged :: "store_op \<Rightarrow> nat \<Rightarrow> u32 \<Rightarrow> bytes \<Rightarrow> bytes" where
  "merged Sb i y w = copy_from_slice i [ucast y] w"
| "merged Sh i y w = copy_from_slice i (be_bytes 2 y) w"
| "merged Sw i y w = copy_from_slice i (u32_be y) w"
| "merged Swl i y w = copy_from_slice i (take (4 - i) (u32_be y)) w"
| "merged Swr i y w = copy_from_slice 0 (drop (3 - i) (u32_be y)) w"

lemma store_merge:
  fixes a :: u32
  defines "i \<equiv> unat a mod 4"
  assumes x: "execute_mem (ucast (store_opcode op)) a y (mem_word m (a AND 0xFFFFFFFC)) = Inr x"
    and al: "op = Sh \<Longrightarrow> unat a mod 2 = 0" "op = Sw \<Longrightarrow> i = 0"
  shows "u32_be x = merged op i y (u32_be (mem_word m (a AND 0xFFFFFFFC)))"
proof -
  let ?w = "mem_word m (a AND 0xFFFFFFFC)"
  have i: "i < 4" by (simp add: i_def)
  show ?thesis
  proof (cases op)
    case Sb
    with x i show ?thesis using sb_eq [of a y ?w x]
      by (simp add: copy_from_slice_def upd_conv_take_nth_drop and_3_mod i_def del: be_bytes.simps)
  next
    case Sh
    with x al(1) show ?thesis using sh_eq [of a y ?w x] by (simp add: half_offset_even i_def del: be_bytes.simps)
  next
    case Sw
    with x al(2) show ?thesis using word_moves(3) [of a y ?w] by (simp add: copy_from_slice_def del: be_bytes.simps)
  next
    case Swl
    with x show ?thesis using swl_eq [of a y ?w x] by (simp add: and_3_mod i_def del: be_bytes.simps)
  next
    case Swr
    with x i show ?thesis using swr_eq [of a y ?w x]
      by (simp add: copy_from_slice_def and_3_mod i_def Suc_diff_le del: be_bytes.simps)
  qed
qed

lemma store_execute:
  assumes g: "store_result op (unat a) y (mem_byte m) = Some g"
  obtains x where "execute_mem (ucast (store_opcode op)) a y (mem_word m (a AND 0xFFFFFFFC)) = Inr x"
    and "overwrite (unat (a AND 0xFFFFFFFC)) (u32_be x) (mem_byte m) = g"
proof -
  let ?w = "mem_word m (a AND 0xFFFFFFFC)" and ?i = "unat a mod 4" and ?a = "a AND 0xFFFFFFFC"
  obtain x where x: "execute_mem (ucast (store_opcode op)) a y ?w = Inr x"
    by (cases op) (simp_all add: execute_mem_def Let_def)
  have i: "?i < 4" by simp
  have from_a: "overwrite (unat ?a) (copy_from_slice ?i bs (u32_be ?w)) (mem_byte m) = overwrite (unat a) bs (mem_byte m)"
    if "length bs \<le> 4 - ?i" for bs by (rule word_bytes_write [OF that])
  have from_start: "overwrite (unat ?a) (copy_from_slice 0 bs (u32_be ?w)) (mem_byte m) = overwrite (unat ?a) bs (mem_byte m)"
    if "length bs \<le> 4" for bs
    using word_bytes_write [of bs ?a m] that by (simp add: aligned_mask aligned_same)
  have al: "op = Sh \<Longrightarrow> unat a mod 2 = 0" "op = Sw \<Longrightarrow> ?i = 0" using g by (auto split: if_splits)
  have mg: "u32_be x = merged op ?i y (u32_be ?w)" by (rule store_merge [OF x]) (fact al)+
  have "overwrite (unat ?a) (u32_be x) (mem_byte m) = g"
  proof (cases op)
    case Sb
    have "length [ucast y :: u8] \<le> 4 - ?i" using i by (simp only: list.size)
    with Sb show ?thesis using g from_a [of "[ucast y]"] by (simp add: mg overwrite_one del: be_bytes.simps)
  next
    case Sh
    have "?i \<le> 2" using al(1) [OF Sh] by presburger
    then show ?thesis using Sh g from_a [of "be_bytes 2 y"] by (simp add: mg al(1) del: be_bytes.simps)
  next
    case Sw
    then show ?thesis using g al(2) from_a [of "u32_be y"] by (simp add: mg del: be_bytes.simps)
  next
    case Swl
    then show ?thesis using g from_a [of "take (4 - ?i) (u32_be y)"] by (simp add: mg del: be_bytes.simps)
  next
    case Swr
    then show ?thesis
      using g from_start [of "drop (3 - ?i) (u32_be y)"] by (simp add: mg aligned_down del: be_bytes.simps)
  qed
  with x that show ?thesis by blast
qed

end
