(* ===== verification/Mips_Sim.thy ===== *)
theory Mips_Sim
  imports Mips_Step
begin

text \<open>
  Execution does not depend on caches or on proof generation. Two machines that agree on
  everything but the caches of the memory and the fields of proof tracking take the same steps
  with the same errors, and still agree afterwards. In particular the check of
  \<open>track_mem_access\<close> for a second access never fails within a step.
\<close>

section \<open>Machines that agree\<close>

definition mem_sim :: "hash_fn \<Rightarrow> memory \<Rightarrow> memory \<Rightarrow> bool" where
  "mem_sim k m m' \<longleftrightarrow> mem_ok k m \<and> mem_ok k m' \<and> mem_byte m = mem_byte m'"

definition retrack :: "memory \<Rightarrow> u32 \<Rightarrow> bool \<Rightarrow> bytes \<Rightarrow> ('o, 'w) instrumented \<Rightarrow> ('o, 'w) instrumented" where
  "retrack m x p q v = v\<lparr>vm_state := (vm_state v)\<lparr>memory := m\<rparr>, last_mem_access := x, mem_proof_enabled := p, mem_proof := q\<rparr>"

definition vm_sim :: "hash_fn \<Rightarrow> ('o, 'w) instrumented \<Rightarrow> ('o, 'w) instrumented \<Rightarrow> bool" where
  "vm_sim k v v' \<longleftrightarrow> mem_sim k (vm_memory v) (vm_memory v') \<and>
     (\<exists>m x p q. v' = retrack m x p q v)"

text \<open>The address can be tracked, now or again.\<close>

definition can_access :: "u32 \<Rightarrow> ('o, 'w) instrumented \<Rightarrow> bool" where
  "can_access a v \<longleftrightarrow> (mem_proof_enabled v \<longrightarrow> last_mem_access v = 0xFFFFFFFF \<or> last_mem_access v = a)"

definition tracks_same :: "('o, 'w) instrumented \<Rightarrow> ('o, 'w) instrumented \<Rightarrow> bool" where
  "tracks_same v u \<longleftrightarrow> last_mem_access u = last_mem_access v \<and> mem_proof_enabled u = mem_proof_enabled v"

lemma mem_simD:
  assumes "mem_sim k m m'"
  shows "mem_ok k m" "mem_ok k m'" "mem_byte m = mem_byte m'"
  using assms by (simp_all add: mem_sim_def)

lemma retrack_simps [simp]:
  "vm_state (retrack m x p q v) = (vm_state v)\<lparr>memory := m\<rparr>" "std_out (retrack m x p q v) = std_out v"
  "std_err (retrack m x p q v) = std_err v" "preimage_oracle (retrack m x p q v) = preimage_oracle v"
  "last_preimage (retrack m x p q v) = last_preimage v" "last_preimage_key (retrack m x p q v) = last_preimage_key v"
  "last_preimage_offset (retrack m x p q v) = last_preimage_offset v" "last_mem_access (retrack m x p q v) = x"
  "mem_proof_enabled (retrack m x p q v) = p" "mem_proof (retrack m x p q v) = q"
  by (simp_all add: retrack_def)

lemma vm_simE:
  assumes "vm_sim k v v'"
  obtains m x p q where "v' = retrack m x p q v" and "mem_sim k (vm_memory v) m"
  using assms by (auto simp: vm_sim_def)

lemma vm_simI: "mem_sim k (vm_memory v) m \<Longrightarrow> vm_sim k v (retrack m x p q v)"
  by (auto simp: vm_sim_def)

lemma retrack_tracking: "retrack m x (mem_proof_enabled v) q v = v\<lparr>last_mem_access := x, mem_proof := q, vm_state := (vm_state v)\<lparr>memory := m\<rparr>\<rparr>"
  by (cases v) (simp add: retrack_def)

text \<open>Updates of a machine and of its image.\<close>

lemma retrack_update:
  "set_vm_memory m2 (retrack m x p q v) = retrack m2 x p q (set_vm_memory m1 v)"
  by (simp add: retrack_def)

lemma retrack_retrack [simp]: "retrack m x p q (retrack m' x' p' q' v) = retrack m x p q v"
  by (simp add: retrack_def)

lemma retrack_id: "retrack (vm_memory v) (last_mem_access v) (mem_proof_enabled v) (mem_proof v) v = v"
  by (simp add: retrack_def)

lemma vm_sim_sym: "vm_sim k v v' \<Longrightarrow> vm_sim k v' v"
proof (erule vm_simE)
  fix m x p q
  assume v': "v' = retrack m x p q v" and s: "mem_sim k (vm_memory v) m"
  have "v = retrack (vm_memory v) (last_mem_access v) (mem_proof_enabled v) (mem_proof v) v'"
    unfolding v' retrack_retrack by (rule retrack_id [symmetric])
  moreover have "mem_sim k (vm_memory v') (vm_memory v)" using s v' by (auto simp: mem_sim_def)
  ultimately show ?thesis unfolding vm_sim_def by blast
qed

lemma vm_sim_trans: "vm_sim k u v \<Longrightarrow> vm_sim k v w \<Longrightarrow> vm_sim k u w"
proof -
  assume uv: "vm_sim k u v" and vw: "vm_sim k v w"
  obtain m x p q where v: "v = retrack m x p q u" "mem_sim k (vm_memory u) m" by (rule vm_simE [OF uv])
  obtain m' x' p' q' where w: "w = retrack m' x' p' q' v" "mem_sim k (vm_memory v) m'" by (rule vm_simE [OF vw])
  show ?thesis
    unfolding w(1) unfolding v(1) retrack_retrack using v w by (intro vm_simI) (auto simp: mem_sim_def)
qed

lemma rel_rbind:
  assumes "rel_sum (=) R r r'" and "\<And>x y. R x y \<Longrightarrow> rel_sum (=) S (f x) (g y)"
  shows "rel_sum (=) S (rbind r f) (rbind r' g)"
  using assms by (cases r; cases r') auto

section \<open>Memory operations\<close>

lemma track_sim:
  assumes k: "hash32 k" and env: "env_keccak env = k" and ok: "mem_ok k (vm_memory v)" and can: "can_access a v"
  obtains u where "track_mem_access env a v = Inr u" and "vm_sim k v u" and "can_access a u"
proof (cases "mem_proof_enabled v \<and> last_mem_access v \<noteq> a")
  case False
  then have "track_mem_access env a v = Inr v" by (auto simp: track_mem_access_def)
  moreover have "vm_sim k v v" using vm_simI [of k v "vm_memory v"] retrack_id [of v] ok by (metis mem_sim_def)
  ultimately show ?thesis using that can by blast
next
  case True
  then have max: "last_mem_access v = 0xFFFFFFFF" using can by (auto simp: can_access_def)
  obtain m' where m': "merkle_proof k a (vm_memory v) = Inr (branch_of k (vm_memory v) a, m')" "mem_ok k m'" "mem_extends (vm_memory v) m'"
    unfolding branch_of_def by (rule merkle_proof_ok [OF ok k])
  let ?u = "retrack m' a (mem_proof_enabled v) (branch_of k (vm_memory v) a) v"
  have "mem_sim k (vm_memory v) m'"
    using m'(2) ok mem_extends_byte [OF mem_okD(1) [OF ok] m'(3)] by (simp add: mem_sim_def)
  moreover have "track_mem_access env a v = Inr ?u"
  proof -
    have "track_mem_access env a v = (let v1 = v\<lparr>last_mem_access := a\<rparr>
        in rbind (merkle_proof (env_keccak env) a (vm_memory v1)) (\<lambda>(pf, m). Inr (set_vm_memory m (v1\<lparr>mem_proof := pf\<rparr>))))"
      unfolding track_mem_access_def using True max by (simp only: if_True if_False simp_thms)
    also have "\<dots> = Inr ?u" unfolding retrack_tracking env Let_def by (simp add: m'(1))
    finally show ?thesis .
  qed
  ultimately show ?thesis by (intro that [of ?u] vm_simI) (simp_all add: can_access_def)
qed

text \<open>The relation between results of operations that leave the tracking alone.\<close>

definition res_sim :: "hash_fn \<Rightarrow> ('o, 'w) instrumented \<Rightarrow> ('o, 'w) instrumented \<Rightarrow>
    ('a \<times> ('o, 'w) instrumented) \<Rightarrow> ('a \<times> ('o, 'w) instrumented) \<Rightarrow> bool" where
  "res_sim k v v' r r' \<longleftrightarrow> fst r = fst r' \<and> vm_sim k (snd r) (snd r') \<and> tracks_same v (snd r) \<and> tracks_same v' (snd r')"

lemma get_sim:
  assumes "vm_sim k v v'"
  shows "rel_sum (=) (res_sim k v v') (vm_get_memory a v) (vm_get_memory a v')"
proof -
  obtain m x p q where v': "v' = retrack m x p q v" and s: "mem_sim k (vm_memory v) m" by (rule vm_simE [OF assms])
  note d = mem_simD [OF s]
  show ?thesis
  proof (cases "unat a mod 4 = 0")
    case True
    obtain lp where 1: "get_memory a (vm_memory v) = Inr (mem_word (vm_memory v) a, (vm_memory v)\<lparr>last_page := lp\<rparr>)"
      "mem_ok k ((vm_memory v)\<lparr>last_page := lp\<rparr>)" by (rule get_memory_ok [OF d(1) True])
    obtain lp' where 2: "get_memory a m = Inr (mem_word m a, m\<lparr>last_page := lp'\<rparr>)" "mem_ok k (m\<lparr>last_page := lp'\<rparr>)"
      by (rule get_memory_ok [OF d(2) True])
    have w: "mem_word m a = mem_word (vm_memory v) a" using d(3) by (simp add: mem_word_def)
    have "vm_sim k (set_vm_memory ((vm_memory v)\<lparr>last_page := lp\<rparr>) v) (set_vm_memory (m\<lparr>last_page := lp'\<rparr>) v')"
      unfolding v' retrack_update [of _ m x p q v "(vm_memory v)\<lparr>last_page := lp\<rparr>"] using 1(2) 2(2) d(3)
      by (intro vm_simI) (simp add: mem_sim_def mem_byte_fields)
    then show ?thesis
      using 1 2 w v' by (simp add: vm_get_memory_def res_sim_def tracks_same_def)
  next
    case False
    with v' show ?thesis by (simp add: vm_get_memory_def get_memory_unaligned)
  qed
qed

lemma set_sim:
  assumes env: "env_keccak env = k" and sim: "vm_sim k v v'"
  shows "rel_sum (=) (\<lambda>u u'. res_sim k v v' ((), u) ((), u')) (vm_set_memory env a y v) (vm_set_memory env a y v')"
proof -
  obtain m x p q where v': "v' = retrack m x p q v" and s: "mem_sim k (vm_memory v) m" by (rule vm_simE [OF sim])
  note d = mem_simD [OF s]
  show ?thesis
  proof (cases "unat a mod 4 = 0")
    case True
    obtain m1 where 1: "set_memory k a y (vm_memory v) = Inr m1" "mem_ok k m1"
      "mem_byte m1 = overwrite (unat a) (u32_be y) (mem_byte (vm_memory v))" using set_memory_ok [OF d(1) True] by metis
    obtain m2 where 2: "set_memory k a y m = Inr m2" "mem_ok k m2"
      "mem_byte m2 = overwrite (unat a) (u32_be y) (mem_byte m)" using set_memory_ok [OF d(2) True] by metis
    have "vm_sim k (set_vm_memory m1 v) (set_vm_memory m2 v')"
      unfolding v' retrack_update [of m2 m x p q v m1] using 1 2 d(3) by (intro vm_simI) (simp add: mem_sim_def)
    then show ?thesis
      using 1(1) 2(1) v' env by (simp add: vm_set_memory_def res_sim_def tracks_same_def)
  next
    case False
    with v' show ?thesis by (simp add: vm_set_memory_def set_memory_unaligned)
  qed
qed

section \<open>Operations that do not look at the memory\<close>

lemma vm_sim_pushI:
  assumes "vm_sim k v v'" and "\<And>m x p q. f (retrack m x p q v) = retrack m x p q (f v)" and "vm_memory (f v) = vm_memory v"
  shows "vm_sim k (f v) (f v')"
  using assms by (elim vm_simE) (simp add: vm_simI)

lemma read_preimage_retrack:
  "read_preimage env key off (retrack m x p q v) = map_sum id (map_prod id (retrack m x p q)) (read_preimage env key off v)"
  by (cases "env_get env (preimage_oracle v) key") (auto simp: read_preimage_def Let_def retrack_def split: prod.splits)

lemma read_preimage_tracks:
  assumes "read_preimage env key off v = Inr r"
  shows "tracks_same v (snd r) \<and> vm_memory (snd r) = vm_memory v \<and> vm_state (snd r) = vm_state v"
  using read_preimage_still [of env key off v "fst r" "snd r"] assms by (simp add: tracks_same_def)

lemma read_preimage_sim:
  assumes "vm_sim k v v'"
  shows "rel_sum (=) (res_sim k v v') (read_preimage env key off v) (read_preimage env key off v')"
proof -
  obtain m x p q where v': "v' = retrack m x p q v" and s: "mem_sim k (vm_memory v) m" by (rule vm_simE [OF assms])
  show ?thesis
  proof (cases "read_preimage env key off v")
    case (Inl e)
    then show ?thesis unfolding v' read_preimage_retrack by simp
  next
    case (Inr r)
    note t = read_preimage_tracks [OF Inr]
    then show ?thesis
      unfolding v' read_preimage_retrack Inr using s
      by (cases r) (simp add: res_sim_def tracks_same_def vm_simI)
  qed
qed

text \<open>Handlers on the state.\<close>

lemma handlers_memory:
  "handle_jump l d (s\<lparr>memory := m\<rparr>) = map_sum id (\<lambda>s. s\<lparr>memory := m\<rparr>) (handle_jump l d s)"
  "handle_branch opcode instruction rt_reg rs (s\<lparr>memory := m\<rparr>) = map_sum id (\<lambda>s. s\<lparr>memory := m\<rparr>) (handle_branch opcode instruction rt_reg rs s)"
  "handle_rd r val c (s\<lparr>memory := m\<rparr>) = map_sum id (\<lambda>s. s\<lparr>memory := m\<rparr>) (handle_rd r val c s)"
  "handle_hi_lo func rs rt r (s\<lparr>memory := m\<rparr>) = map_sum id (\<lambda>s. s\<lparr>memory := m\<rparr>) (handle_hi_lo func rs rt r s)"
proof -
  show "handle_jump l d (s\<lparr>memory := m\<rparr>) = map_sum id (\<lambda>s. s\<lparr>memory := m\<rparr>) (handle_jump l d s)"
    by (simp add: handle_jump_def Let_def)
  show "handle_branch opcode instruction rt_reg rs (s\<lparr>memory := m\<rparr>) = map_sum id (\<lambda>s. s\<lparr>memory := m\<rparr>) (handle_branch opcode instruction rt_reg rs s)"
    unfolding handle_branch_def Let_def by (simp split: if_split)
  show "handle_rd r val c (s\<lparr>memory := m\<rparr>) = map_sum id (\<lambda>s. s\<lparr>memory := m\<rparr>) (handle_rd r val c s)"
    by (simp add: handle_rd_def Let_def)
  show "handle_hi_lo func rs rt r (s\<lparr>memory := m\<rparr>) = map_sum id (\<lambda>s. s\<lparr>memory := m\<rparr>) (handle_hi_lo func rs rt r s)"
    by (simp add: handle_hi_lo_def hi_lo_result_def Let_def)
qed

lemma retrack_state: "(retrack m x p q v)\<lparr>vm_state := s\<lparr>memory := m\<rparr>\<rparr> = retrack m x p q (v\<lparr>vm_state := s\<rparr>)"
  by (simp add: retrack_def)

lemma on_state_sim:
  assumes sim: "vm_sim k v v'" and f: "\<And>s m. f (s\<lparr>memory := m\<rparr>) = map_sum id (\<lambda>s. s\<lparr>memory := m\<rparr>) (f s)"
    and mem: "\<And>s s'. f s = Inr s' \<Longrightarrow> memory s' = memory s"
  shows "rel_sum (=) (vm_sim k) (on_state f v) (on_state f v')"
proof -
  obtain m x p q where v': "v' = retrack m x p q v" and s: "mem_sim k (vm_memory v) m" by (rule vm_simE [OF sim])
  show ?thesis
  proof (cases "f (vm_state v)")
    case (Inl e)
    then show ?thesis by (simp add: v' on_state_def f)
  next
    case (Inr s1)
    have "vm_sim k (v\<lparr>vm_state := s1\<rparr>) (retrack m x p q (v\<lparr>vm_state := s1\<rparr>))"
      using s mem [OF Inr] by (intro vm_simI) simp
    then show ?thesis using Inr by (simp add: v' on_state_def f retrack_state)
  qed
qed

lemmas handler_sims =
  on_state_sim [OF _ handlers_memory(1)] on_state_sim [OF _ handlers_memory(2)]
  on_state_sim [OF _ handlers_memory(3)] on_state_sim [OF _ handlers_memory(4)]

lemma handlers_keep_memory:
  "handle_jump l d s = Inr s' \<Longrightarrow> memory s' = memory s"
  "handle_branch opcode instruction rt_reg rs s = Inr s' \<Longrightarrow> memory s' = memory s"
  "handle_rd r val c s = Inr s' \<Longrightarrow> memory s' = memory s"
  "handle_hi_lo func rs rt r s = Inr s' \<Longrightarrow> memory s' = memory s"
proof -
  show "handle_jump l d s = Inr s' \<Longrightarrow> memory s' = memory s"
    by (auto simp: handle_jump_def Let_def split: if_splits)
  show "handle_branch opcode instruction rt_reg rs s = Inr s' \<Longrightarrow> memory s' = memory s"
    unfolding handle_branch_def Let_def by (auto split: if_split_asm)
  show "handle_rd r val c s = Inr s' \<Longrightarrow> memory s' = memory s"
    by (auto simp: handle_rd_def Let_def split: if_splits)
  show "handle_hi_lo func rs rt r s = Inr s' \<Longrightarrow> memory s' = memory s"
    by (auto simp: handle_hi_lo_def hi_lo_result_def Let_def split: if_splits)
qed

section \<open>System calls\<close>

lemma vm_sim_ok: "vm_sim k v v' \<Longrightarrow> mem_ok k (vm_memory v) \<and> mem_ok k (vm_memory v')"
  by (auto simp: vm_sim_def mem_sim_def)

lemma vm_sim_state: "vm_sim k v v' \<Longrightarrow> registers (vm_state v') = registers (vm_state v) \<and> preimage_key (vm_state v') = preimage_key (vm_state v)
    \<and> preimage_offset (vm_state v') = preimage_offset (vm_state v) \<and> exited (vm_state v') = exited (vm_state v)
    \<and> pc (vm_state v') = pc (vm_state v) \<and> next_pc (vm_state v') = next_pc (vm_state v)"
  by (elim vm_simE) simp

text \<open>An access to one address: track it, then read the word.\<close>

lemma access_sim:
  fixes v v' :: "('o, 'w) instrumented"
  assumes k: "hash32 k" and env: "env_keccak env = k" and sim: "vm_sim k v v'" and can: "can_access a v" "can_access a v'"
    and f: "\<And>y u u'. vm_sim k u u' \<Longrightarrow> can_access a u \<Longrightarrow> can_access a u' \<Longrightarrow> rel_sum (=) R (f (y, u)) (f (y, u'))"
  shows "rel_sum (=) R (rbind (track_mem_access env a v) (\<lambda>v1. rbind (vm_get_memory a v1) f))
    (rbind (track_mem_access env a v') (\<lambda>v1. rbind (vm_get_memory a v1) f))"
proof -
  note ok = vm_sim_ok [OF sim]
  obtain u where u: "track_mem_access env a v = Inr u" "vm_sim k v u" "can_access a u"
    by (rule track_sim [OF k env conjunct1 [OF ok] can(1)])
  obtain u' where u': "track_mem_access env a v' = Inr u'" "vm_sim k v' u'" "can_access a u'"
    by (rule track_sim [OF k env conjunct2 [OF ok] can(2)])
  have "vm_sim k u u'" using u(2) u'(2) sim by (meson vm_sim_sym vm_sim_trans)
  then have "rel_sum (=) R (rbind (vm_get_memory a u) f) (rbind (vm_get_memory a u') f)"
  proof (intro rel_rbind [OF get_sim])
    fix r r' :: "u32 \<times> ('o, 'w) instrumented"
    assume "res_sim k u u' r r'"
    then have "vm_sim k (snd r) (snd r')" "can_access a (snd r)" "can_access a (snd r')" "fst r = fst r'"
      using u(3) u'(3) by (auto simp: res_sim_def tracks_same_def can_access_def)
    then show "rel_sum (=) R (f r) (f r')" using f [of "snd r" "snd r'" "fst r"] by (cases r; cases r') simp
  qed
  with u(1) u'(1) show ?thesis by simp
qed

lemma sys_read_preimage_sim:
  fixes v v' :: "('o, 'w) instrumented"
  assumes k: "hash32 k" and env: "env_keccak env = k" and sim: "vm_sim k v v'" and can: "\<And>a. can_access a v" "\<And>a. can_access a v'"
  shows "rel_sum (=) (rel_prod (=) (vm_sim k)) (sys_read_preimage env a1 a2 v) (sys_read_preimage env a1 a2 v')"
  unfolding sys_read_preimage_def Let_def
proof (rule access_sim [OF k env sim can], goal_cases)
  case (1 y u u')
  note s = 1(1)
  have st: "preimage_key (vm_state u') = preimage_key (vm_state u)" "preimage_offset (vm_state u') = preimage_offset (vm_state u)"
    using vm_sim_state [OF s] by auto
  let ?f = "\<lambda>n (v :: ('o, 'w) instrumented). v\<lparr>vm_state := (vm_state v)\<lparr>preimage_offset := preimage_offset (vm_state v) + of_nat n\<rparr>\<rparr>"
  have push: "vm_sim k (?f n w) (?f n w')" if "vm_sim k w w'" for n w w'
    by (rule vm_sim_pushI [OF that]) (simp_all add: retrack_def)
  have store: "rel_sum (=) (rel_prod (=) (vm_sim k))
      (rbind (vm_set_memory env a x w) (\<lambda>v4. Inr (of_nat n :: u32, ?f n v4)))
      (rbind (vm_set_memory env a x w') (\<lambda>v4. Inr (of_nat n, ?f n v4)))" if "vm_sim k w w'" for a n x w w'
    by (rule rel_rbind [OF set_sim [OF env that]]) (auto simp: res_sim_def intro: push)
  show ?case
    unfolding st prod.case
  proof (rule rel_rbind [OF read_preimage_sim [OF s]], goal_cases)
    case (1 r r')
    then obtain dat n w w' where r: "r = ((dat, n), w)" "r' = ((dat, n), w')" "vm_sim k w w'"
      by (cases r; cases r') (auto simp: res_sim_def)
    show ?case unfolding r(1,2) prod.case by (rule store [OF r(3)])
  qed
qed

lemma sys_write_preimage_sim:
  fixes v v' :: "('o, 'w) instrumented"
  assumes k: "hash32 k" and env: "env_keccak env = k" and sim: "vm_sim k v v'" and can: "\<And>a. can_access a v" "\<And>a. can_access a v'"
  shows "rel_sum (=) (rel_prod (=) (vm_sim k)) (sys_write_preimage env a1 a2 v) (sys_write_preimage env a1 a2 v')"
  unfolding sys_write_preimage_def Let_def
proof (rule access_sim [OF k env sim can], goal_cases)
  case (1 y u u')
  have st: "preimage_key (vm_state u') = preimage_key (vm_state u)" using vm_sim_state [OF 1(1)] by auto
  have "vm_sim k (u\<lparr>vm_state := (vm_state u)\<lparr>preimage_key := key, preimage_offset := 0\<rparr>\<rparr>)
      (u'\<lparr>vm_state := (vm_state u')\<lparr>preimage_key := key, preimage_offset := 0\<rparr>\<rparr>)" for key
    by (rule vm_sim_pushI [OF 1(1)]) (simp_all add: retrack_def)
  then show ?case unfolding st prod.case by simp
qed

lemma io_copy_sim:
  assumes "mem_sim k m m'"
  shows "rel_sum (=) (\<lambda>(rd, w) (rd', w'). w = w' \<and> mem_sim k (rd_memory rd) (rd_memory rd'))
    (io_copy wr (reader_new m a c) w) (io_copy wr (reader_new m' a c) w)"
proof (cases "c = 0 \<or> \<not> wraps_into_page a c")
  case True
  note d = mem_simD [OF assms]
  obtain lp a1 where 1: "mem_ok k (m\<lparr>last_page := lp\<rparr>)" "\<And>w. io_copy wr (reader_new m a c) w
      = rbind (write_chunks wr (mem_chunks m a c) w) (\<lambda>w'. Inr (reader_new (m\<lparr>last_page := lp\<rparr>) a1 0, w'))"
    using io_copy_ok [OF d(1) True, of wr] by blast
  obtain lp' a2 where 2: "mem_ok k (m'\<lparr>last_page := lp'\<rparr>)" "\<And>w. io_copy wr (reader_new m' a c) w
      = rbind (write_chunks wr (mem_chunks m' a c) w) (\<lambda>w'. Inr (reader_new (m'\<lparr>last_page := lp'\<rparr>) a2 0, w'))"
    using io_copy_ok [OF d(2) True, of wr] by blast
  show ?thesis
    unfolding 1(2) 2(2) mem_chunks_cong [OF d(3)] using 1(1) 2(1) d(3)
    by (cases "write_chunks wr (mem_chunks m' a c) w") (simp_all add: reader_new_def mem_sim_def mem_byte_fields)
qed (simp add: io_copy_panic)

lemma read_to_end_sim:
  assumes "mem_sim k m m'"
  shows "rel_sum (=) (\<lambda>(bs, rd) (bs', rd'). bs = bs' \<and> mem_sim k (rd_memory rd) (rd_memory rd'))
    (read_to_end (unat c) [] (reader_new m a c)) (read_to_end (unat c) [] (reader_new m' a c))"
proof (cases "c = 0 \<or> \<not> wraps_into_page a c")
  case True
  note d = mem_simD [OF assms]
  obtain lp a1 where 1: "read_to_end (unat c) [] (reader_new m a c) = Inr (mem_range m a (unat c), reader_new (m\<lparr>last_page := lp\<rparr>) a1 0)"
    "mem_ok k (m\<lparr>last_page := lp\<rparr>)" using read_to_end_ok [OF d(1) True, of "[]"] by auto
  obtain lp' a2 where 2: "read_to_end (unat c) [] (reader_new m' a c) = Inr (mem_range m' a (unat c), reader_new (m'\<lparr>last_page := lp'\<rparr>) a2 0)"
    "mem_ok k (m'\<lparr>last_page := lp'\<rparr>)" using read_to_end_ok [OF d(2) True, of "[]"] by auto
  show ?thesis
    unfolding 1(1) 2(1) mem_range_cong [OF d(3)] using 1(2) 2(2) d(3) by (simp add: reader_new_def mem_sim_def mem_byte_fields)
qed (simp add: read_to_end_panic)

abbreviation fresh :: "('o, 'w) instrumented \<Rightarrow> bool" where
  "fresh v \<equiv> (\<forall>a. can_access a v)"

lemma sys_read_sim:
  assumes k: "hash32 k" and env: "env_keccak env = k" and sim: "vm_sim k v v'" and can: "fresh v" "fresh v'"
  shows "rel_sum (=) (rel_prod (=) (vm_sim k)) (sys_read env a0 a1 a2 v) (sys_read env a0 a1 a2 v')"
proof -
  have pre: "rel_sum (=) (rel_prod (=) (vm_sim k)) (rbind (sys_read_preimage env a1 a2 v) (\<lambda>(v0, v1). Inr ((v0, 0 :: u32), v1)))
      (rbind (sys_read_preimage env a1 a2 v') (\<lambda>(v0, v1). Inr ((v0, 0), v1)))"
    using can by (intro rel_rbind [OF sys_read_preimage_sim [OF k env sim]]) auto
  from sim pre show ?thesis by (auto simp: sys_read_def split: option.split Fd.split)
qed

text \<open>Putting related memories into machines that are related by tracking.\<close>

lemma vm_sim_put: "mem_sim k m1 m2 \<Longrightarrow> vm_sim k (set_vm_memory m1 u) (set_vm_memory m2 (retrack m x p q u))"
  unfolding retrack_update [of m2 m x p q u m1] by (intro vm_simI) simp

lemma write_out_sim:
  fixes v v' :: "('o, 'w) instrumented"
  assumes sim: "vm_sim k v v'" and same: "w' = w"
    and put: "\<And>m x p q u. upd u (retrack m x p q v) = retrack m x p q (upd u v)"
  shows "rel_sum (=) (rel_prod (=) (vm_sim k))
      (rbind (io_copy wr (reader_new (vm_memory v) a1 a2) w) (\<lambda>(rd, u). Inr ((a2, 0 :: u32), set_vm_memory (rd_memory rd) (upd u v))))
      (rbind (io_copy wr (reader_new (vm_memory v') a1 a2) w') (\<lambda>(rd, u). Inr ((a2, 0 :: u32), set_vm_memory (rd_memory rd) (upd u v'))))"
proof -
  obtain m x p q where v': "v' = retrack m x p q v" and s: "mem_sim k (vm_memory v) m" by (rule vm_simE [OF sim])
  have "vm_sim k (set_vm_memory m1 (upd u v)) (set_vm_memory m2 (upd u v'))" if "mem_sim k m1 m2" for m1 m2 u
    unfolding v' put by (rule vm_sim_put [OF that])
  moreover have "vm_memory v' = m" using v' by simp
  ultimately show ?thesis unfolding same by (simp only:) (rule rel_rbind [OF io_copy_sim [OF s]], auto)
qed

lemma sys_write_hint_sim:
  fixes v v' :: "('o, 'w) instrumented"
  assumes sim: "vm_sim k v v'"
  shows "rel_sum (=) (vm_sim k) (sys_write_hint env a1 a2 v) (sys_write_hint env a1 a2 v')"
proof -
  obtain m x p q where v': "v' = retrack m x p q v" and s: "mem_sim k (vm_memory v) m" by (rule vm_simE [OF sim])
  have eq: "(retrack m x p q v)\<lparr>preimage_oracle := orc, vm_state := (vm_state (retrack m x p q v))\<lparr>memory := m2, last_hint := lh\<rparr>\<rparr>
      = set_vm_memory m2 (retrack m x p q (v\<lparr>preimage_oracle := orc, vm_state := (vm_state v)\<lparr>last_hint := lh\<rparr>\<rparr>))" for orc m2 lh
    by (simp add: retrack_def)
  have eq1: "v\<lparr>preimage_oracle := orc, vm_state := (vm_state v)\<lparr>memory := m1, last_hint := lh\<rparr>\<rparr>
      = set_vm_memory m1 (v\<lparr>preimage_oracle := orc, vm_state := (vm_state v)\<lparr>last_hint := lh\<rparr>\<rparr>)" for orc m1 lh
    by simp
  have same: "vm_memory v' = m" "preimage_oracle v' = preimage_oracle v" "last_hint (vm_state v') = last_hint (vm_state v)" using v' by simp_all
  show ?thesis
    unfolding sys_write_hint_def same
  proof (rule rel_rbind [OF read_to_end_sim [OF s]], clarify)
    fix bs rd rd'
    assume "mem_sim k (rd_memory rd) (rd_memory rd')"
    then show "rel_sum (=) (vm_sim k)
        (rbind (process_hints (env_hint env) (preimage_oracle v) (last_hint (vm_state v) @ bs)) (\<lambda>(oracle, lh).
           Inr (v\<lparr>preimage_oracle := oracle, vm_state := (vm_state v)\<lparr>memory := rd_memory rd, last_hint := lh\<rparr>\<rparr>)))
        (rbind (process_hints (env_hint env) (preimage_oracle v) (last_hint (vm_state v) @ bs)) (\<lambda>(oracle, lh).
           Inr (v'\<lparr>preimage_oracle := oracle, vm_state := (vm_state v')\<lparr>memory := rd_memory rd', last_hint := lh\<rparr>\<rparr>)))"
      unfolding v' by (cases "process_hints (env_hint env) (preimage_oracle v) (last_hint (vm_state v) @ bs)")
        (auto simp only: rbind_Inl rbind_Inr eq eq1 vm_sim_put rel_sum_simps prod.case)
  qed
qed

lemma sys_write_sim:
  fixes v v' :: "('o, 'w) instrumented"
  assumes k: "hash32 k" and env: "env_keccak env = k" and sim: "vm_sim k v v'" and can: "fresh v" "fresh v'"
  shows "rel_sum (=) (rel_prod (=) (vm_sim k)) (sys_write env a0 a1 a2 v) (sys_write env a0 a1 a2 v')"
proof -
  let ?R = "rel_sum (=) (rel_prod (=) (vm_sim k)) :: ((u32 \<times> u32) \<times> ('o, 'w) instrumented) res \<Rightarrow> _"
  obtain m x p q where v': "v' = retrack m x p q v" by (rule vm_simE [OF sim])
  have same: "std_out v' = std_out v" "std_err v' = std_err v" using v' by simp_all
  note out = write_out_sim [OF sim same(1), where upd = "\<lambda>w u. u\<lparr>std_out := w\<rparr>" and wr = "env_write env" and ?a1.0 = a1 and ?a2.0 = a2]
    and err = write_out_sim [OF sim same(2), where upd = "\<lambda>w u. u\<lparr>std_err := w\<rparr>" and wr = "env_write env" and ?a1.0 = a1 and ?a2.0 = a2]
  have hint: "?R (rbind (sys_write_hint env a1 a2 v) (\<lambda>v1. Inr ((a2, 0), v1))) (rbind (sys_write_hint env a1 a2 v') (\<lambda>v1. Inr ((a2, 0), v1)))"
    by (rule rel_rbind [OF sys_write_hint_sim [OF sim]]) simp
  have pre: "?R (rbind (sys_write_preimage env a1 a2 v) (\<lambda>(v0, v1). Inr ((v0, 0), v1))) (rbind (sys_write_preimage env a1 a2 v') (\<lambda>(v0, v1). Inr ((v0, 0), v1)))"
    using can by (intro rel_rbind [OF sys_write_preimage_sim [OF k env sim]]) auto
  from sim out err hint pre show ?thesis unfolding sys_write_def by (auto simp: retrack_def split: option.split Fd.split)
qed

lemma handle_syscall_sim:
  fixes v v' :: "('o, 'w) instrumented"
  assumes k: "hash32 k" and env: "env_keccak env = k" and sim: "vm_sim k v v'" and can: "fresh v" "fresh v'"
  shows "rel_sum (=) (vm_sim k) (handle_syscall env v) (handle_syscall env v')"
proof -
  let ?ret = "\<lambda>((v0, v1), v :: ('o, 'w) instrumented). Inr (v\<lparr>vm_state := syscall_return v0 v1 (vm_state v)\<rparr>) :: ('o, 'w) instrumented res"
  have regs: "registers (vm_state v') = registers (vm_state v)" using vm_sim_state [OF sim] by simp
  have ret: "rel_sum (=) (vm_sim k) (?ret (r, u)) (?ret (r, u'))" if "vm_sim k u u'" for r u u'
  proof -
    have "vm_sim k (u\<lparr>vm_state := syscall_return x y (vm_state u)\<rparr>) (u'\<lparr>vm_state := syscall_return x y (vm_state u')\<rparr>)" for x y
      by (rule vm_sim_pushI [OF that]) (simp_all add: retrack_def syscall_return_def)
    then show ?thesis by (cases r) simp
  qed
  have bind: "rel_sum (=) (vm_sim k) (rbind X ?ret) (rbind Y ?ret)" if "rel_sum (=) (rel_prod (=) (vm_sim k)) X Y" for X Y
    by (rule rel_rbind [OF that]) (use ret in \<open>force elim!: rel_prod.cases\<close>)
  have mmap: "sys_mmap a0 a1 (s\<lparr>memory := m\<rparr>) = map_prod id (\<lambda>s. s\<lparr>memory := m\<rparr>) (sys_mmap a0 a1 s)"
    "memory (snd (sys_mmap a0 a1 s)) = memory s" for a0 a1 s m
    by (simp_all add: sys_mmap_def Let_def)
  have sim_mmap: "rel_sum (=) (vm_sim k)
      (let (v0, s1) = sys_mmap a0 a1 (vm_state v) in ?ret ((v0, 0), v\<lparr>vm_state := s1\<rparr>))
      (let (v0, s1) = sys_mmap a0 a1 (vm_state v') in ?ret ((v0, 0), v'\<lparr>vm_state := s1\<rparr>))" for a0 a1
  proof -
    obtain m x p q where v': "v' = retrack m x p q v" and s: "mem_sim k (vm_memory v) m" by (rule vm_simE [OF sim])
    obtain y s1 where y: "sys_mmap a0 a1 (vm_state v) = (y, s1)" by (rule prod.exhaust)
    have "vm_sim k (v\<lparr>vm_state := s1\<rparr>) (retrack m x p q (v\<lparr>vm_state := s1\<rparr>))"
      using s mmap(2) [of a0 a1 "vm_state v"] y by (intro vm_simI) simp
    from ret [OF this, of "(y, 0)"] show ?thesis
      unfolding v' retrack_simps(1) mmap(1) y by (simp add: retrack_def)
  qed
  have exit: "vm_sim k (v\<lparr>vm_state := (vm_state v)\<lparr>exited := True, exit_code := c\<rparr>\<rparr>) (v'\<lparr>vm_state := (vm_state v')\<lparr>exited := True, exit_code := c\<rparr>\<rparr>)" for c
    by (rule vm_sim_pushI [OF sim]) (simp_all add: retrack_def)
  show ?thesis
    using ret [OF sim] bind [OF sys_read_sim [OF k env sim can]] bind [OF sys_write_sim [OF k env sim can]] sim_mmap exit
    unfolding handle_syscall_def Let_def regs by (auto split: option.split Syscall.split)
qed

section \<open>Steps\<close>

lemma fetch_memory_sim:
  fixes v v' :: "('o, 'w) instrumented"
  assumes k: "hash32 k" and env: "env_keccak env = k" and sim: "vm_sim k v v'" and can: "fresh v" "fresh v'"
  shows "rel_sum (=) (\<lambda>((rs, x, sa, rd), u) (r', u'). r' = (rs, x, sa, rd) \<and> vm_sim k u u' \<and> (sa \<noteq> 0xFFFFFFFF \<longrightarrow> can_access sa u \<and> can_access sa u')
      \<and> (drop_bit 26 instruction = 0 \<longrightarrow> u = v \<and> u' = v'))
    (fetch_memory env instruction rs rd_reg v) (fetch_memory env instruction rs rd_reg v')"
proof (cases "0x20 \<le> (drop_bit 26 instruction :: u32)")
  case False
  with sim show ?thesis by (simp add: fetch_memory_def Let_def)
next
  case True
  then have nz: "drop_bit 26 instruction \<noteq> 0" by auto
  show ?thesis
    unfolding fetch_memory_def Let_def if_P [OF True]
    by (rule access_sim [OF k env sim spec [OF can(1)] spec [OF can(2)]]) (use nz in auto)
qed

lemma write_back_sim:
  fixes v v' :: "('o, 'w) instrumented"
  assumes k: "hash32 k" and env: "env_keccak env = k" and sim: "vm_sim k v v'"
    and can: "store_address \<noteq> 0xFFFFFFFF \<Longrightarrow> can_access store_address v \<and> can_access store_address v'"
  shows "rel_sum (=) (vm_sim k) (write_back env instruction store_address rd_reg val v) (write_back env instruction store_address rd_reg val v')"
proof -
  let ?rt = "drop_bit 16 instruction AND 0x1F"
  let ?sc = "\<lambda>v :: ('o, 'w) instrumented. if drop_bit 26 instruction = 0x38 \<and> ?rt \<noteq> 0
      then v\<lparr>vm_state := (vm_state v)\<lparr>registers := (registers (vm_state v))[unat ?rt := 1]\<rparr>\<rparr> else v"
  have s1: "vm_sim k (?sc v) (?sc v')" by (rule vm_sim_pushI [OF sim]) (simp_all add: retrack_def)
  have can1: "can_access store_address (?sc v)" "can_access store_address (?sc v')" if "store_address \<noteq> 0xFFFFFFFF"
    using can [OF that] by (simp_all add: can_access_def)
  have "rel_sum (=) (vm_sim k)
      (if store_address \<noteq> 0xFFFFFFFF then rbind (track_mem_access env store_address (?sc v)) (\<lambda>v2. vm_set_memory env store_address val v2) else Inr (?sc v))
      (if store_address \<noteq> 0xFFFFFFFF then rbind (track_mem_access env store_address (?sc v')) (\<lambda>v2. vm_set_memory env store_address val v2) else Inr (?sc v'))"
  proof (cases "store_address = 0xFFFFFFFF")
    case True
    with s1 show ?thesis by (simp only: simp_thms if_False rel_sum_simps)
  next
    case False
    note ok = vm_sim_ok [OF s1]
    obtain u where u: "track_mem_access env store_address (?sc v) = Inr u" "vm_sim k (?sc v) u"
      by (rule track_sim [OF k env conjunct1 [OF ok] can1(1) [OF False]])
    obtain u' where u': "track_mem_access env store_address (?sc v') = Inr u'" "vm_sim k (?sc v') u'"
      by (rule track_sim [OF k env conjunct2 [OF ok] can1(2) [OF False]])
    have "vm_sim k u u'" using u(2) u'(2) s1 by (meson vm_sim_sym vm_sim_trans)
    from set_sim [OF env this, of store_address val] have "rel_sum (=) (vm_sim k) (vm_set_memory env store_address val u) (vm_set_memory env store_address val u')"
      by (rule sum.rel_mono_strong) (auto simp: res_sim_def)
    with False u(1) u'(1) show ?thesis by (simp only: simp_thms if_True rbind_Inr)
  qed
  then show ?thesis
    unfolding write_back_def Let_def by (rule rel_rbind) (rule handler_sims(3), assumption, erule handlers_keep_memory(3))
qed

lemma dispatch_sim:
  fixes v v' :: "('o, 'w) instrumented"
  assumes k: "hash32 k" and env: "env_keccak env = k" and sim: "vm_sim k v v'"
    and can: "store_address \<noteq> 0xFFFFFFFF \<Longrightarrow> can_access store_address v \<and> can_access store_address v'"
    and sys: "drop_bit 26 instruction = 0 \<Longrightarrow> fresh v \<and> fresh v'"
  shows "rel_sum (=) (vm_sim k) (dispatch env instruction rs rt store_address rd_reg val v) (dispatch env instruction rs rt store_address rd_reg val v')"
proof -
  have jump: "rel_sum (=) (vm_sim k) (on_state (handle_jump l d) v) (on_state (handle_jump l d) v')" for l d
    by (rule handler_sims(1) [OF sim]) (rule handlers_keep_memory(1))
  have rd: "rel_sum (=) (vm_sim k) (on_state (handle_rd r x c) v) (on_state (handle_rd r x c) v')" for r x c
    by (rule handler_sims(3) [OF sim]) (rule handlers_keep_memory(3))
  have hilo: "rel_sum (=) (vm_sim k) (on_state (handle_hi_lo f a b r) v) (on_state (handle_hi_lo f a b r) v')" for f a b r
    by (rule handler_sims(4) [OF sim]) (rule handlers_keep_memory(4))
  note wb = write_back_sim [OF k env sim can]
  have sc: "rel_sum (=) (vm_sim k) (handle_syscall env v) (handle_syscall env v')" if "drop_bit 26 instruction = 0"
    using handle_syscall_sim [OF k env sim] sys [OF that] by blast
  show ?thesis unfolding dispatch_def Let_def using jump rd hilo wb sc by (auto split: if_split)
qed

lemma step_instruction_sim:
  fixes v v' :: "('o, 'w) instrumented"
  assumes k: "hash32 k" and env: "env_keccak env = k" and sim: "vm_sim k v v'" and can: "fresh v" "fresh v'"
  shows "rel_sum (=) (vm_sim k) (step_instruction env instruction v) (step_instruction env instruction v')"
proof -
  have jump: "rel_sum (=) (vm_sim k) (on_state (handle_jump l d) v) (on_state (handle_jump l d) v')" for l d
    by (rule handler_sims(1) [OF sim]) (rule handlers_keep_memory(1))
  have branch: "rel_sum (=) (vm_sim k) (on_state (handle_branch o1 i r s) v) (on_state (handle_branch o1 i r s) v')" for o1 i r s
    by (rule handler_sims(2) [OF sim]) (rule handlers_keep_memory(2))
  have st: "next_pc (vm_state v') = next_pc (vm_state v)" "fetch_operands instruction (vm_state v') = fetch_operands instruction (vm_state v)"
    using vm_sim_state [OF sim] by (simp_all add: fetch_operands_def Let_def)
  have mem: "rel_sum (=) (vm_sim k)
      (rbind (fetch_memory env instruction rs rd_reg v) (\<lambda>((rs, mem, store_address, rd_reg), v1).
         rbind (execute instruction rs rt mem) (\<lambda>val. dispatch env instruction rs rt store_address rd_reg val v1)))
      (rbind (fetch_memory env instruction rs rd_reg v') (\<lambda>((rs, mem, store_address, rd_reg), v1).
         rbind (execute instruction rs rt mem) (\<lambda>val. dispatch env instruction rs rt store_address rd_reg val v1)))" for rs rt rd_reg
  proof (rule rel_rbind [OF fetch_memory_sim [OF k env sim can]], clarify)
    fix rs1 x sa rd1 and u u' :: "('o, 'w) instrumented"
    assume u: "vm_sim k u u'" "sa \<noteq> 0xFFFFFFFF \<longrightarrow> can_access sa u \<and> can_access sa u'" "drop_bit 26 instruction = 0 \<longrightarrow> u = v \<and> u' = v'"
    have "rel_sum (=) (vm_sim k) (dispatch env instruction rs1 rt sa rd1 val u) (dispatch env instruction rs1 rt sa rd1 val u')" for val
      by (rule dispatch_sim [OF k env u(1)]) (use u(2,3) can in blast)+
    then show "rel_sum (=) (vm_sim k) (rbind (execute instruction rs1 rt x) (\<lambda>val. dispatch env instruction rs1 rt sa rd1 val u))
        (rbind (execute instruction rs1 rt x) (\<lambda>val. dispatch env instruction rs1 rt sa rd1 val u'))"
      by (cases "execute instruction rs1 rt x") simp_all
  qed
  show ?thesis
    unfolding step_instruction_def Let_def st using jump branch mem by (auto split: prod.split)
qed

lemma inner_step_sim:
  assumes k: "hash32 k" and env: "env_keccak env = k" and sim: "vm_sim k v v'" and can: "fresh v" "fresh v'"
  shows "rel_sum (=) (vm_sim k) (inner_step env v) (inner_step env v')"
proof -
  let ?tick = "\<lambda>v. v\<lparr>vm_state := (vm_state v)\<lparr>step := step (vm_state v) + 1\<rparr>\<rparr>"
  have s0: "vm_sim k (?tick v) (?tick v')" by (rule vm_sim_pushI [OF sim]) (simp_all add: retrack_def)
  have can0: "fresh (?tick v)" "fresh (?tick v')" using can by (simp_all add: can_access_def)
  have st: "exited (vm_state v') = exited (vm_state v)" "pc (vm_state v') = pc (vm_state v)" using vm_sim_state [OF sim] by simp_all
  have "rel_sum (=) (vm_sim k) (rbind (vm_get_memory (pc (vm_state v)) (?tick v)) (\<lambda>(instruction, v1). step_instruction env instruction v1))
      (rbind (vm_get_memory (pc (vm_state v)) (?tick v')) (\<lambda>(instruction, v1). step_instruction env instruction v1))"
  proof (rule rel_rbind [OF get_sim [OF s0]], goal_cases)
    case (1 r r')
    then obtain i u u' where r: "r = (i, u)" "r' = (i, u')" "vm_sim k u u'" "tracks_same (?tick v) u" "tracks_same (?tick v') u'"
      by (cases r; cases r') (auto simp: res_sim_def)
    have "fresh u" "fresh u'" using r(4,5) can0 by (simp_all add: tracks_same_def can_access_def)
    then show ?case unfolding r(1,2) prod.case by (intro step_instruction_sim [OF k env r(3)])
  qed
  with sim st show ?thesis by (simp add: inner_step_def)
qed

end
