(* ===== verification/Preimage_Keys.thy ===== *)
theory Preimage_Keys
  imports Prelude
begin

text \<open>
  The typed keys of the preimage oracle (\<open>types.rs\<close> of the crate \<open>preimage\<close>): the first byte of a
  key is its type, a local key carries an index in its last eight bytes, a global key carries the
  other 31 bytes of a keccak digest.
\<close>

section \<open>Key types\<close>

datatype KeyType = Illegal | Local | GlobalKeccak

fun KeyType_u8 :: "KeyType \<Rightarrow> u8" where
  "KeyType_u8 Illegal = 0"
| "KeyType_u8 Local = 1"
| "KeyType_u8 GlobalKeccak = 2"

definition KeyType_from :: "u8 \<Rightarrow> KeyType" where
  "KeyType_from n = (if n = 1 then Local else if n = 2 then GlobalKeccak else Illegal)"

datatype PreimageFds = HintClientRead | HintClientWrite | PreimageClientRead | PreimageClientWrite

fun PreimageFds_u8 :: "PreimageFds \<Rightarrow> u8" where
  "PreimageFds_u8 HintClientRead = 3"
| "PreimageFds_u8 HintClientWrite = 4"
| "PreimageFds_u8 PreimageClientRead = 5"
| "PreimageFds_u8 PreimageClientWrite = 6"

section \<open>Keys\<close>

text \<open>The three implementations of the trait \<open>Key\<close>.\<close>

definition local_preimage_key :: "u64 \<Rightarrow> bytes" where
  "local_preimage_key index =
    (let out = replicate 32 0;
         out = out[0 := KeyType_u8 Local]
     in copy_from_slice 24 (u64_be index) out)"

definition keccak_preimage_key :: "bytes \<Rightarrow> bytes" where
  "keccak_preimage_key digest = digest[0 := KeyType_u8 GlobalKeccak]"

definition raw_preimage_key :: "bytes \<Rightarrow> bytes" where
  "raw_preimage_key key = key"

section \<open>Facts\<close>

lemma local_preimage_key_eq: "local_preimage_key i = 1 # replicate 23 0 @ u64_be i"
  by (simp add: local_preimage_key_def copy_from_slice_def numeral_eq_Suc del: be_bytes.simps)

lemma local_key_type: "KeyType_from (local_preimage_key i ! 0) = Local"
  by (simp add: local_preimage_key_eq KeyType_from_def)

lemma length_local_preimage_key: "length (local_preimage_key i) = 32"
  by (simp add: local_preimage_key_eq del: be_bytes.simps)

lemma local_preimage_key_inject: "local_preimage_key i = local_preimage_key j \<Longrightarrow> i = j"
  by (simp add: local_preimage_key_eq del: be_bytes.simps) (erule be_bytes_inject, simp)

lemma keccak_key_type:
  "length d = 32 \<Longrightarrow> length (keccak_preimage_key d) = 32 \<and> KeyType_from (keccak_preimage_key d ! 0) = GlobalKeccak"
  by (simp add: keccak_preimage_key_def KeyType_from_def)

lemma keccak_preimage_key_eq_iff:
  assumes "length d = 32" and "length e = 32"
  shows "keccak_preimage_key d = keccak_preimage_key e \<longleftrightarrow> tl d = tl e"
proof -
  obtain x xs y ys where "d = x # xs" "e = y # ys" using assms by (cases d; cases e) auto
  then show ?thesis by (simp add: keccak_preimage_key_def)
qed

lemma KeyType_from_u8: "KeyType_from (KeyType_u8 t) = t"
  by (cases t) (simp_all add: KeyType_from_def)

section \<open>Properties\<close>

text \<open>C37. The key spaces. Every key has 32 bytes and its type in the first one. A local key carries its
  index, so local keys are different for different indices; two global keys are the same exactly
  when the digests agree after the first byte; and no local key is a global one.\<close>

theorem key_spaces:
  assumes "length d = 32" and "length e = 32"
  shows "length (local_preimage_key i) = 32 \<and> KeyType_from (local_preimage_key i ! 0) = Local
    \<and> from_be (drop 24 (local_preimage_key i)) = i
    \<and> (local_preimage_key i = local_preimage_key j \<longleftrightarrow> i = j)
    \<and> length (keccak_preimage_key d) = 32 \<and> KeyType_from (keccak_preimage_key d ! 0) = GlobalKeccak
    \<and> (keccak_preimage_key d = keccak_preimage_key e \<longleftrightarrow> tl d = tl e)
    \<and> local_preimage_key i \<noteq> keccak_preimage_key d \<and> raw_preimage_key d = d"
proof -
  have "KeyType_from (local_preimage_key i ! 0) \<noteq> KeyType_from (keccak_preimage_key d ! 0)"
    using local_key_type keccak_key_type [OF assms(1)] by simp
  then have "local_preimage_key i \<noteq> keccak_preimage_key d" by metis
  moreover have "from_be (drop 24 (local_preimage_key i)) = i"
    by (simp add: local_preimage_key_eq del: be_bytes.simps)
  ultimately show ?thesis
    using length_local_preimage_key local_key_type local_preimage_key_inject keccak_key_type [OF assms(1)]
      keccak_preimage_key_eq_iff [OF assms] by (auto simp: raw_preimage_key_def)
qed

theorem key_spaces_witness:
  "local_preimage_key 5 \<noteq> keccak_preimage_key (replicate 32 1)"
proof -
  have "length (replicate 32 (1 :: u8)) = 32" by simp
  from key_spaces [OF this this, of 5 6] show ?thesis by blast
qed

end
