(* ===== verification/Witness.thy ===== *)
theory Witness
  imports Mips_Sim Preimage_Keys Demo
begin

text \<open>
  The step of the instrumented machine (\<open>InstrumentedState::step\<close>) and the witness it returns
  (\<open>StepWitness\<close> of \<open>witness.rs\<close>): the encoded pre-state, the branch of the instruction, the branch
  of the memory access and the preimage that was read. The ABI encodings that \<open>alloy_sol_types\<close>
  generates are parameters. The lemmas show that the branches of a witness check against the
  memory root in its own state, and that the root of the next state follows from them.
\<close>

section \<open>Data\<close>

record step_witness =
  wit_state :: bytes
  wit_mem_proof :: bytes
  wit_preimage_key :: "bytes option"
  wit_preimage_value :: "bytes option"
  wit_preimage_offset :: "u32 option"

definition has_preimage :: "step_witness \<Rightarrow> bool" where
  "has_preimage wit \<longleftrightarrow> wit_preimage_key wit \<noteq> None"

section \<open>The step\<close>

text \<open>The witness before the step, when a proof is asked for, and its completion after the step.\<close>

definition begin_witness :: "('o, 'w) env \<Rightarrow> ('o, 'w) instrumented \<Rightarrow> (step_witness \<times> ('o, 'w) instrumented) res" where
  "begin_witness env v =
     rbind (merkle_proof (env_keccak env) (pc (vm_state v)) (vm_memory v)) (\<lambda>(instruction_proof, m1).
     let v1 = set_vm_memory m1 v;
         pf = copy_from_slice 0 instruction_proof (replicate (28 * 32 * 2) 0)
     in rbind (encode_witness (env_keccak env) (vm_state v1)) (\<lambda>(w, s1).
          Inr (\<lparr>wit_state = w, wit_mem_proof = pf, wit_preimage_key = None,
                wit_preimage_value = None, wit_preimage_offset = None\<rparr>, v1\<lparr>vm_state := s1\<rparr>)))"

definition complete_witness :: "('o, 'w) instrumented \<Rightarrow> step_witness \<Rightarrow> step_witness" where
  "complete_witness v wit =
    (let wit = wit\<lparr>wit_mem_proof := copy_from_slice (28 * 32) (mem_proof v) (wit_mem_proof wit)\<rparr>
     in if last_preimage_offset v \<noteq> 0xFFFFFFFF
        then wit\<lparr>wit_preimage_key := Some (last_preimage_key v),
                 wit_preimage_value := Some (last_preimage v),
                 wit_preimage_offset := Some (last_preimage_offset v)\<rparr>
        else wit)"

definition vm_step ::
  "('o, 'w) env \<Rightarrow> bool \<Rightarrow> ('o, 'w) instrumented \<Rightarrow> (step_witness option \<times> ('o, 'w) instrumented) res" where
  "vm_step env with_proof v =
    (let v0 = v\<lparr>mem_proof_enabled := with_proof, last_mem_access := NOT 0, last_preimage_offset := NOT 0\<rparr>
     in rbind (if with_proof then rbind (begin_witness env v0) (\<lambda>(wit, v1). Inr (Some wit, v1))
               else Inr (None, v0))
          (\<lambda>(witness, v1). rbind (inner_step env v1) (\<lambda>v2.
             Inr (if with_proof then map_option (complete_witness v2) witness else witness, v2))))"

section \<open>Inputs of the contracts\<close>

text \<open>
  \<open>encode_preimage_oracle_input\<close>: \<open>abi_local\<close> and \<open>abi_keccak\<close> stand for \<open>abi_encode\<close> of the two
  calls. \<open>None\<close> is the code's \<open>None\<close>; slicing a value of fewer than eight bytes panics.
\<close>

definition encode_preimage_oracle_input ::
  "(bytes \<Rightarrow> bytes \<Rightarrow> nat \<Rightarrow> u32 \<Rightarrow> bytes) \<Rightarrow> (u32 \<Rightarrow> bytes \<Rightarrow> bytes) \<Rightarrow> step_witness \<Rightarrow> bytes option res" where
  "encode_preimage_oracle_input abi_local abi_keccak wit =
    (case wit_preimage_key wit of
       None \<Rightarrow> Inr None
     | Some key \<Rightarrow>
         (case KeyType_from (key ! 0) of
            Illegal \<Rightarrow> Inr None
          | Local \<Rightarrow>
              (case wit_preimage_value wit of
                 None \<Rightarrow> Inr None
               | Some val \<Rightarrow>
                   if 32 + 8 < length val then Inr None
                   else if length val < 8 then Inl PanicSlice
                   else
                     (let part = drop 8 val;
                          tmp = copy_from_slice 0 part (replicate 32 0)
                      in case wit_preimage_offset wit of
                           None \<Rightarrow> Inr None
                         | Some offset \<Rightarrow> Inr (Some (abi_local key tmp (length val - 8) offset))))
          | GlobalKeccak \<Rightarrow>
              (case wit_preimage_offset wit of
                 None \<Rightarrow> Inr None
               | Some offset \<Rightarrow>
                   (case wit_preimage_value wit of
                      None \<Rightarrow> Inr None
                    | Some val \<Rightarrow>
                        if length val < 8 then Inl PanicSlice
                        else Inr (Some (abi_keccak offset (drop 8 val)))))))"

definition encode_step_input :: "(bytes \<Rightarrow> bytes \<Rightarrow> bytes) \<Rightarrow> step_witness \<Rightarrow> bytes" where
  "encode_step_input abi_step wit = abi_step (wit_state wit) (wit_mem_proof wit)"

section \<open>Beginning and completing a witness\<close>

lemma max_u32: "NOT 0 = (0xFFFFFFFF :: u32)"
  by simp

abbreviation mem_root :: "hash_fn \<Rightarrow> memory \<Rightarrow> bytes" where
  "mem_root k m \<equiv> subtree k (mem_leaf m) 27 0"

lemma length_mem_root: "hash32 k \<Longrightarrow> length (mem_root k m) = 32"
  by (rule length_subtree) simp_all

lemma mem_root_cong: "mem_byte m' = mem_byte m \<Longrightarrow> mem_root k m' = mem_root k m"
  using mem_leaf_cong by metis

lemma begin_witness_ok:
  assumes k: "hash32 k" and env: "env_keccak env = k" and ok: "state_ok k (vm_state v)"
  obtains m1 where "begin_witness env v = Inr (\<lparr>wit_state = witness_of (mem_root k (vm_memory v)) (vm_state v),
        wit_mem_proof = branch_of k (vm_memory v) (pc (vm_state v)) @ replicate 896 0,
        wit_preimage_key = None, wit_preimage_value = None, wit_preimage_offset = None\<rparr>, set_vm_memory m1 v)"
    and "mem_ok k m1" and "mem_byte m1 = mem_byte (vm_memory v)"
proof -
  let ?m = "vm_memory v" and ?a = "pc (vm_state v)"
  note d = state_okD [OF ok]
  obtain m1 where m1: "merkle_proof k ?a ?m = Inr (branch_of k ?m ?a, m1)" "mem_ok k m1" "mem_extends ?m m1"
    unfolding branch_of_def by (rule merkle_proof_ok [OF d(1) k])
  note b1 = mem_extends_byte [OF mem_okD(1) [OF d(1)] m1(3)]
  have ok1: "state_ok k ((vm_state v)\<lparr>memory := m1\<rparr>)" using m1(2) d by (simp add: state_ok_def)
  obtain m2 where m2: "encode_witness k ((vm_state v)\<lparr>memory := m1\<rparr>) = Inr (witness_of (mem_root k m1) ((vm_state v)\<lparr>memory := m1\<rparr>),
      (vm_state v)\<lparr>memory := m2\<rparr>)" "mem_ok k m2" "mem_extends m1 m2"
  proof (rule encode_witness_ok [OF ok1 k])
    fix m2
    assume "encode_witness k ((vm_state v)\<lparr>memory := m1\<rparr>) = Inr (witness_of (mem_root k (memory ((vm_state v)\<lparr>memory := m1\<rparr>))) ((vm_state v)\<lparr>memory := m1\<rparr>),
        (vm_state v)\<lparr>memory := m1, memory := m2\<rparr>)"
      and "state_ok k ((vm_state v)\<lparr>memory := m1, memory := m2\<rparr>)" and "mem_extends (memory ((vm_state v)\<lparr>memory := m1\<rparr>)) m2"
    then show thesis by (intro that [of m2]) (simp_all add: state_ok_def)
  qed
  note b2 = mem_extends_byte [OF mem_okD(1) [OF m1(2)] m2(3)]
  have w: "witness_of (mem_root k m1) ((vm_state v)\<lparr>memory := m1\<rparr>) = witness_of (mem_root k ?m) (vm_state v)"
    unfolding mem_root_cong [OF b1] by (simp add: witness_of_def)
  have pf: "copy_from_slice 0 (branch_of k ?m ?a) (replicate 1792 0) = branch_of k ?m ?a @ replicate 896 0"
    using copy_append [of "[]" 0 "branch_of k ?m ?a" 1792 0] length_branch_of [OF k] by simp
  show ?thesis
    using m1(1) m2(1,2) w pf b1 b2 env by (intro that [of m2]) (simp_all add: begin_witness_def Let_def)
qed

lemma complete_witness_simps [simp]:
  "wit_state (complete_witness v wit) = wit_state wit"
  "wit_mem_proof (complete_witness v wit) = copy_from_slice 896 (mem_proof v) (wit_mem_proof wit)"
  by (simp_all add: complete_witness_def Let_def)

section \<open>What a step with a proof shows\<close>

text \<open>A step that succeeds, with everything that is known about it.\<close>

lemma vm_step_proof:
  assumes k: "hash32 k" and env: "env_keccak env = k" and ok: "state_ok k (vm_state v)" and run: "\<not> exited (vm_state v)"
    and len: "length (mem_proof v) = 896" and st: "vm_step env True v = Inr (wo, v')"
  obtains wit where "wo = Some wit" and "wit_state wit = witness_of (mem_root k (vm_memory v)) (vm_state v)"
    and "wit_mem_proof wit = branch_of k (vm_memory v) (pc (vm_state v)) @ mem_proof v'"
    and "state_ok k (vm_state v')"
    and "one_word k (vm_memory v) (last_mem_access v') (mem_proof v') (vm_memory v')"
    and "advances ((vm_state v)\<lparr>step := step (vm_state v) + 1\<rparr>) (vm_state v')"
    and "unat (pc (vm_state v)) mod 4 = 0"
proof -
  let ?v0 = "v\<lparr>mem_proof_enabled := True, last_mem_access := 0xFFFFFFFF, last_preimage_offset := 0xFFFFFFFF\<rparr>"
  let ?w0 = "\<lparr>wit_state = witness_of (mem_root k (vm_memory v)) (vm_state v),
        wit_mem_proof = branch_of k (vm_memory v) (pc (vm_state v)) @ replicate 896 0,
        wit_preimage_key = None, wit_preimage_value = None, wit_preimage_offset = None\<rparr>"
  have ok0: "state_ok k (vm_state ?v0)" using ok by simp
  obtain m1 where b: "begin_witness env ?v0 = Inr (?w0, set_vm_memory m1 ?v0)" "mem_ok k m1" "mem_byte m1 = mem_byte (vm_memory v)"
    by (rule begin_witness_ok [OF k env ok0]) simp
  let ?v1 = "set_vm_memory m1 ?v0"
  obtain v2 where s: "inner_step env ?v1 = Inr v2" and r: "wo = Some (complete_witness v2 ?w0)" "v' = v2"
    using st b(1) unfolding vm_step_def Let_def max_u32 by auto
  have i1: "step_inv k (vm_memory v) ?v1"
    using b(2,3) state_okD [OF ok] len by (simp add: step_inv_def state_ok_def one_word_def)
  have run1: "\<not> exited (vm_state ?v1)" using run by simp
  note i = inner_step_ok [OF k env i1 run1 s]
  have "advances ((vm_state v)\<lparr>step := step (vm_state v) + 1\<rparr>) (vm_state v2)" using i(2) by (simp add: advances_def)
  moreover have "unat (pc (vm_state v)) mod 4 = 0" using inner_step_aligned [OF run1 s] by simp
  moreover have "one_word k (vm_memory v) (last_mem_access v2) (mem_proof v2) (vm_memory v2)" "state_ok k (vm_state v2)"
    and len2: "length (mem_proof v2) = 896"
    using i(1,3) by (simp_all add: step_inv_def)
  moreover have "copy_from_slice 896 (mem_proof v2) (branch_of k (vm_memory v) (pc (vm_state v)) @ replicate 896 0)
      = branch_of k (vm_memory v) (pc (vm_state v)) @ mem_proof v2"
    using copy_append [OF length_branch_of [OF k]] len2 by simp
  ultimately show ?thesis using r by (intro that [of "complete_witness v2 ?w0"]) simp_all
qed

text \<open>Which branch checks where.\<close>

lemma proof_root_branch: "hash32 k \<Longrightarrow> proof_root k a (branch_of k m a) = mem_root k m"
  unfolding branch_of_def by (rule proof_root_ok)

lemma proof_word_branch: "unat a mod 4 = 0 \<Longrightarrow> proof_word a (branch_of k m a) = mem_word m a"
  unfolding branch_of_def by (rule proof_word_ok) (simp add: aligned_iff)

lemma one_word_proof:
  assumes k: "hash32 k" and one: "one_word k m a pf m'" and a: "a \<noteq> 0xFFFFFFFF"
  shows "proof_root k a pf = mem_root k m" and "proof_word a pf = mem_word m a"
    and "proof_write_root k a (mem_word m' a) pf = mem_root k m'"
    and "\<And>b. b < unat a \<or> unat a + 4 \<le> b \<Longrightarrow> mem_byte m' b = mem_byte m b"
proof -
  have d: "unat a mod 4 = 0" "pf = branch_of k m a" "\<And>b. b < unat a \<or> unat a + 4 \<le> b \<Longrightarrow> mem_byte m' b = mem_byte m b"
    using one a unfolding one_word_def by (simp_all only: if_False)
  then show "proof_root k a pf = mem_root k m" "proof_word a pf = mem_word m a"
    "\<And>b. b < unat a \<or> unat a + 4 \<le> b \<Longrightarrow> mem_byte m' b = mem_byte m b"
    using proof_root_branch [OF k] proof_word_branch by simp_all
  show "proof_write_root k a (mem_word m' a) pf = mem_root k m'"
    unfolding d(2) by (rule proof_write_root_ok [OF k d(1,3)])
qed

lemma one_word_none: "one_word k m 0xFFFFFFFF pf m' \<Longrightarrow> mem_byte m' = mem_byte m"
  by (simp add: one_word_def)

section \<open>Steps without an instruction to run\<close>

text \<open>An instruction that is all zeros (\<open>sll $0, $0, 0\<close>) runs in every state.\<close>

lemma step_instruction_nop:
  assumes "length (registers (vm_state v)) = 32"
  shows "step_instruction env 0 v
    = Inr (v\<lparr>vm_state := (vm_state v)\<lparr>pc := next_pc (vm_state v), next_pc := next_pc (vm_state v) + 4\<rparr>\<rparr>)"
  by (simp add: step_instruction_def fetch_operands_def fetch_memory_def execute_def execute_fun_def dispatch_def
      write_back_def on_state_def handle_rd_def Let_def shl32_def)

lemma vm_step_nop:
  assumes k: "hash32 k" and env: "env_keccak env = k" and ok: "state_ok k (vm_state v)" and run: "\<not> exited (vm_state v)"
    and len: "length (mem_proof v) = 896" and al: "unat (pc (vm_state v)) mod 4 = 0" and nop: "mem_word (vm_memory v) (pc (vm_state v)) = 0"
  shows "\<exists>wit v'. vm_step env True v = Inr (Some wit, v') \<and> mem_proof v' = mem_proof v \<and> last_preimage v' = last_preimage v
    \<and> last_preimage_offset v' = 0xFFFFFFFF"
proof -
  let ?v0 = "v\<lparr>mem_proof_enabled := True, last_mem_access := 0xFFFFFFFF, last_preimage_offset := 0xFFFFFFFF\<rparr>"
  have ok0: "state_ok k (vm_state ?v0)" using ok by simp
  obtain m1 w0 where b: "begin_witness env ?v0 = Inr (w0, set_vm_memory m1 ?v0)" "mem_ok k m1" "mem_byte m1 = mem_byte (vm_memory v)"
    by (rule begin_witness_ok [OF k env ok0]) simp
  have "mem_word m1 (pc (vm_state v)) = 0" using nop b(3) by (simp add: mem_word_def)
  then obtain m2 where "get_memory (pc (vm_state v)) m1 = Inr (0, m2)"
    using get_memory_ok [OF b(2) al] by metis
  then have "\<exists>v2. inner_step env (set_vm_memory m1 ?v0) = Inr v2 \<and> mem_proof v2 = mem_proof v \<and> last_preimage v2 = last_preimage v
      \<and> last_preimage_offset v2 = 0xFFFFFFFF"
    using run state_okD(3) [OF ok] by (simp add: inner_step_def vm_get_memory_def step_instruction_nop Let_def)
  with b(1) show ?thesis unfolding vm_step_def Let_def max_u32 by auto
qed

section \<open>Steps with and without a proof\<close>

text \<open>The machines that run the inner step with and without a proof agree.\<close>

lemma vm_step_modes:
  assumes k: "hash32 k" and env: "env_keccak env = k" and ok: "state_ok k (vm_state v)"
  shows "rel_sum (=) (\<lambda>(w, u) (w', u'). (\<exists>wit. w = Some wit) \<and> w' = None \<and> vm_sim k u u') (vm_step env True v) (vm_step env False v)"
proof -
  let ?v0 = "\<lambda>b. v\<lparr>mem_proof_enabled := b, last_mem_access := 0xFFFFFFFF, last_preimage_offset := 0xFFFFFFFF\<rparr>"
  have ok0: "state_ok k (vm_state (?v0 True))" using ok by simp
  obtain w0 m1 where b: "begin_witness env (?v0 True) = Inr (w0, set_vm_memory m1 (?v0 True))" "mem_ok k m1" "mem_byte m1 = mem_byte (vm_memory v)"
    by (rule begin_witness_ok [OF k env ok0]) simp
  have "?v0 False = retrack (vm_memory v) 0xFFFFFFFF False (mem_proof v) (set_vm_memory m1 (?v0 True))"
    by (cases v, cases "vm_state v") (simp add: retrack_def)
  moreover have "mem_sim k (vm_memory (set_vm_memory m1 (?v0 True))) (vm_memory v)"
    using b(2,3) state_okD(1) [OF ok] by (simp add: mem_sim_def)
  ultimately have sim: "vm_sim k (set_vm_memory m1 (?v0 True)) (?v0 False)" using vm_simI by metis
  have "rel_sum (=) (vm_sim k) (inner_step env (set_vm_memory m1 (?v0 True))) (inner_step env (?v0 False))"
    by (rule inner_step_sim [OF k env sim]) (simp_all add: can_access_def)
  then have "rel_sum (=) (\<lambda>(w, u) (w', u'). (\<exists>wit. w = Some wit) \<and> w' = None \<and> vm_sim k u u')
      (rbind (inner_step env (set_vm_memory m1 (?v0 True))) (\<lambda>v2. Inr (Some (complete_witness v2 w0), v2)))
      (rbind (inner_step env (?v0 False)) (\<lambda>v2. Inr (None, v2)))"
    by (rule rel_rbind) simp
  moreover have "vm_step env True v = rbind (inner_step env (set_vm_memory m1 (?v0 True))) (\<lambda>v2. Inr (Some (complete_witness v2 w0), v2))"
    using b(1) unfolding vm_step_def Let_def max_u32 by simp
  moreover have "vm_step env False v = rbind (inner_step env (?v0 False)) (\<lambda>v2. Inr (None, v2))"
    unfolding vm_step_def Let_def max_u32 by simp
  ultimately show ?thesis by (simp only:)
qed

text \<open>In both modes a step is an inner step from a machine that differs in caches and tracking only.\<close>

lemma vm_step_inner:
  assumes k: "hash32 k" and env: "env_keccak env = k" and ok: "state_ok k (vm_state v)" and st: "vm_step env b v = Inr (wo, v')"
  obtains m1 v1 where "inner_step env v1 = Inr v'" and "vm_state v1 = (vm_state v)\<lparr>memory := m1\<rparr>" and "mem_ok k m1"
    and "mem_byte m1 = mem_byte (vm_memory v)" and "mem_proof v1 = mem_proof v" and "last_mem_access v1 = 0xFFFFFFFF"
    and "wo = None \<longleftrightarrow> \<not> b"
proof -
  let ?v0 = "v\<lparr>mem_proof_enabled := b, last_mem_access := 0xFFFFFFFF, last_preimage_offset := 0xFFFFFFFF\<rparr>"
  have ok0: "state_ok k (vm_state ?v0)" using ok by simp
  show ?thesis
  proof (cases b)
    case True
    obtain m1 w0 where b: "begin_witness env ?v0 = Inr (w0, set_vm_memory m1 ?v0)" "mem_ok k m1" "mem_byte m1 = mem_byte (vm_memory v)"
      by (rule begin_witness_ok [OF k env ok0]) simp
    then have "inner_step env (set_vm_memory m1 ?v0) = Inr v' \<and> wo \<noteq> None"
      using st True unfolding vm_step_def Let_def max_u32 by auto
    with b True show ?thesis by (intro that [of "set_vm_memory m1 ?v0" m1]) simp_all
  next
    case False
    then have "inner_step env ?v0 = Inr v' \<and> wo = None" using st unfolding vm_step_def Let_def max_u32 by auto
    with False state_okD(1) [OF ok] show ?thesis by (intro that [of ?v0 "vm_memory v"]) simp_all
  qed
qed

lemma vm_step_ok:
  assumes k: "hash32 k" and env: "env_keccak env = k" and ok: "state_ok k (vm_state v)" and len: "length (mem_proof v) = 896"
    and st: "vm_step env b v = Inr (wo, v')"
  shows "state_ok k (vm_state v')" and "length (mem_proof v') = 896" and "wo = None \<longleftrightarrow> \<not> b"
    and "\<not> exited (vm_state v) \<Longrightarrow> advances ((vm_state v)\<lparr>step := step (vm_state v) + 1\<rparr>) (vm_state v')"
    and "exited (vm_state v) \<Longrightarrow> vm_state v' = (vm_state v)\<lparr>memory := vm_memory v'\<rparr> \<and> mem_byte (vm_memory v') = mem_byte (vm_memory v)"
proof -
  obtain m1 v1 where 1: "inner_step env v1 = Inr v'" "vm_state v1 = (vm_state v)\<lparr>memory := m1\<rparr>" "mem_ok k m1"
      "mem_byte m1 = mem_byte (vm_memory v)" "mem_proof v1 = mem_proof v" "last_mem_access v1 = 0xFFFFFFFF" "wo = None \<longleftrightarrow> \<not> b"
    by (rule vm_step_inner [OF k env ok st])
  show "wo = None \<longleftrightarrow> \<not> b" by (rule 1(7))
  have i: "step_inv k (vm_memory v) v1"
    using 1(2-6) state_okD [OF ok] len by (simp add: step_inv_def state_ok_def one_word_def)
  have "step_inv k (vm_memory v) v'"
  proof (cases "exited (vm_state v1)")
    case True
    with 1(1) i show ?thesis by (simp add: inner_step_exited)
  next
    case False
    from inner_step_ok(1) [OF k env i False 1(1)] show ?thesis .
  qed
  then show "state_ok k (vm_state v')" "length (mem_proof v') = 896" by (simp_all add: step_inv_def)
  show "advances ((vm_state v)\<lparr>step := step (vm_state v) + 1\<rparr>) (vm_state v')" if "\<not> exited (vm_state v)"
    using inner_step_ok(2) [OF k env i _ 1(1)] that 1(2) by (simp add: advances_def)
  show "vm_state v' = (vm_state v)\<lparr>memory := vm_memory v'\<rparr> \<and> mem_byte (vm_memory v') = mem_byte (vm_memory v)" if "exited (vm_state v)"
    using 1 that by (simp add: inner_step_exited)
qed

text \<open>Machines that differ in caches and tracking only make the same steps, in either mode.\<close>

lemma vm_step_sim:
  assumes k: "hash32 k" and env: "env_keccak env = k" and sim: "vm_sim k v v'" and ok: "state_ok k (vm_state v)" "state_ok k (vm_state v')"
  shows "rel_sum (=) (\<lambda>(w, u) (w', u'). vm_sim k u u') (vm_step env b v) (vm_step env b' v')"
proof -
  let ?v0 = "\<lambda>v. v\<lparr>mem_proof_enabled := False, last_mem_access := 0xFFFFFFFF, last_preimage_offset := 0xFFFFFFFF\<rparr>"
  obtain m x p q where v': "v' = retrack m x p q v" and m: "mem_sim k (vm_memory v) m" by (rule vm_simE [OF sim])
  have "?v0 v' = retrack m 0xFFFFFFFF False q (?v0 v)" unfolding v' by (simp add: retrack_def)
  moreover have "mem_sim k (vm_memory (?v0 v)) m" using m by simp
  ultimately have sim0: "vm_sim k (?v0 v) (?v0 v')" using vm_simI by metis
  have "rel_sum (=) (vm_sim k) (inner_step env (?v0 v)) (inner_step env (?v0 v'))"
    by (rule inner_step_sim [OF k env sim0]) (simp_all add: can_access_def)
  then have plain: "rel_sum (=) (\<lambda>(w, u) (w', u'). vm_sim k u u') (vm_step env False v) (vm_step env False v')"
    unfolding vm_step_def Let_def max_u32 by (auto elim!: rel_sum.cases)
  have any: "rel_sum (=) (\<lambda>(w, u) (w', u'). vm_sim k u u') (vm_step env b u) (vm_step env False u)" if "state_ok k (vm_state u)" for b u
  proof (cases b)
    case True
    with vm_step_modes [OF k env that] show ?thesis by (auto elim!: rel_sum.cases)
  next
    case False
    have "vm_sim k y y" if "vm_step env False u = Inr (w, y)" for w y
      using vm_step_modes [OF k env \<open>state_ok k (vm_state u)\<close>] that by (auto elim!: rel_sum.cases dest: vm_sim_sym intro: vm_sim_trans)
    with False show ?thesis by (cases "vm_step env False u") auto
  qed
  from any [OF ok(1), of b] plain any [OF ok(2), of b'] show ?thesis
    by (auto elim!: rel_sum.cases) (metis vm_sim_sym vm_sim_trans)+
qed

section \<open>Properties\<close>

text \<open>C7. The invariant of a step. A step, with or without a proof, keeps the state well formed. While the
  program runs, it adds one to the step counter, never changes register zero, and moves the program
  counter to the delay slot's successor unless the program exits; once the program has exited, a step
  changes nothing but caches.\<close>

theorem step_invariant:
  assumes "hash32 k" and "env_keccak env = k" and "state_ok k (vm_state v)" and "length (mem_proof v) = 896"
    and "vm_step env with_proof v = Inr (wo, v')"
  shows "state_ok k (vm_state v') \<and> length (mem_proof v') = 896 \<and> (wo = None \<longleftrightarrow> \<not> with_proof)
    \<and> (if exited (vm_state v)
       then vm_state v' = (vm_state v)\<lparr>memory := vm_memory v'\<rparr> \<and> mem_byte (vm_memory v') = mem_byte (vm_memory v)
       else step (vm_state v') = step (vm_state v) + 1 \<and> registers (vm_state v') ! 0 = registers (vm_state v) ! 0
         \<and> pc (vm_state v') = (if exited (vm_state v') then pc (vm_state v) else next_pc (vm_state v)))"
  using vm_step_ok [OF assms] state_okD(3) [OF assms(3)] by (auto simp: advances_def split: if_splits)

theorem step_invariant_witness:
  "\<exists>wo v'. vm_step demo_env True demo_vm = Inr (wo, v') \<and> step (vm_state v') = 1 \<and> pc (vm_state v') = (if exited (vm_state v') then 0 else 4)"
proof -
  obtain wo v' where st: "vm_step demo_env True demo_vm = Inr (wo, v')"
    using vm_step_nop [OF demo_hash32 demo_keccak demo_vm_facts(1-4) demo_nop] by blast
  have "step (vm_state demo_vm) = 0" "pc (vm_state demo_vm) = 0" "next_pc (vm_state demo_vm) = 4"
    by (simp_all add: demo_vm_def instrumented_new_def demo_state_def state_default_def)
  with step_invariant [OF demo_hash32 demo_keccak demo_vm_facts(1,3) st] demo_vm_facts(2) st show ?thesis by auto
qed

text \<open>C8. Proof generation does not change the computation: a step with a proof fails with the same error
  or succeeds like a step without one, and the two resulting machines agree in every field, the
  contents of the memory included, except for the caches of the memory and the tracked access.\<close>

theorem proof_mode_equivalence:
  assumes "hash32 k" and "env_keccak env = k" and "state_ok k (vm_state v)"
  shows "case (vm_step env True v, vm_step env False v) of
      (Inl e, Inl e') \<Rightarrow> e = e'
    | (Inr (wo, u), Inr (wo', u')) \<Rightarrow> wo \<noteq> None \<and> wo' = None \<and> mem_byte (vm_memory u) = mem_byte (vm_memory u')
        \<and> (\<exists>m x p q. u' = u\<lparr>vm_state := (vm_state u)\<lparr>memory := m\<rparr>, last_mem_access := x, mem_proof_enabled := p, mem_proof := q\<rparr>)
    | _ \<Rightarrow> False"
  using vm_step_modes [OF assms] by (auto elim!: rel_sum.cases simp: vm_sim_def mem_sim_def retrack_def) (intro exI, rule refl)

theorem proof_mode_equivalence_witness:
  "\<exists>wit u u'. vm_step demo_env True demo_vm = Inr (Some wit, u) \<and> vm_step demo_env False demo_vm = Inr (None, u')
    \<and> mem_byte (vm_memory u) = mem_byte (vm_memory u')"
proof -
  obtain wit u where "vm_step demo_env True demo_vm = Inr (Some wit, u)"
    using vm_step_nop [OF demo_hash32 demo_keccak demo_vm_facts(1-4) demo_nop] by blast
  with proof_mode_equivalence [OF demo_hash32 demo_keccak demo_vm_facts(1)] show ?thesis
    by (auto split: sum.splits prod.splits)
qed

text \<open>The oracle input of a witness that read a preimage, whose value carries the eight bytes of its
  length in front. A local preimage of up to 32 bytes is padded with zeros to a word, a longer one
  yields no input, a global preimage is passed on as it is, and an illegal key yields none.\<close>

lemma oracle_input:
  assumes "wit_preimage_key wit = Some key" and "wit_preimage_value wit = Some (prefix @ payload)" and "length prefix = 8"
    and "wit_preimage_offset wit = Some off"
  shows "encode_preimage_oracle_input abi_local abi_keccak wit =
    (case KeyType_from (key ! 0) of
       Illegal \<Rightarrow> Inr None
     | Local \<Rightarrow> if length payload \<le> 32
         then Inr (Some (abi_local key (payload @ replicate (32 - length payload) 0) (length payload) off)) else Inr None
     | GlobalKeccak \<Rightarrow> Inr (Some (abi_keccak off payload)))"
  using assms by (simp add: encode_preimage_oracle_input_def Let_def copy_from_slice_def split: KeyType.split)

end
