(* ===== verification/Mips_Ref_Proof.thy ===== *)
theory Mips_Ref_Proof
  imports Mips_Ref_Values Witness
begin

text \<open>
  The machine implements the abstract processor of \<open>Mips_Ref\<close>: when the word at the program counter
  encodes an instruction whose outcome the architecture defines, a step of the machine succeeds and
  its registers, program counters and memory are those of the processor. \<open>becomes\<close> says that the result of an
  operation of the machine is a given processor; there is a lemma for each handler, for each format and for
  each group of instructions.
\<close>

section \<open>The processor that a machine implements\<close>

definition cpu_of :: "state \<Rightarrow> cpu" where
  "cpu_of s = \<lparr>gpr = (\<lambda>r. registers s ! unat r), cpu_pc = pc s, cpu_next_pc = next_pc s, cpu_hi = hi s, cpu_lo = lo s,
     cells = mem_byte (memory s)\<rparr>"

lemma cpu_of_simps [simp]:
  "gpr (cpu_of s) r = registers s ! unat r" "cpu_pc (cpu_of s) = pc s" "cpu_next_pc (cpu_of s) = next_pc s"
  "cpu_hi (cpu_of s) = hi s" "cpu_lo (cpu_of s) = lo s" "cells (cpu_of s) = mem_byte (memory s)"
  by (simp_all add: cpu_of_def)

text \<open>Everything that instructions other than system calls leave alone.\<close>

definition surroundings where
  "surroundings v = ((preimage_key (vm_state v), preimage_offset (vm_state v), heap (vm_state v), exit_code (vm_state v),
      exited (vm_state v), last_hint (vm_state v)),
     (std_out v, std_err v, preimage_oracle v, last_preimage v, last_preimage_key v), length (registers (vm_state v)))"

definition becomes :: "('o, 'w) instrumented \<Rightarrow> ('o, 'w) instrumented res \<Rightarrow> cpu \<Rightarrow> bool" where
  "becomes v r c \<longleftrightarrow> (\<exists>v'. r = Inr v' \<and> cpu_of (vm_state v') = c \<and> surroundings v' = surroundings v
     \<and> step (vm_state v') = step (vm_state v))"

lemma gpr_update:
  assumes "length rs = 32"
  shows "(\<lambda>r :: reg. rs[unat q := x] ! unat r) = (\<lambda>r. rs ! unat r)(q := x)"
  using assms by (auto simp: fun_eq_iff nth_list_update word_unat_eq_iff)

text \<open>The handlers on the view of the processor.\<close>

lemma becomes_rd:
  assumes "length (registers (vm_state v)) = 32"
  shows "becomes v (on_state (handle_rd (ucast r) val b) v)
    (if b then writes r (cpu_of (vm_state v)) val else advance (cpu_of (vm_state v)))"
  using gpr_update [OF assms] assms
  by (auto simp: becomes_def on_state_def handle_rd_def Let_def writes_def set_gpr_def advance_def cpu_of_def surroundings_def)

lemma becomes_jump:
  assumes "length (registers (vm_state v)) = 32"
    and "delayed dest (cpu_of (vm_state v)) = Some c"
  shows "becomes v (on_state (handle_jump (ucast r) dest) v) (set_gpr r (pc (vm_state v) + 8) c)"
  using gpr_update [OF assms(1)] assms
  by (auto simp: becomes_def on_state_def handle_jump_def Let_def set_gpr_def delayed_def cpu_of_def surroundings_def split: if_splits)

lemma becomes_hi_lo:
  assumes "length (registers (vm_state v)) = 32" and "hi_lo_result func rs rt (vm_state v) = Inr (val, (vm_state v)\<lparr>hi := h, lo := l\<rparr>)"
  shows "becomes v (on_state (handle_hi_lo func rs rt (ucast r)) v)
    (writes r ((cpu_of (vm_state v))\<lparr>cpu_hi := h, cpu_lo := l\<rparr>) val)"
  using gpr_update [OF assms(1)] assms
  by (auto simp: becomes_def on_state_def handle_hi_lo_def Let_def writes_def set_gpr_def advance_def cpu_of_def surroundings_def)

lemma becomes_moves:
  assumes "length (registers (vm_state v)) = 32"
  shows "becomes v (on_state (handle_hi_lo 0x10 x y (ucast r)) v) (writes r (cpu_of (vm_state v)) (hi (vm_state v)))"
    and "becomes v (on_state (handle_hi_lo 0x12 x y (ucast r)) v) (writes r (cpu_of (vm_state v)) (lo (vm_state v)))"
    and "becomes v (on_state (handle_hi_lo 0x11 x y 0) v) (advance ((cpu_of (vm_state v))\<lparr>cpu_hi := x\<rparr>))"
    and "becomes v (on_state (handle_hi_lo 0x13 x y 0) v) (advance ((cpu_of (vm_state v))\<lparr>cpu_lo := x\<rparr>))"
  using gpr_update [OF assms] assms
  by (auto simp: becomes_def on_state_def handle_hi_lo_def hi_lo_result_def Let_def writes_def set_gpr_def advance_def
      cpu_of_def surroundings_def)

lemma writes_zero: "writes 0 c x = advance c"
  by (simp add: writes_def set_gpr_def)

section \<open>Instruction formats\<close>

text \<open>What the dispatch of the machine makes of each format.\<close>

lemma step_special:
  "step_instruction env (r_type 0 rs rt rd sa func) v =
    rbind (execute_fun (ucast func) (r_type 0 rs rt rd sa func) (registers (vm_state v) ! unat rs) (registers (vm_state v) ! unat rt))
      (\<lambda>val. dispatch env (r_type 0 rs rt rd sa func) (registers (vm_state v) ! unat rs) (registers (vm_state v) ! unat rt)
        0xFFFFFFFF (ucast rd) val v)"
  by (simp add: step_instruction_def fetch_operands_def fetch_memory_def execute_def Let_def)

lemma step_special2:
  "step_instruction env (r_type 0x1C rs rt rd sa func) v =
    rbind (execute_special2 (ucast func) (registers (vm_state v) ! unat rs) (registers (vm_state v) ! unat rt))
      (\<lambda>val. on_state (handle_rd (ucast rd) val True) v)"
  by (simp add: step_instruction_def fetch_operands_def fetch_memory_def execute_def dispatch_def write_back_def Let_def)

lemma dispatch_plain:
  fixes func :: "6 word"
  defines "f \<equiv> ucast func :: u32"
  assumes "f < 8 \<or> 0x1B < f \<or> f = 0x0F"
  shows "dispatch env (r_type 0 rs rt rd sa func) x y 0xFFFFFFFF (ucast rd) val v = on_state (handle_rd (ucast rd) val True) v"
proof -
  have "\<not> (8 \<le> f \<and> f \<le> 9)" "f \<noteq> 0x0A" "f \<noteq> 0x0B" "f \<noteq> 0x0C" "\<not> (0x10 \<le> f \<and> f \<le> 0x1B)"
    using assms(2) by (auto simp: word_le_nat_alt word_less_nat_alt)
  then show ?thesis unfolding dispatch_def write_back_def r_type_fields f_def [symmetric] Let_def by (simp only: simp_thms if_False) simp
qed

lemma step_immediate:
  assumes "op \<in> {8, 9, 0xA, 0xB, 0xC, 0xD, 0xE, 0xF}"
  shows "step_instruction env (i_type op rs rt i) v =
    rbind (execute (i_type op rs rt i) (registers (vm_state v) ! unat rs)
        (if op \<in> {0xC, 0xD, 0xE} then ucast i else scast i) 0)
      (\<lambda>val. on_state (handle_rd (ucast rt) val True) v)"
  using assms
  by (elim insertE emptyE)
    (simp_all add: step_instruction_def fetch_operands_def fetch_memory_def dispatch_def write_back_def sign_extend_imm Let_def)

section \<open>Instructions without memory access\<close>

text \<open>An instruction of the machine ends as the architecture requires.\<close>

definition implements :: "('o, 'w) env \<Rightarrow> instr \<Rightarrow> ('o, 'w) instrumented \<Rightarrow> cpu \<Rightarrow> bool" where
  "implements env i v c \<longleftrightarrow> becomes v (step_instruction env (encode i) v) c"

lemma implements_plain:
  fixes func :: "6 word"
  assumes r: "length (registers (vm_state v)) = 32" and e: "encode i = r_type 0 rs rt rd sa func"
    and x: "execute_fun (ucast func) (encode i) (registers (vm_state v) ! unat rs) (registers (vm_state v) ! unat rt) = Inr val"
    and f: "(ucast func :: u32) < 8 \<or> (0x1B :: u32) < ucast func \<or> ucast func = (0x0F :: u32)"
  shows "implements env i v (writes rd (cpu_of (vm_state v)) val)"
  using becomes_rd [OF r, of rd val True] x
  unfolding implements_def e step_special by (simp only: rbind_Inr dispatch_plain [OF f] if_True)

lemma implements_shift:
  assumes r: "length (registers (vm_state v)) = 32" and ex: "op = Sra \<Longrightarrow> sa \<noteq> 0"
  shows "implements env (Shift op rd rt sa) v (writes rd (cpu_of (vm_state v)) (shift_result op (unat sa) (registers (vm_state v) ! unat rt)))"
  by (rule implements_plain [OF r encode.simps(1)]) (simp_all add: shift_execute [OF ex], cases op, simp_all)

lemma implements_shiftv:
  assumes r: "length (registers (vm_state v)) = 32" and ex: "op = Sra \<Longrightarrow> unat (registers (vm_state v) ! unat rs) mod 32 \<noteq> 0"
  shows "implements env (ShiftV op rd rt rs) v
    (writes rd (cpu_of (vm_state v)) (shift_result op (unat (registers (vm_state v) ! unat rs) mod 32) (registers (vm_state v) ! unat rt)))"
  by (rule implements_plain [OF r encode.simps(2)]) (simp_all add: shiftv_execute [OF ex], cases op, simp_all)

lemma implements_alu:
  assumes r: "length (registers (vm_state v)) = 32"
    and x: "alu_result op (registers (vm_state v) ! unat rs) (registers (vm_state v) ! unat rt) = Some z"
  shows "implements env (Alu op rd rs rt) v (writes rd (cpu_of (vm_state v)) z)"
  by (rule implements_plain [OF r encode.simps(3)]) (simp_all add: alu_value [OF x], cases op, simp_all)

lemma implements_sync:
  assumes r: "length (registers (vm_state v)) = 32"
  shows "implements env Sync v (advance (cpu_of (vm_state v)))"
  using implements_plain [OF r encode.simps(26)] by (simp add: execute_fun_def writes_zero)

lemma implements_imm:
  assumes r: "length (registers (vm_state v)) = 32"
    and x: "alu_result (imm_alu op) (registers (vm_state v) ! unat rs) (imm_value op i) = Some z"
  shows "implements env (AluI op rt rs i) v (writes rt (cpu_of (vm_state v)) z)"
proof -
  have "step_instruction env (i_type (imm_opcode op) rs rt i) v =
      rbind (execute (i_type (imm_opcode op) rs rt i) (registers (vm_state v) ! unat rs) (imm_value op i) 0)
        (\<lambda>val. on_state (handle_rd (ucast rt) val True) v)"
    by (cases op) (simp_all add: step_immediate imm_value_def)
  with imm_execute [OF x] becomes_rd [OF r, of rt z True] show ?thesis by (simp add: implements_def)
qed

lemma implements_lui:
  assumes r: "length (registers (vm_state v)) = 32"
  shows "implements env (Lui rt i) v (writes rt (cpu_of (vm_state v)) (push_bit 16 (ucast i)))"
proof -
  have "shl32 (scast i :: u32) 16 = push_bit 16 (ucast i)"
    unfolding shl32_def by (rule bit_word_eqI) (auto simp: bit_simps)
  then have "execute (i_type 0x0F 0 rt i) x (scast i) 0 = Inr (push_bit 16 (ucast i))" for x
    by (simp add: execute_def execute_mem_def Let_def)
  then show ?thesis
    using becomes_rd [OF r, of rt "push_bit 16 (ucast i)" True] by (simp add: implements_def step_immediate)
qed

lemma implements_special2:
  assumes r: "length (registers (vm_state v)) = 32"
  shows "implements env (Mul rd rs rt) v
      (writes rd (cpu_of (vm_state v)) (of_int (sint (registers (vm_state v) ! unat rs) * sint (registers (vm_state v) ! unat rt))))"
    and "implements env (Clo rd rs) v (writes rd (cpu_of (vm_state v)) (of_nat (leading True (registers (vm_state v) ! unat rs))))"
    and "implements env (Clz rd rs) v (writes rd (cpu_of (vm_state v)) (of_nat (leading False (registers (vm_state v) ! unat rs))))"
  using becomes_rd [OF r, of rd _ True]
  by (simp_all add: implements_def step_special2 execute_special2_def clo_loop_leading leading_False)

lemma implements_mov:
  assumes r: "length (registers (vm_state v)) = 32" and "isa_step i (cpu_of (vm_state v)) = Some c"
    and "i = Movz rd rs rt \<or> i = Movn rd rs rt"
  shows "implements env i v c"
  using assms(2,3) becomes_rd [OF r, of rd "registers (vm_state v) ! unat rs" "registers (vm_state v) ! unat rt = 0"]
    becomes_rd [OF r, of rd "registers (vm_state v) ! unat rs" "registers (vm_state v) ! unat rt \<noteq> 0"]
  by (auto simp: implements_def step_special execute_fun_def dispatch_def Let_def)

lemma implements_hi_lo:
  assumes r: "length (registers (vm_state v)) = 32" and st: "isa_step i (cpu_of (vm_state v)) = Some c"
    and i: "i = Mfhi rd \<or> i = Mflo rd \<or> i = Mthi rs \<or> i = Mtlo rs \<or> i = MulDiv op rs rt"
  shows "implements env i v c"
proof -
  have "becomes v (on_state (handle_hi_lo (ucast (muldiv_func op)) x y 0) v) (advance ((cpu_of (vm_state v))\<lparr>cpu_hi := h, cpu_lo := l\<rparr>))"
    if "muldiv_result op x y = Some (h, l)" for x y h l
    using becomes_hi_lo [OF r muldiv_execute [OF that], of 0] by (simp add: writes_zero)
  moreover have "step_instruction env (r_type 0 rs rt 0 0 (muldiv_func op)) v
      = on_state (handle_hi_lo (ucast (muldiv_func op)) (registers (vm_state v) ! unat rs) (registers (vm_state v) ! unat rt) 0) v"
    by (cases op) (simp_all add: step_special execute_fun_def dispatch_def Let_def)
  ultimately show ?thesis
    using st i becomes_moves [OF r] by (auto simp: implements_def step_special execute_fun_def dispatch_def Let_def)
qed

lemma implements_jump:
  assumes r: "length (registers (vm_state v)) = 32" and st: "isa_step i (cpu_of (vm_state v)) = Some c"
    and i: "i = J t \<or> i = Jal t \<or> i = Jr rs \<or> i = Jalr rd rs"
  shows "implements env i v c"
proof -
  have t: "shl32 (ucast t) 2 = push_bit 2 (ucast t)" by (simp add: shl32_def)
  have link: "(ucast (31 :: reg) :: u32) = 31" "(ucast (0 :: reg) :: u32) = 0" by simp_all
  have j: "becomes v (on_state (handle_jump 0 dest) v) c'" "becomes v (on_state (handle_jump 31 dest) v) (set_gpr 31 (pc (vm_state v) + 8) c')"
    "becomes v (on_state (handle_jump (ucast rd) dest) v) (set_gpr rd (pc (vm_state v) + 8) c')"
    if "delayed dest (cpu_of (vm_state v)) = Some c'" for dest c'
    using becomes_jump [OF r that, of 0] becomes_jump [OF r that, of 31] becomes_jump [OF r that, of rd]
    unfolding link by (simp_all add: set_gpr_def)
  show ?thesis
    using i
  proof (elim disjE)
    assume i: "i = J t"
    then show ?thesis using st j(1) by (simp add: implements_def step_instruction_def t Let_def)
  next
    assume i: "i = Jal t"
    then show ?thesis using st j(2) by (auto simp: implements_def step_instruction_def t Let_def)
  next
    assume i: "i = Jr rs"
    then show ?thesis using st j(1) by (auto simp: implements_def step_special execute_fun_def dispatch_def Let_def)
  next
    assume i: "i = Jalr rd rs"
    then show ?thesis using st j(3) by (auto simp: implements_def step_special execute_fun_def dispatch_def Let_def)
  qed
qed

lemma implements_branch:
  assumes st: "branch b i (cpu_of (vm_state v)) = Some c"
    and sb: "handle_branch opcode instruction rt_reg x (vm_state v) =
      (if next_pc (vm_state v) \<noteq> pc (vm_state v) + 4 then Inl (BranchInDelaySlot (pc (vm_state v)))
       else if b then Inr ((vm_state v)\<lparr>pc := next_pc (vm_state v), next_pc := pc (vm_state v) + 4 + shl32 (sign_extend (ucast i) 16) 2\<rparr>)
       else Inr ((vm_state v)\<lparr>pc := next_pc (vm_state v), next_pc := next_pc (vm_state v) + 4\<rparr>))"
  shows "becomes v (on_state (handle_branch opcode instruction rt_reg x) v) c"
proof -
  have "shl32 (sign_extend (ucast i) 16) 2 = 4 * scast i" by (simp add: sign_extend_imm shl32_def push_bit_eq_mult mult.commute)
  with st show ?thesis
    by (auto simp: becomes_def on_state_def sb branch_def delayed_def cpu_of_def surroundings_def Let_def split: if_splits)
qed

lemma implements_branches:
  assumes st: "isa_step ins (cpu_of (vm_state v)) = Some c"
    and ins: "ins = Beq rs rt i \<or> ins = Bne rs rt i \<or> ins = Branch op rs i"
  shows "implements env ins v c"
proof -
  have s: "step_instruction env (i_type opc rs rt' i) v = on_state (handle_branch (ucast opc) (i_type opc rs rt' i) (ucast rt') (registers (vm_state v) ! unat rs)) v"
    if "opc \<in> {1, 4, 5, 6, 7}" for opc rt'
    using that by (elim insertE emptyE) (simp_all add: step_instruction_def fetch_operands_def word_le_nat_alt Let_def)
  show ?thesis
    using ins
  proof (elim disjE)
    assume "ins = Beq rs rt i"
    with st show ?thesis by (simp add: implements_def s) (erule implements_branch, simp add: handle_branch_def Let_def)
  next
    assume "ins = Bne rs rt i"
    with st show ?thesis by (simp add: implements_def s) (erule implements_branch, simp add: handle_branch_def Let_def)
  next
    assume "ins = Branch op rs i"
    with st show ?thesis
      by (cases op) (simp_all add: implements_def s, (erule implements_branch, simp add: handle_branch_def Let_def)+)
  qed
qed

section \<open>Memory instructions of the machine\<close>

text \<open>A machine inside a step that has not used its memory access, or only on the word at \<open>a\<close>.\<close>

definition may_access :: "hash_fn \<Rightarrow> memory \<Rightarrow> u32 \<Rightarrow> ('o, 'w) instrumented \<Rightarrow> bool" where
  "may_access k m0 a v \<longleftrightarrow> step_inv k m0 v \<and> unat a mod 4 = 0 \<and>
     (mem_proof_enabled v \<longrightarrow> last_mem_access v = 0xFFFFFFFF \<or> last_mem_access v = a)"

text \<open>Changes that the processor does not see.\<close>

definition unseen :: "('o, 'w) instrumented \<Rightarrow> ('o, 'w) instrumented \<Rightarrow> bool" where
  "unseen v v' \<longleftrightarrow> cpu_of (vm_state v') = cpu_of (vm_state v) \<and> surroundings v' = surroundings v \<and> step (vm_state v') = step (vm_state v)"

lemma unseen_refl [simp]: "unseen v v"
  by (simp add: unseen_def)

lemma unseen_trans: "unseen u v \<Longrightarrow> unseen v w \<Longrightarrow> unseen u w"
  by (simp add: unseen_def)

lemma unseen_becomes: "unseen v v' \<Longrightarrow> becomes v' r c \<Longrightarrow> becomes v r c"
  by (auto simp: unseen_def becomes_def)

lemma unseen_memory: "mem_byte m = mem_byte (vm_memory v) \<Longrightarrow> unseen v (set_vm_memory m (v\<lparr>last_mem_access := a, mem_proof := pf\<rparr>))"
  by (simp add: unseen_def cpu_of_def surroundings_def)

lemma track_access:
  assumes k: "hash32 k" and env: "env_keccak env = k" and v: "may_access k m0 a v"
  obtains v' where "track_mem_access env a v = Inr v'" and "may_access k m0 a v'" and "unseen v v'"
proof -
  have inv: "step_inv k m0 v" and al: "unat a mod 4 = 0" using v by (simp_all add: may_access_def)
  obtain v' where t: "track_mem_access env a v = Inr v'" and u: "unseen v v'"
  proof (cases "mem_proof_enabled v \<and> last_mem_access v \<noteq> a")
    case True
    then have max: "last_mem_access v = 0xFFFFFFFF" using v by (simp add: may_access_def)
    obtain m where m: "merkle_proof k a (vm_memory v) = Inr (branch_of k (vm_memory v) a, m)"
      unfolding branch_of_def by (rule merkle_proof_ok [OF step_inv_mem [OF inv] k])
    have "unseen v (set_vm_memory m (v\<lparr>last_mem_access := a, mem_proof := branch_of k (vm_memory v) a\<rparr>))"
      by (rule unseen_memory) (rule branch_of_ok(3) [OF step_inv_mem [OF inv] k m])
    with True max m env show ?thesis by (intro that) (simp_all add: track_mem_access_def Let_def)
  qed (auto simp: track_mem_access_def)
  note tr = track_mem_access_ok [OF k env inv al t]
  show ?thesis using t u tr al by (intro that) (simp_all add: may_access_def)
qed

lemma get_access:
  assumes v: "may_access k m0 a v"
  obtains v' where "vm_get_memory a v = Inr (mem_word (vm_memory v) a, v')" and "may_access k m0 a v'" and "unseen v v'"
proof -
  have inv: "step_inv k m0 v" and al: "unat a mod 4 = 0" using v by (simp_all add: may_access_def)
  obtain m where m: "get_memory a (vm_memory v) = Inr (mem_word (vm_memory v) a, m)"
    by (rule get_memory_ok [OF step_inv_mem [OF inv] al])
  then have g: "vm_get_memory a v = Inr (mem_word (vm_memory v) a, set_vm_memory m v)" by (simp add: vm_get_memory_def)
  note ok = vm_get_memory_ok [OF inv g]
  have "unseen v (set_vm_memory m v)"
    using wm.load_Inr(4) [OF step_inv_mem [OF inv] m] by (simp add: unseen_def cpu_of_def surroundings_def)
  with g ok v show ?thesis by (intro that) (simp_all add: may_access_def)
qed

lemma unseen_word: "unseen v v' \<Longrightarrow> mem_word (vm_memory v') a = mem_word (vm_memory v) a"
  by (simp add: unseen_def cpu_of_def mem_word_def)

lemma fetch_access:
  assumes k: "hash32 k" and env: "env_keccak env = k" and op: "0x20 \<le> (ucast op :: u32)"
    and v: "may_access k m0 ((x + scast i) AND 0xFFFFFFFC) v"
  obtains v' where "fetch_memory env (i_type op base rt i) x rd v = Inr ((if 0x28 \<le> (ucast op :: u32) \<and> ucast op \<noteq> (0x30 :: u32)
        then (x + scast i, mem_word (vm_memory v) ((x + scast i) AND 0xFFFFFFFC), (x + scast i) AND 0xFFFFFFFC, 0)
        else (x + scast i, mem_word (vm_memory v) ((x + scast i) AND 0xFFFFFFFC), 0xFFFFFFFF, rd)), v')"
    and "may_access k m0 ((x + scast i) AND 0xFFFFFFFC) v'" and "unseen v v'"
proof -
  let ?a = "(x + scast i) AND 0xFFFFFFFC"
  obtain v1 where v1: "track_mem_access env ?a v = Inr v1" "may_access k m0 ?a v1" "unseen v v1"
    by (rule track_access [OF k env v])
  obtain v2 where v2: "vm_get_memory ?a v1 = Inr (mem_word (vm_memory v1) ?a, v2)" "may_access k m0 ?a v2" "unseen v1 v2"
    by (rule get_access [OF v1(2)])
  have "fetch_memory env (i_type op base rt i) x rd v = Inr ((if 0x28 \<le> (ucast op :: u32) \<and> ucast op \<noteq> (0x30 :: u32)
        then (x + scast i, mem_word (vm_memory v) ?a, ?a, 0) else (x + scast i, mem_word (vm_memory v) ?a, 0xFFFFFFFF, rd)), v2)"
    unfolding fetch_memory_def i_type_fields sign_extend_imm Let_def
    using op v1(1) v2(1) unseen_word [OF v1(3)] by simp
  then show ?thesis using v2(2) unseen_trans [OF v1(3) v2(3)] by (rule that)
qed

lemma store_access:
  assumes k: "hash32 k" and env: "env_keccak env = k" and v: "may_access k m0 a v"
  obtains v' where "rbind (track_mem_access env a v) (vm_set_memory env a x) = Inr v'"
    and "cpu_of (vm_state v') = (cpu_of (vm_state v))\<lparr>cells := overwrite (unat a) (u32_be x) (mem_byte (vm_memory v))\<rparr>"
    and "surroundings v' = surroundings v" and "step (vm_state v') = step (vm_state v)"
proof -
  obtain v1 where v1: "track_mem_access env a v = Inr v1" "may_access k m0 a v1" "unseen v v1"
    by (rule track_access [OF k env v])
  then have inv: "step_inv k m0 v1" and al: "unat a mod 4 = 0" by (simp_all add: may_access_def)
  obtain m where m: "set_memory k a x (vm_memory v1) = Inr m" "mem_byte m = overwrite (unat a) (u32_be x) (mem_byte (vm_memory v1))"
    by (rule set_memory_ok [OF step_inv_mem [OF inv] al])
  then have "rbind (track_mem_access env a v) (vm_set_memory env a x) = Inr (set_vm_memory m v1)"
    using v1(1) env by (simp add: vm_set_memory_def)
  then show ?thesis
    by (rule that) (use v1(3) m(2) in \<open>simp_all add: unseen_def cpu_of_def surroundings_def\<close>)
qed


text \<open>An access of an instruction whose address is not yet known.\<close>

lemma may_access_free:
  assumes "step_inv k m0 v" and "mem_proof_enabled v \<Longrightarrow> last_mem_access v = 0xFFFFFFFF"
  shows "may_access k m0 (a AND 0xFFFFFFFC) v"
  using assms by (auto simp: may_access_def aligned_mask)

lemma implements_load:
  assumes k: "hash32 k" and env: "env_keccak env = k" and inv: "step_inv k m0 v"
    and free: "mem_proof_enabled v \<Longrightarrow> last_mem_access v = 0xFFFFFFFF"
    and x: "load_result op (mem_byte (vm_memory v)) (unat (registers (vm_state v) ! unat base + scast i)) (registers (vm_state v) ! unat rt) = Some z"
  shows "implements env (Load op rt base i) v (writes rt (cpu_of (vm_state v)) z)"
proof -
  let ?o = "ucast (load_opcode op) :: u32" and ?w = "i_type (load_opcode op) base rt i"
  let ?x = "registers (vm_state v) ! unat base" and ?y = "registers (vm_state v) ! unat rt"
  let ?a = "(?x + scast i) AND 0xFFFFFFFC"
  have o: "0x20 \<le> ?o" "\<not> (0x28 \<le> ?o \<and> ?o \<noteq> 0x30)" "\<not> ?o = 0" "\<not> ?o = 0x38" "\<not> ?o \<le> 3" "\<not> ?o = 1" "\<not> ?o < 8" "\<not> ?o < 0xF" "\<not> ?o = 0x1C" "\<not> ?o < 20"
    by (cases op; simp)+
  obtain v' where f: "fetch_memory env ?w ?x (ucast rt) v = Inr ((?x + scast i, mem_word (vm_memory v) ?a, 0xFFFFFFFF, ucast rt), v')"
      and u: "unseen v v'"
    by (rule fetch_access [OF k env o(1) may_access_free [OF inv free]]) (simp_all only: o(2) if_False)
  define y where "y = (if 0x28 \<le> ?o \<or> ?o = 0x22 \<or> ?o = 0x26 then ?y else 0)"
  have "fetch_operands ?w (vm_state v) = (?x, y, ucast rt)"
    unfolding fetch_operands_def i_type_fields Let_def y_def using o by simp
  moreover have "execute_mem ?o (?x + scast i) y (mem_word (vm_memory v) ?a) = Inr z"
    by (rule load_execute [OF x]) (auto simp: y_def)
  then have "execute ?w (?x + scast i) y (mem_word (vm_memory v) ?a) = Inr z"
    unfolding execute_def i_type_fields Let_def by (simp only: o simp_thms if_False)
  ultimately have s: "step_instruction env ?w v = on_state (handle_rd (ucast rt) z True) v'"
    unfolding step_instruction_def i_type_fields Let_def
    using f o by (simp add: dispatch_def write_back_def)
  have r: "length (registers (vm_state v')) = 32" using u inv by (simp add: unseen_def surroundings_def step_inv_def state_ok_def)
  have "becomes v (on_state (handle_rd (ucast rt) z True) v') (writes rt (cpu_of (vm_state v)) z)"
    using unseen_becomes [OF u becomes_rd [OF r, of rt z True]] u by (simp add: unseen_def)
  then show ?thesis by (simp add: implements_def s)
qed

text \<open>The end of a store: the word is written, and \<open>rd\<close> is register zero.\<close>

lemma becomes_store:
  assumes k: "hash32 k" and env: "env_keccak env = k" and v: "may_access k m0 a v"
    and g: "overwrite (unat a) (u32_be x) (mem_byte (vm_memory v)) = g"
  shows "becomes v (rbind (rbind (track_mem_access env a v) (vm_set_memory env a x)) (on_state (handle_rd 0 x True)))
    (advance ((cpu_of (vm_state v))\<lparr>cells := g\<rparr>))"
proof -
  obtain v' where s: "rbind (track_mem_access env a v) (vm_set_memory env a x) = Inr v'"
      "cpu_of (vm_state v') = (cpu_of (vm_state v))\<lparr>cells := g\<rparr>"
      "surroundings v' = surroundings v" "step (vm_state v') = step (vm_state v)"
    by (rule store_access [OF k env v, where x = x]) (simp_all add: g)
  have "length (registers (vm_state v')) = 32"
    using s(3) v by (simp add: surroundings_def may_access_def step_inv_def state_ok_def)
  from becomes_rd [OF this, of 0 x True] s(2-4) show ?thesis unfolding s(1) rbind_Inr by (simp add: becomes_def writes_zero)
qed

text \<open>The part that stores have in common, up to the write.\<close>

lemma step_store:
  fixes op :: "6 word"
  defines "o' \<equiv> (ucast op :: u32)"
  assumes k: "hash32 k" and env: "env_keccak env = k" and inv: "step_inv k m0 v"
    and free: "mem_proof_enabled v \<Longrightarrow> last_mem_access v = 0xFFFFFFFF"
    and op: "o' \<in> {0x28, 0x29, 0x2A, 0x2B, 0x2E, 0x38}"
    and x: "execute_mem o' (registers (vm_state v) ! unat base + scast i) (registers (vm_state v) ! unat rt)
      (mem_word (vm_memory v) ((registers (vm_state v) ! unat base + scast i) AND 0xFFFFFFFC)) = Inr x"
  obtains v' where "step_instruction env (i_type op base rt i) v =
      write_back env (i_type op base rt i) ((registers (vm_state v) ! unat base + scast i) AND 0xFFFFFFFC) 0 x v'"
    and "may_access k m0 ((registers (vm_state v) ! unat base + scast i) AND 0xFFFFFFFC) v'" and "unseen v v'"
proof -
  let ?w = "i_type op base rt i" and ?x = "registers (vm_state v) ! unat base" and ?y = "registers (vm_state v) ! unat rt"
  let ?a = "(?x + scast i) AND 0xFFFFFFFC"
  have o: "0x20 \<le> o'" "0x28 \<le> o'" "o' \<noteq> 0x30" "o' \<noteq> 0" "\<not> o' \<le> 3" "o' \<noteq> 1" "\<not> o' < 8" "\<not> o' < 0xF" "o' \<noteq> 0x1C" "\<not> o' < 20"
    using op by (auto simp del: atLeastatMost_empty)
  obtain v' where f: "fetch_memory env ?w ?x (ucast rt) v = Inr ((?x + scast i, mem_word (vm_memory v) ?a, ?a, 0), v')"
      and u: "may_access k m0 ?a v'" "unseen v v'"
    by (rule fetch_access [OF k env o(1) [unfolded o'_def] may_access_free [OF inv free]])
      (simp_all only: o [unfolded o'_def] simp_thms if_True if_False)
  have "fetch_operands ?w (vm_state v) = (?x, ?y, ucast rt)"
    unfolding fetch_operands_def i_type_fields o'_def [symmetric] Let_def using o by simp
  moreover have "execute ?w (?x + scast i) ?y (mem_word (vm_memory v) ?a) = Inr x"
    unfolding execute_def i_type_fields o'_def [symmetric] Let_def using x by (simp only: o simp_thms if_False)
  ultimately have "step_instruction env ?w v = write_back env ?w ?a 0 x v'"
    unfolding step_instruction_def i_type_fields o'_def [symmetric] Let_def using f o
    by (simp add: dispatch_def o'_def [symmetric])
  then show ?thesis using u by (rule that)
qed

lemma implements_store:
  assumes k: "hash32 k" and env: "env_keccak env = k" and inv: "step_inv k m0 v"
    and free: "mem_proof_enabled v \<Longrightarrow> last_mem_access v = 0xFFFFFFFF"
    and g: "store_result op (unat (registers (vm_state v) ! unat base + scast i)) (registers (vm_state v) ! unat rt) (mem_byte (vm_memory v)) = Some g"
  shows "implements env (Store op rt base i) v (advance ((cpu_of (vm_state v))\<lparr>cells := g\<rparr>))"
proof -
  let ?w = "i_type (store_opcode op) base rt i" and ?a = "(registers (vm_state v) ! unat base + scast i) AND 0xFFFFFFFC"
  obtain x where x: "execute_mem (ucast (store_opcode op)) (registers (vm_state v) ! unat base + scast i) (registers (vm_state v) ! unat rt)
        (mem_word (vm_memory v) ?a) = Inr x" "overwrite (unat ?a) (u32_be x) (mem_byte (vm_memory v)) = g"
    by (rule store_execute [OF g])
  have op: "(ucast (store_opcode op) :: u32) \<in> {0x28, 0x29, 0x2A, 0x2B, 0x2E, 0x38}" by (cases op) simp_all
  obtain v' where s: "step_instruction env ?w v = write_back env ?w ?a 0 x v'" and m: "may_access k m0 ?a v'" and u: "unseen v v'"
    by (rule step_store [OF k env inv free op x(1)])
  have not_max: "?a \<noteq> 0xFFFFFFFF" by (rule aligned_not_max [OF aligned_mask])
  have "write_back env ?w ?a 0 x v' = rbind (rbind (track_mem_access env ?a v') (vm_set_memory env ?a x)) (on_state (handle_rd 0 x True))"
    unfolding write_back_def i_type_fields Let_def using not_max by (cases op) simp_all
  moreover have c: "overwrite (unat ?a) (u32_be x) (mem_byte (vm_memory v')) = g" "cpu_of (vm_state v') = cpu_of (vm_state v)"
    using x(2) u by (simp_all add: unseen_def cpu_of_def)
  ultimately show ?thesis
    using unseen_becomes [OF u becomes_store [OF k env m c(1)]] by (simp only: implements_def s encode.simps c(2))
qed

lemma implements_sc:
  assumes k: "hash32 k" and env: "env_keccak env = k" and inv: "step_inv k m0 v"
    and free: "mem_proof_enabled v \<Longrightarrow> last_mem_access v = 0xFFFFFFFF"
    and g: "store_result Sw (unat (registers (vm_state v) ! unat base + scast i)) (registers (vm_state v) ! unat rt) (mem_byte (vm_memory v)) = Some g"
  shows "implements env (Sc rt base i) v (writes rt ((cpu_of (vm_state v))\<lparr>cells := g\<rparr>) 1)"
proof -
  let ?w = "i_type 0x38 base rt i" and ?a = "(registers (vm_state v) ! unat base + scast i) AND 0xFFFFFFFC"
  let ?x = "registers (vm_state v) ! unat rt"
  have x: "execute_mem (ucast (0x38 :: 6 word)) (registers (vm_state v) ! unat base + scast i) ?x (mem_word (vm_memory v) ?a) = Inr ?x"
    by (simp add: word_moves)
  have op: "(ucast (0x38 :: 6 word) :: u32) \<in> {0x28, 0x29, 0x2A, 0x2B, 0x2E, 0x38}" by simp
  have al: "unat (registers (vm_state v) ! unat base + scast i) mod 4 = 0"
    and g': "g = overwrite (unat ?a) (u32_be ?x) (mem_byte (vm_memory v))"
    using g by (auto simp: aligned_same split: if_splits)
  obtain v' where s: "step_instruction env ?w v = write_back env ?w ?a 0 ?x v'" and m: "may_access k m0 ?a v'" and u: "unseen v v'"
    by (rule step_store [OF k env inv free op x])
  have not_max: "?a \<noteq> 0xFFFFFFFF" by (rule aligned_not_max [OF aligned_mask])
  have r: "length (registers (vm_state v')) = 32" using m by (simp add: may_access_def step_inv_def state_ok_def)
  define v1 where "v1 = (if rt \<noteq> 0 then v'\<lparr>vm_state := (vm_state v')\<lparr>registers := (registers (vm_state v'))[unat rt := 1]\<rparr>\<rparr> else v')"
  have m1: "may_access k m0 ?a v1" using m by (auto simp: v1_def may_access_def step_inv_def state_ok_def)
  have c1: "cpu_of (vm_state v1) = set_gpr rt 1 (cpu_of (vm_state v))" and o1: "overwrite (unat ?a) (u32_be ?x) (mem_byte (vm_memory v1)) = g"
    and e1: "surroundings v1 = surroundings v" "step (vm_state v1) = step (vm_state v)"
    using u gpr_update [OF r] unfolding v1_def g' by (auto simp: unseen_def cpu_of_def surroundings_def set_gpr_def)
  have "step_instruction env ?w v = rbind (rbind (track_mem_access env ?a v1) (vm_set_memory env ?a ?x)) (on_state (handle_rd 0 ?x True))"
    unfolding s write_back_def i_type_fields Let_def v1_def using not_max by simp
  moreover have "(set_gpr rt 1 (cpu_of (vm_state v)))\<lparr>cells := g\<rparr> = set_gpr rt 1 ((cpu_of (vm_state v))\<lparr>cells := g\<rparr>)"
    by (simp add: set_gpr_def)
  ultimately show ?thesis
    using becomes_store [OF k env m1 o1] e1 unfolding implements_def encode.simps c1 by (simp add: becomes_def writes_def)
qed

section \<open>Steps\<close>

text \<open>A step of the processor: it fetches an aligned word and executes the instruction that it encodes.\<close>

inductive isa_next :: "cpu \<Rightarrow> cpu \<Rightarrow> bool" where
  "unat (cpu_pc c) mod 4 = 0 \<Longrightarrow> word_at (cells c) (cpu_pc c) = encode i \<Longrightarrow> isa_step i c = Some c'
    \<Longrightarrow> \<not> sra_by_zero i c \<Longrightarrow> isa_next c c'"


text \<open>Every instruction.\<close>

lemma step_instruction_implements:
  assumes k: "hash32 k" and env: "env_keccak env = k" and inv: "step_inv k m0 v"
    and free: "mem_proof_enabled v \<Longrightarrow> last_mem_access v = 0xFFFFFFFF"
    and st: "isa_step i (cpu_of (vm_state v)) = Some c" and ex: "\<not> sra_by_zero i (cpu_of (vm_state v))"
  shows "implements env i v c"
proof -
  have r: "length (registers (vm_state v)) = 32" using inv by (simp add: step_inv_def state_ok_def)
  show ?thesis
  proof (cases i)
    case (Shift op rd rt sa)
    then show ?thesis using st ex by (auto simp: sra_by_zero_def intro!: implements_shift [OF r])
  next
    case (ShiftV op rd rt rs)
    then show ?thesis using st ex by (auto simp: sra_by_zero_def intro!: implements_shiftv [OF r])
  next
    case (Alu op rd rs rt)
    then show ?thesis using st implements_alu [OF r] by auto
  next
    case (AluI op rt rs i)
    then show ?thesis using st implements_imm [OF r] by auto
  next
    case (Load op rt base i)
    then show ?thesis using st implements_load [OF k env inv free] by (auto simp: effective_def)
  next
    case (Store op rt base i)
    then show ?thesis using st implements_store [OF k env inv free] by (auto simp: effective_def)
  next
    case (Sc rt base i)
    then show ?thesis using st implements_sc [OF k env inv free] by (auto simp: effective_def simp del: store_result.simps)
  qed (use st implements_lui [OF r] implements_special2 [OF r] implements_mov [OF r st] implements_hi_lo [OF r st]
      implements_jump [OF r st] implements_branches [OF st] implements_sync [OF r] in auto)
qed

text \<open>The whole step, with its fetch.\<close>

lemma inner_step_implements:
  assumes k: "hash32 k" and env: "env_keccak env = k" and inv: "step_inv k m0 v" and run: "\<not> exited (vm_state v)"
    and free: "mem_proof_enabled v \<Longrightarrow> last_mem_access v = 0xFFFFFFFF"
    and nx: "isa_next (cpu_of (vm_state v)) c"
  obtains v' where "inner_step env v = Inr v'" and "cpu_of (vm_state v') = c" and "surroundings v' = surroundings v"
    and "step (vm_state v') = step (vm_state v) + 1"
proof -
  let ?v0 = "v\<lparr>vm_state := (vm_state v)\<lparr>step := step (vm_state v) + 1\<rparr>\<rparr>" and ?a = "pc (vm_state v)"
  obtain i where i: "unat ?a mod 4 = 0" "mem_word (vm_memory v) ?a = encode i" "isa_step i (cpu_of (vm_state v)) = Some c"
      "\<not> sra_by_zero i (cpu_of (vm_state v))"
    using nx by (auto simp: isa_next.simps mem_word_def)
  have "may_access k m0 ?a ?v0" using inv i(1) free by (auto simp: may_access_def step_inv_def state_ok_def)
  then obtain v1 where g: "vm_get_memory ?a ?v0 = Inr (mem_word (vm_memory ?v0) ?a, v1)" and m1: "may_access k m0 ?a v1" and u: "unseen ?v0 v1"
    by (rule get_access)
  have inv0: "step_inv k m0 ?v0" using inv by (simp add: step_inv_def state_ok_def)
  note ok = vm_get_memory_ok [OF inv0 g]
  have c: "cpu_of (vm_state v1) = cpu_of (vm_state v)" and e: "surroundings v1 = surroundings v" "step (vm_state v1) = step (vm_state v) + 1"
    using u by (simp_all add: unseen_def cpu_of_def surroundings_def)
  have free1: "last_mem_access v1 = 0xFFFFFFFF" if "mem_proof_enabled v1"
    using that free ok(5) stillD(1) [OF refreshes_still [OF ok(2)]] by simp
  have "implements env i v1 c" by (rule step_instruction_implements [OF k env ok(1) free1]) (use i c in simp_all)
  then show ?thesis
    using run g i(2) e that by (auto simp: implements_def becomes_def inner_step_def)
qed

lemma vm_step_implements:
  assumes k: "hash32 k" and env: "env_keccak env = k" and ok: "state_ok k (vm_state v)" and run: "\<not> exited (vm_state v)"
    and len: "length (mem_proof v) = 896" and nx: "isa_next (cpu_of (vm_state v)) c"
  obtains wo v' where "vm_step env b v = Inr (wo, v')" and "cpu_of (vm_state v') = c" and "surroundings v' = surroundings v"
    and "step (vm_state v') = step (vm_state v) + 1" and "state_ok k (vm_state v')" and "length (mem_proof v') = 896"
proof -
  let ?v0 = "v\<lparr>mem_proof_enabled := b, last_mem_access := 0xFFFFFFFF, last_preimage_offset := 0xFFFFFFFF\<rparr>"
  obtain wo m where p: "(if b then rbind (begin_witness env ?v0) (\<lambda>(wit, v1). Inr (Some wit, v1)) else Inr (None, ?v0)) = Inr (wo, set_vm_memory m ?v0)"
      and m: "mem_ok k m" "mem_byte m = mem_byte (vm_memory v)"
  proof (cases b)
    case True
    have ok0: "state_ok k (vm_state ?v0)" using ok by simp
    show ?thesis by (rule begin_witness_ok [OF k env ok0]) (use True that in simp)
  next
    case False
    then show ?thesis using that [of None "vm_memory v"] state_okD(1) [OF ok] by simp
  qed
  let ?v1 = "set_vm_memory m ?v0"
  have i1: "step_inv k (vm_memory v) ?v1"
    using m state_okD [OF ok] len by (simp add: step_inv_def state_ok_def one_word_def)
  have c1: "cpu_of (vm_state ?v1) = cpu_of (vm_state v)" "surroundings ?v1 = surroundings v" "step (vm_state ?v1) = step (vm_state v)"
    using m(2) by (simp_all add: cpu_of_def surroundings_def)
  have run1: "\<not> exited (vm_state ?v1)" using run by simp
  obtain v2 where v2: "inner_step env ?v1 = Inr v2" "cpu_of (vm_state v2) = c" "surroundings v2 = surroundings ?v1"
      "step (vm_state v2) = step (vm_state ?v1) + 1"
    by (rule inner_step_implements [OF k env i1 run1]) (use nx c1 in simp_all)
  have "step_inv k (vm_memory v) v2" by (rule inner_step_ok(1) [OF k env i1 run1 v2(1)])
  then have "state_ok k (vm_state v2)" "length (mem_proof v2) = 896" by (simp_all add: step_inv_def)
  moreover have "vm_step env b v = Inr (if b then map_option (complete_witness v2) wo else wo, v2)"
    using p v2(1) unfolding vm_step_def Let_def max_u32 by simp
  ultimately show ?thesis using v2(2-4) c1 by (intro that) simp_all
qed

text \<open>A run of the machine; each element of the list says whether the step is proved.\<close>

fun vm_run :: "('o, 'w) env \<Rightarrow> bool list \<Rightarrow> ('o, 'w) instrumented \<Rightarrow> ('o, 'w) instrumented res" where
  "vm_run env [] v = Inr v"
| "vm_run env (b # bs) v = rbind (vm_step env b v) (\<lambda>(wo, v'). vm_run env bs v')"

text \<open>C3. The machine implements the architecture. When the abstract processor, started from the
  registers, program counters and memory of a machine, can make a number of steps (all instructions have
  a defined outcome, and none is an arithmetic shift right by zero), then that many steps of the machine
  succeed, whichever of them are proved; they leave exactly the registers, program counters and memory
  of the processor, count the steps, and leave output, oracle, heap and hints alone.\<close>

theorem machine_implements_isa:
  assumes "hash32 k" and "env_keccak env = k" and "state_ok k (vm_state v)" and "\<not> exited (vm_state v)"
    and "length (mem_proof v) = 896" and "(isa_next ^^ length bs) (cpu_of (vm_state v)) c"
  shows "\<exists>v'. vm_run env bs v = Inr v' \<and> cpu_of (vm_state v') = c \<and> surroundings v' = surroundings v
    \<and> step (vm_state v') = step (vm_state v) + of_nat (length bs) \<and> state_ok k (vm_state v')"
  using assms(3-6)
proof (induction bs arbitrary: v)
  case Nil
  then show ?case by simp
next
  case (Cons b bs)
  obtain c1 where c1: "isa_next (cpu_of (vm_state v)) c1" "(isa_next ^^ length bs) c1 c"
    using relpowp_Suc_D2 [of "length bs" isa_next] Cons.prems(4) by auto
  obtain wo v1 where v1: "vm_step env b v = Inr (wo, v1)" "cpu_of (vm_state v1) = c1" "surroundings v1 = surroundings v"
      "step (vm_state v1) = step (vm_state v) + 1" "state_ok k (vm_state v1)" "length (mem_proof v1) = 896"
    by (rule vm_step_implements [OF assms(1,2) Cons.prems(1-3) c1(1)])
  have "\<not> exited (vm_state v1)" using v1(3) Cons.prems(2) by (simp add: surroundings_def)
  from Cons.IH [OF v1(5) this v1(6)] c1(2) v1 show ?case by (auto simp: add.assoc)
qed

text \<open>A program of two instructions, \<open>addiu $8, $0, -2\<close> and \<open>sra $9, $8, 1\<close>, at address 0.\<close>

lemma demo_program:
  obtains m where "mem_ok demo_hash m" and "mem_word m 0 = encode (AluI Addiu 8 0 0xFFFE)" and "mem_word m 4 = encode (Shift Sra 9 8 1)"
proof -
  obtain m1 where m1: "mem_ok demo_hash m1" "mem_byte m1 = overwrite 0 (u32_be (encode (AluI Addiu 8 0 0xFFFE))) (mem_byte memory_default)"
    by (rule set_memory_ok [OF memory_default_ok, of 0]) simp_all
  obtain m2 where m2: "mem_ok demo_hash m2" "mem_byte m2 = overwrite 4 (u32_be (encode (Shift Sra 9 8 1))) (mem_byte m1)"
    by (rule set_memory_ok [OF m1(1), of 4]) simp_all
  have "mem_word m2 4 = encode (Shift Sra 9 8 1)"
    unfolding mem_word_def m2(2) using word_at_overwrite_same [of 4] by simp
  moreover have "mem_word m2 0 = encode (AluI Addiu 8 0 0xFFFE)"
    unfolding mem_word_def m2(2) m1(2) using word_at_overwrite_same [of 0] word_at_overwrite_other [of 4 0] by simp
  ultimately show ?thesis using m2(1) that by blast
qed

theorem machine_implements_isa_witness:
  "\<exists>m v'. mem_word m 0 = encode (AluI Addiu 8 0 0xFFFE) \<and> mem_word m 4 = encode (Shift Sra 9 8 1)
    \<and> vm_run demo_env [True, False] (set_vm_memory m demo_vm) = Inr v' \<and> registers (vm_state v') ! 9 = 0xFFFFFFFF"
proof -
  obtain m where m: "mem_ok demo_hash m" "mem_word m 0 = encode (AluI Addiu 8 0 0xFFFE)" "mem_word m 4 = encode (Shift Sra 9 8 1)"
    by (rule demo_program)
  let ?v = "set_vm_memory m demo_vm"
  define c0 where "c0 = cpu_of (vm_state ?v)"
  have d: "cpu_pc c0 = 0" "cpu_next_pc c0 = 4" "gpr c0 0 = 0" "cells c0 = mem_byte m"
    by (simp_all add: c0_def cpu_of_def demo_vm_def instrumented_new_def demo_state_def state_default_def)
  let ?c1 = "writes 8 c0 (- 2)" and ?c2 = "writes 9 (writes 8 c0 (- 2)) (- 1)"
  have d1: "cpu_pc ?c1 = 4" "cells ?c1 = mem_byte m" "gpr ?c1 8 = - 2"
    using d by (simp_all add: writes_def advance_def set_gpr_def)
  have "isa_next c0 ?c1"
    by (rule isa_next.intros [where i = "AluI Addiu 8 0 0xFFFE"])
      (use d m(2) in \<open>simp_all add: mem_word_def imm_value_def sra_by_zero_def del: encode.simps upt_rec_numeral\<close>)
  moreover have "isa_next ?c1 ?c2"
    by (rule isa_next.intros [where i = "Shift Sra 9 8 1"])
      (use d1 m(3) in \<open>simp_all add: mem_word_def sra_by_zero_def del: encode.simps upt_rec_numeral\<close>)
  ultimately have "(isa_next ^^ length [True, False]) c0 ?c2" by (auto simp: relcompp_apply)
  moreover have "state_ok demo_hash (vm_state ?v)" "\<not> exited (vm_state ?v)" "length (mem_proof ?v) = 896"
    using demo_vm_facts m(1) by (simp_all add: state_ok_def)
  ultimately obtain v' where v': "vm_run demo_env [True, False] ?v = Inr v'" "cpu_of (vm_state v') = ?c2"
    using machine_implements_isa [OF demo_hash32 demo_keccak, of ?v "[True, False]" ?c2] unfolding c0_def by blast
  have "registers (vm_state v') ! 9 = gpr (cpu_of (vm_state v')) 9" by simp
  also have "\<dots> = 0xFFFFFFFF" unfolding v'(2) by (simp add: writes_def advance_def set_gpr_def)
  finally show ?thesis using m v'(1) by blast
qed

end
