(* ===== verification/Test_Oracles.thy ===== *)
theory Test_Oracles
  imports Memory_Serde Mips_VM Preimage_Keys
begin

text \<open>
  The oracles of \<open>test_utils/mod.rs\<close> that implement the trait \<open>PreimageOracle\<close> in the process: one that
  answers every global key with the same bytes, and the one of the claim program, which learns
  preimages from hints. The digest and the decoder of the crate \<open>hex\<close> are parameters. The states that
  the second one reaches are an inductive relation, and it never answers a global key with anything
  but a preimage of its digest.
\<close>

section \<open>A constant oracle\<close>

record static_oracle =
  preimage_data :: bytes

definition static_hint :: "static_oracle \<Rightarrow> bytes \<Rightarrow> static_oracle res" where
  "static_hint orc h = Inr orc"

definition static_get :: "static_oracle \<Rightarrow> bytes \<Rightarrow> (bytes \<times> static_oracle) res" where
  "static_get orc key = (if key \<noteq> keccak_preimage_key key then Inl OracleError else Inr (preimage_data orc, orc))"

section \<open>The oracle of the claim program\<close>

record claim_oracle =
  images :: "bytes \<rightharpoonup> bytes"

definition claim_S :: u64 where "claim_S = 1000"
definition claim_A :: u64 where "claim_A = 3"
definition claim_B :: u64 where "claim_B = 4"

definition claim_diff :: "hash_fn \<Rightarrow> bytes" where
  "claim_diff keccak = concat_fixed (keccak (u64_be claim_A)) (keccak (u64_be claim_B))"

definition claim_pre_hash :: "hash_fn \<Rightarrow> bytes" where
  "claim_pre_hash keccak = keccak (u64_be claim_S)"

definition claim_diff_hash :: "hash_fn \<Rightarrow> bytes" where
  "claim_diff_hash keccak = keccak (claim_diff keccak)"

definition claim_default :: "hash_fn \<Rightarrow> claim_oracle" where
  "claim_default keccak = \<lparr>images = Map.empty
     (local_preimage_key 0 \<mapsto> claim_pre_hash keccak,
      local_preimage_key 1 \<mapsto> claim_diff_hash keccak,
      local_preimage_key 2 \<mapsto> u64_be (claim_S * claim_A + claim_B))\<rparr>"

text \<open>Two words, the second a digest in hexadecimal; everything else panics.\<close>

definition claim_hint :: "hash_fn \<Rightarrow> hex_decode \<Rightarrow> claim_oracle \<Rightarrow> bytes \<Rightarrow> claim_oracle res" where
  "claim_hint keccak dec orc value =
    (case from_utf8 value of
       None \<Rightarrow> Inl PanicUnwrap
     | Some s \<Rightarrow>
         (let parts = split_on CHR '' '' s
          in if length parts \<noteq> 2 then Inl PanicAssert
             else case dec (parts ! 1) of
                    None \<Rightarrow> Inl PanicUnwrap
                  | Some part \<Rightarrow>
                      if length part \<noteq> 32 then Inl PanicAssert
                      else if parts ! 0 = ''fetch-state'' then
                        if part \<noteq> claim_pre_hash keccak then Inl PanicAssert
                        else Inr (orc\<lparr>images := (images orc)(keccak_preimage_key (claim_pre_hash keccak) \<mapsto> u64_be claim_S)\<rparr>)
                      else if parts ! 0 = ''fetch-diff'' then
                        if part \<noteq> claim_diff_hash keccak then Inl PanicAssert
                        else Inr (orc\<lparr>images := (images orc)
                               (keccak_preimage_key (claim_diff_hash keccak) \<mapsto> claim_diff keccak,
                                keccak_preimage_key (keccak (u64_be claim_A)) \<mapsto> u64_be claim_A,
                                keccak_preimage_key (keccak (u64_be claim_B)) \<mapsto> u64_be claim_B)\<rparr>)
                      else Inl PanicHint))"

definition claim_get :: "claim_oracle \<Rightarrow> bytes \<Rightarrow> (bytes \<times> claim_oracle) res" where
  "claim_get orc key = (case images orc key of None \<Rightarrow> Inl OracleError | Some v \<Rightarrow> Inr (v, orc))"

section \<open>Reachable oracles\<close>

inductive claim_reach :: "hash_fn \<Rightarrow> hex_decode \<Rightarrow> claim_oracle \<Rightarrow> bool" for keccak dec where
  start: "claim_reach keccak dec (claim_default keccak)"
| hint: "claim_reach keccak dec orc \<Longrightarrow> claim_hint keccak dec orc value = Inr orc' \<Longrightarrow> claim_reach keccak dec orc'"

text \<open>What a key may be answered with: the three program inputs, or a preimage of the key's digest.\<close>

definition honest_image :: "hash_fn \<Rightarrow> bytes \<Rightarrow> bytes \<Rightarrow> bool" where
  "honest_image keccak key v \<longleftrightarrow>
     key = local_preimage_key 0 \<and> v = claim_pre_hash keccak
     \<or> key = local_preimage_key 1 \<and> v = claim_diff_hash keccak
     \<or> key = local_preimage_key 2 \<and> v = u64_be (claim_S * claim_A + claim_B)
     \<or> key = keccak_preimage_key (keccak v)"

lemma honest_local:
  "honest_image keccak (local_preimage_key 0) (claim_pre_hash keccak)"
  "honest_image keccak (local_preimage_key 1) (claim_diff_hash keccak)"
  "honest_image keccak (local_preimage_key 2) (u64_be (claim_S * claim_A + claim_B))"
  by (simp_all add: honest_image_def)

lemma honest_global: "honest_image keccak (keccak_preimage_key (keccak v)) v"
  by (simp add: honest_image_def)

lemmas honest_globals = honest_global [of _ "u64_be claim_S", folded claim_pre_hash_def]
  honest_global [of keccak "claim_diff keccak" for keccak, folded claim_diff_hash_def]
  honest_global [of _ "u64_be claim_A"] honest_global [of _ "u64_be claim_B"]

definition all_honest :: "hash_fn \<Rightarrow> claim_oracle \<Rightarrow> bool" where
  "all_honest keccak orc \<longleftrightarrow> (\<forall>key v. images orc key = Some v \<longrightarrow> honest_image keccak key v)"

lemma all_honest_update:
  "all_honest keccak orc \<Longrightarrow> honest_image keccak key v \<Longrightarrow> all_honest keccak (orc\<lparr>images := (images orc)(key \<mapsto> v)\<rparr>)"
  by (simp add: all_honest_def)

lemma all_honest_default: "all_honest keccak (claim_default keccak)"
  using honest_local by (auto simp: all_honest_def claim_default_def split: if_splits)

lemma all_honest_hint: "claim_hint keccak dec orc value = Inr orc' \<Longrightarrow> all_honest keccak orc \<Longrightarrow> all_honest keccak orc'"
  using all_honest_update [OF _ honest_globals(1)]
    all_honest_update [OF all_honest_update [OF all_honest_update [OF _ honest_globals(2)] honest_globals(3)] honest_globals(4)]
  by (auto simp: claim_hint_def Let_def split: option.splits if_splits)

lemma claim_reach_honest: "claim_reach keccak dec orc \<Longrightarrow> all_honest keccak orc"
  by (induction rule: claim_reach.induct) (auto intro: all_honest_default all_honest_hint)

text \<open>The two hints that the program sends are accepted.\<close>

lemma claim_hint_words:
  assumes "\<forall>c \<in> set hx. of_char c < (128 :: nat) \<and> c \<noteq> CHR '' ''" and "dec hx = Some d" and "length d = 32"
    and "w = ''fetch-state'' \<or> w = ''fetch-diff''"
  shows "claim_hint keccak dec orc (str_bytes (w @ CHR '' '' # hx)) =
    (if w = ''fetch-state'' then
       if d \<noteq> claim_pre_hash keccak then Inl PanicAssert
       else Inr (orc\<lparr>images := (images orc)(keccak_preimage_key (claim_pre_hash keccak) \<mapsto> u64_be claim_S)\<rparr>)
     else
       if d \<noteq> claim_diff_hash keccak then Inl PanicAssert
       else Inr (orc\<lparr>images := (images orc)
                  (keccak_preimage_key (claim_diff_hash keccak) \<mapsto> claim_diff keccak,
                   keccak_preimage_key (keccak (u64_be claim_A)) \<mapsto> u64_be claim_A,
                   keccak_preimage_key (keccak (u64_be claim_B)) \<mapsto> u64_be claim_B)\<rparr>))"
proof -
  have w: "\<forall>c \<in> set w. of_char c < (128 :: nat) \<and> c \<noteq> CHR '' ''" using assms(4) by (elim disjE) simp_all
  moreover have "of_char (CHR '' '') < (128 :: nat)" by simp
  ultimately have "\<forall>c \<in> set (w @ CHR '' '' # hx). of_char c < (128 :: nat)" using assms(1) by auto
  note u = from_utf8_str_bytes [OF this]
  have "CHR '' '' \<notin> set w" "CHR '' '' \<notin> set hx" using w assms(1) by blast+
  then have sp: "split_on CHR '' '' (w @ CHR '' '' # hx) = [w, hx]" using split_on_append split_on_none by metis
  show ?thesis
    unfolding claim_hint_def u option.case sp Let_def using assms(2,3,4) by (elim disjE) (simp_all del: be_bytes.simps)
qed

section \<open>Properties\<close>

text \<open>C39. The oracle of the claim program is honest: after any hints that it accepts, a global key is
  answered only with a preimage of the digest in the key, a local key only with the program inputs,
  and an answer changes nothing.\<close>

theorem claim_oracle_honest:
  assumes "claim_reach keccak dec orc" and "claim_get orc key = Inr (v, orc')"
  shows "orc' = orc \<and> (key = keccak_preimage_key (keccak v)
    \<or> (\<exists>i. key = local_preimage_key i \<and> v = [claim_pre_hash keccak, claim_diff_hash keccak, u64_be 3004] ! unat i \<and> unat i < 3))"
proof -
  have r: "orc' = orc" "images orc key = Some v" using assms(2) by (auto simp: claim_get_def split: option.splits)
  then have "honest_image keccak key v" using claim_reach_honest [OF assms(1)] by (simp add: all_honest_def)
  moreover have "claim_S * claim_A + claim_B = 3004" by (simp add: claim_S_def claim_A_def claim_B_def)
  moreover have "unat (0 :: u64) = 0" "unat (1 :: u64) = 1" "unat (2 :: u64) = 2" by simp_all
  ultimately show ?thesis unfolding honest_image_def using r(1)
    by (elim disjE conjE) (force simp del: be_bytes.simps)+
qed

theorem claim_oracle_honest_witness:
  "\<exists>orc value orc' v. claim_hint (\<lambda>_. replicate 32 1) (\<lambda>_. Some (replicate 32 1)) (claim_default (\<lambda>_. replicate 32 1)) value = Inr orc
    \<and> claim_get orc (2 # replicate 31 1) = Inr (v, orc') \<and> orc' = orc"
proof -
  let ?k = "\<lambda>_ :: bytes. replicate 32 1 :: bytes" and ?dec = "\<lambda>_ :: string. Some (replicate 32 1) :: bytes option"
  let ?o = "(claim_default ?k)\<lparr>images := (images (claim_default ?k))(keccak_preimage_key (replicate 32 1) \<mapsto> u64_be claim_S)\<rparr>"
  have h: "claim_hint ?k ?dec (claim_default ?k) (str_bytes (''fetch-state'' @ CHR '' '' # ''01'')) = Inr ?o"
    using claim_hint_words [where w = "''fetch-state''" and hx = "''01''" and d = "replicate 32 1" and dec = ?dec and keccak = ?k]
    by (simp add: claim_pre_hash_def del: be_bytes.simps)
  have key: "2 # replicate 31 1 = keccak_preimage_key (replicate 32 1)"
    by (simp add: keccak_preimage_key_def numeral_eq_Suc)
  have g: "claim_get ?o (2 # replicate 31 1) = Inr (u64_be claim_S, ?o)" unfolding key by (simp add: claim_get_def del: be_bytes.simps)
  from claim_oracle_honest [OF claim_reach.hint [OF claim_reach.start h] g] h g show ?thesis by blast
qed

end
