(* ===== verification/Kernel.thy ===== *)
theory Kernel
  imports Witness Text Patch
begin

text \<open>
  The kernel of the crate \<open>cannon\<close>: step patterns (\<open>Matcher\<close>, \<open>create_matcher\<close>), the run loop with
  its snapshots and proofs (\<open>Kernel::run\<close>, built without the feature \<open>tracing\<close>), and the file tasks it
  leaves behind. Serialization, compression, the file system, the ABI encoders and the server process
  are parameters, collected in the record \<open>kernel_env\<close>. The loop may run forever, so it is a partial
  function: \<open>None\<close> means that it does not return.
\<close>

section \<open>Step patterns\<close>

datatype Matcher = Never | Always | Equal u64 | MultipleOf u64

text \<open>The remainder by zero panics.\<close>

fun matches :: "Matcher \<Rightarrow> u64 \<Rightarrow> bool res" where
  "matches Never v = Inr False"
| "matches Always v = Inr True"
| "matches (Equal n) v = Inr (v = n)"
| "matches (MultipleOf n) v = (if n = 0 then Inl PanicRemainder else Inr (v mod n = 0))"

definition create_matcher :: "string option \<Rightarrow> Matcher res" where
  "create_matcher pattern =
    (case pattern of
       None \<Rightarrow> Inr Never
     | Some s \<Rightarrow>
         if s = ''never'' then Inr Never
         else if s = ''always'' then Inr Always
         else if take 1 s = ''='' then
           (case parse_u64 (drop 1 s) of Some n \<Rightarrow> Inr (Equal n) | None \<Rightarrow> Inl (InvalidPattern s))
         else if take 1 s = ''%'' then
           (case parse_u64 (drop 1 s) of Some n \<Rightarrow> Inr (MultipleOf n) | None \<Rightarrow> Inl (InvalidPattern s))
         else Inl (InvalidPattern s))"

section \<open>Proofs and tasks\<close>

record proof_record =
  pf_step :: u64
  pf_pre :: bytes
  pf_post :: bytes
  pf_state_data :: bytes
  pf_proof_data :: bytes
  pf_step_input :: bytes
  pf_oracle_key :: "bytes option"
  pf_oracle_value :: "bytes option"
  pf_oracle_offset :: "u32 option"
  pf_oracle_input :: "bytes option"

text \<open>What the spawned tasks capture: a path with a serialized state, or with the parts of a proof.\<close>

datatype io_task =
    SnapshotTask string bytes
  | ProofTask string u64 bytes bytes step_witness

record ('o, 'w, 'c, 'f) kernel_env =
  kn_env :: "('o, 'w) env"
  kn_ser_state :: "state \<Rightarrow> bytes"
  kn_ser_proof :: "proof_record \<Rightarrow> bytes res"
  kn_compress :: "bytes \<Rightarrow> bytes res"
  kn_create :: "string \<Rightarrow> 'f \<Rightarrow> 'f res"
  kn_write :: "string \<Rightarrow> bytes \<Rightarrow> 'f \<Rightarrow> 'f res"
  kn_print :: "state \<Rightarrow> 'f \<Rightarrow> 'f"
  kn_try_wait :: "'c \<Rightarrow> nat option res \<times> 'c"
  kn_abi_local :: "bytes \<Rightarrow> bytes \<Rightarrow> nat \<Rightarrow> u32 \<Rightarrow> bytes"
  kn_abi_keccak :: "u32 \<Rightarrow> bytes \<Rightarrow> bytes"
  kn_abi_step :: "bytes \<Rightarrow> bytes \<Rightarrow> bytes"

record ('o, 'w, 'c) kernel =
  ins_state :: "('o, 'w) instrumented"
  server_proc :: "'c option"
  kn_input :: string
  kn_output :: "string option"
  proof_at :: "string option"
  proof_format :: "string option"
  snapshot_at :: "string option"
  snapshot_format :: "string option"
  stop_at :: "string option"
  info_at :: "string option"

definition kernel_new ::
  "('o, 'w) instrumented \<Rightarrow> 'c option \<Rightarrow> string \<Rightarrow> string option \<Rightarrow> string option \<Rightarrow> string option \<Rightarrow> string option
     \<Rightarrow> string option \<Rightarrow> string option \<Rightarrow> string option \<Rightarrow> ('o, 'w, 'c) kernel" where
  [simp]: "kernel_new v srv inp out pf_at pf_fmt snap_at snap_fmt stp info =
     \<lparr>ins_state = v, server_proc = srv, kn_input = inp, kn_output = out, proof_at = pf_at, proof_format = pf_fmt,
      snapshot_at = snap_at, snapshot_format = snap_fmt, stop_at = stp, info_at = info\<rparr>"

section \<open>One round\<close>

abbreviation step_path :: "string \<Rightarrow> u64 \<Rightarrow> string" where
  "step_path fmt st \<equiv> replace_pct_d (show_nat (unat st)) fmt"

definition kernel_snapshot ::
  "('o, 'w, 'c, 'f) kernel_env \<Rightarrow> Matcher \<Rightarrow> string \<Rightarrow> ('o, 'w) instrumented \<Rightarrow> io_task list res" where
  "kernel_snapshot ke snap_at fmt v =
     rbind (matches snap_at (step (vm_state v))) (\<lambda>b.
       Inr (if b then [SnapshotTask (step_path fmt (step (vm_state v))) (kn_ser_state ke (vm_state v))] else []))"

definition kernel_proof ::
  "('o, 'w, 'c, 'f) kernel_env \<Rightarrow> string \<Rightarrow> ('o, 'w) instrumented \<Rightarrow> (io_task \<times> ('o, 'w) instrumented) res" where
  "kernel_proof ke fmt v =
    (let k = env_keccak (kn_env ke); st = step (vm_state v)
     in rbind (encode_witness k (vm_state v)) (\<lambda>(w0, s0).
        let prestate_hash = state_hash k w0
        in rbind (vm_step (kn_env ke) True (v\<lparr>vm_state := s0\<rparr>)) (\<lambda>(wo, v1).
           case wo of
             None \<Rightarrow> Inl NoStepWitness
           | Some wit \<Rightarrow>
               rbind (encode_witness k (vm_state v1)) (\<lambda>(w1, s1).
                 Inr (ProofTask (step_path fmt st) st prestate_hash (state_hash k w1) wit, v1\<lparr>vm_state := s1\<rparr>)))))"

definition kernel_step ::
  "('o, 'w, 'c, 'f) kernel_env \<Rightarrow> Matcher \<Rightarrow> string \<Rightarrow> ('o, 'w) instrumented \<Rightarrow> (io_task list \<times> ('o, 'w) instrumented) res" where
  "kernel_step ke pf_at fmt v =
     rbind (matches pf_at (step (vm_state v))) (\<lambda>b.
       if b then rbind (kernel_proof ke fmt v) (\<lambda>(t, v1). Inr ([t], v1))
       else rbind (vm_step (kn_env ke) False v) (\<lambda>(_, v1). Inr ([], v1)))"

text \<open>The check of the server process after the step, every ten million steps.\<close>

definition kernel_poll :: "('o, 'w, 'c, 'f) kernel_env \<Rightarrow> u64 \<Rightarrow> 'c option \<Rightarrow> 'c option res" where
  "kernel_poll ke st srv =
    (if st mod 10000000 = 0 then
       (case srv of
          None \<Rightarrow> Inr None
        | Some c \<Rightarrow>
            (case kn_try_wait ke c of
               (Inr (Some status), c1) \<Rightarrow> Inl ServerExited
             | (Inr None, c1) \<Rightarrow> Inr (Some c1)
             | (Inl e, c1) \<Rightarrow> Inl IoError))
     else Inr srv)"

definition kernel_round ::
  "('o, 'w, 'c, 'f) kernel_env \<Rightarrow> Matcher \<Rightarrow> Matcher \<Rightarrow> string \<Rightarrow> string
     \<Rightarrow> ('o, 'w) instrumented \<times> 'c option \<times> io_task list \<Rightarrow> (('o, 'w) instrumented \<times> 'c option \<times> io_task list) res" where
  "kernel_round ke pf_at snap_at pf_fmt snap_fmt s =
    (case s of (v, srv, tasks) \<Rightarrow>
       rbind (kernel_snapshot ke snap_at snap_fmt v) (\<lambda>snaps.
       rbind (kernel_step ke pf_at pf_fmt v) (\<lambda>(pfs, v1).
       rbind (kernel_poll ke (step (vm_state v)) srv) (\<lambda>srv1.
         Inr (v1, srv1, tasks @ snaps @ pfs)))))"

section \<open>The loop\<close>

partial_function (option) kernel_loop ::
  "('o, 'w, 'c, 'f) kernel_env \<Rightarrow> Matcher \<Rightarrow> Matcher \<Rightarrow> Matcher \<Rightarrow> string \<Rightarrow> string
     \<Rightarrow> ('o, 'w) instrumented \<times> 'c option \<times> io_task list \<Rightarrow> (('o, 'w) instrumented \<times> 'c option \<times> io_task list) res option" where
  "kernel_loop ke stp pf_at snap_at pf_fmt snap_fmt s =
    (if exited (vm_state (fst s)) then Some (Inr s)
     else case matches stp (step (vm_state (fst s))) of
            Inl e \<Rightarrow> Some (Inl e)
          | Inr b \<Rightarrow>
              if b then Some (Inr s)
              else case kernel_round ke pf_at snap_at pf_fmt snap_fmt s of
                     Inl e \<Rightarrow> Some (Inl e)
                   | Inr s1 \<Rightarrow> kernel_loop ke stp pf_at snap_at pf_fmt snap_fmt s1)"

section \<open>Tasks and the end of a run\<close>

definition make_proof :: "('o, 'w, 'c, 'f) kernel_env \<Rightarrow> u64 \<Rightarrow> bytes \<Rightarrow> bytes \<Rightarrow> step_witness \<Rightarrow> proof_record res" where
  "make_proof ke st pre post wit =
     rbind (encode_preimage_oracle_input (kn_abi_local ke) (kn_abi_keccak ke) wit) (\<lambda>preimage_input.
       Inr \<lparr>pf_step = st, pf_pre = pre, pf_post = post, pf_state_data = wit_state wit,
            pf_proof_data = wit_mem_proof wit, pf_step_input = encode_step_input (kn_abi_step ke) wit,
            pf_oracle_key = wit_preimage_key wit, pf_oracle_value = wit_preimage_value wit,
            pf_oracle_offset = wit_preimage_offset wit, pf_oracle_input = preimage_input\<rparr>)"

text \<open>\<open>write_all\<close> on a new \<open>BufWriter\<close> over a file that is then dropped: a buffer of 8192 bytes or more goes to the file at once; a smaller one
  is written when the writer is dropped, which ignores an error.\<close>

definition buf_write :: "(bytes \<Rightarrow> 'f \<Rightarrow> 'f res) \<Rightarrow> bytes \<Rightarrow> 'f \<Rightarrow> 'f res" where
  "buf_write wr bs f = (case wr bs f of Inr f1 \<Rightarrow> Inr f1 | Inl e \<Rightarrow> if length bs < 8192 then Inr f else Inl e)"

fun run_task :: "('o, 'w, 'c, 'f) kernel_env \<Rightarrow> io_task \<Rightarrow> 'f \<Rightarrow> 'f res" where
  "run_task ke (SnapshotTask path ser) f =
     rbind (kn_compress ke ser) (\<lambda>gz. rbind (kn_create ke path f) (buf_write (kn_write ke path) gz))"
| "run_task ke (ProofTask path st pre post wit) f =
     rbind (make_proof ke st pre post wit) (\<lambda>pf.
     rbind (kn_ser_proof ke pf) (\<lambda>ser. rbind (kn_create ke path f) (buf_write (kn_write ke path) ser)))"

fun run_tasks :: "('o, 'w, 'c, 'f) kernel_env \<Rightarrow> io_task list \<Rightarrow> 'f \<Rightarrow> 'f res" where
  "run_tasks ke [] f = Inr f"
| "run_tasks ke (t # ts) f = rbind (run_task ke t f) (run_tasks ke ts)"

definition kernel_finish :: "('o, 'w, 'c, 'f) kernel_env \<Rightarrow> string option \<Rightarrow> state \<Rightarrow> 'f \<Rightarrow> 'f res" where
  "kernel_finish ke output s f =
    (case output of
       Some path \<Rightarrow>
         if path \<noteq> [] then
           rbind (kn_create ke path f) (\<lambda>f1.
           rbind (kn_compress ke (kn_ser_state ke s)) (\<lambda>gz. buf_write (kn_write ke path) gz f1))
         else Inr f
     | None \<Rightarrow> Inr (kn_print ke s f))"

definition default_format :: string where
  "default_format = ''%d.json.gz''"

text \<open>The tasks run in the background; the model runs them where they are awaited.\<close>

definition kernel_run :: "('o, 'w, 'c, 'f) kernel_env \<Rightarrow> ('o, 'w, 'c) kernel \<Rightarrow> 'f \<Rightarrow> 'f res option" where
  "kernel_run ke kn f =
     obind (Some (create_matcher (stop_at kn))) (\<lambda>stp.
     obind (Some (create_matcher (proof_at kn))) (\<lambda>pf_at.
     obind (Some (create_matcher (snapshot_at kn))) (\<lambda>snap_at.
       let pf_fmt = case proof_format kn of Some s \<Rightarrow> s | None \<Rightarrow> default_format;
           snap_fmt = case snapshot_format kn of Some s \<Rightarrow> s | None \<Rightarrow> default_format
       in obind (kernel_loop ke stp pf_at snap_at pf_fmt snap_fmt (ins_state kn, server_proc kn, [])) (\<lambda>(v, srv, tasks).
          obind (Some (kernel_finish ke (kn_output kn) (vm_state v) f)) (\<lambda>f1.
            Some (run_tasks ke tasks f1))))))"

section \<open>One round keeps the machine well formed\<close>

definition machine_ok :: "hash_fn \<Rightarrow> ('o, 'w) instrumented \<Rightarrow> bool" where
  "machine_ok k v \<longleftrightarrow> state_ok k (vm_state v) \<and> length (mem_proof v) = 896"

lemma encode_witness_value:
  assumes ok: "state_ok k s" and k: "hash32 k" and e: "encode_witness k s = Inr (w, s')"
  shows "w = witness_of (mem_root k (memory s)) s" and "state_ok k s'" and "s' = s\<lparr>memory := memory s'\<rparr>"
    and "mem_byte (memory s') = mem_byte (memory s)"
proof -
  obtain m1 where m1: "encode_witness k s = Inr (witness_of (mem_root k (memory s)) s, s\<lparr>memory := m1\<rparr>)"
      "state_ok k (s\<lparr>memory := m1\<rparr>)" "mem_extends (memory s) m1"
    by (rule encode_witness_ok [OF ok k])
  with e mem_extends_byte [OF mem_okD(1) [OF state_okD(1) [OF ok]] m1(3)]
  show "w = witness_of (mem_root k (memory s)) s" "state_ok k s'" "s' = s\<lparr>memory := memory s'\<rparr>"
    "mem_byte (memory s') = mem_byte (memory s)" by auto
qed

lemma vm_sim_recache:
  assumes "state_ok k (vm_state v)" and "state_ok k s" and "s = (vm_state v)\<lparr>memory := memory s\<rparr>"
    and "mem_byte (memory s) = mem_byte (vm_memory v)"
  shows "vm_sim k v (v\<lparr>vm_state := s\<rparr>)"
proof -
  have "v\<lparr>vm_state := s\<rparr> = retrack (memory s) (last_mem_access v) (mem_proof_enabled v) (mem_proof v) v"
    using assms(3) by (cases v) (simp add: retrack_def)
  moreover have "mem_sim k (vm_memory v) (memory s)"
    using assms state_okD(1) by (auto simp: mem_sim_def)
  ultimately show ?thesis using vm_simI by metis
qed

lemma kernel_proof_ok:
  assumes k: "hash32 k" and env: "env_keccak (kn_env ke) = k" and ok: "machine_ok k v" and pf: "kernel_proof ke fmt v = Inr (t, v1)"
  obtains u wit u1 where "vm_sim k v u" and "machine_ok k u" and "vm_step (kn_env ke) True u = Inr (Some wit, u1)"
    and "vm_sim k u1 v1" and "machine_ok k v1" and "step (vm_state v1) = step (vm_state u1)"
    and "t = ProofTask (step_path fmt (step (vm_state v))) (step (vm_state v))
        (state_hash k (witness_of (mem_root k (vm_memory v)) (vm_state v)))
        (state_hash k (witness_of (mem_root k (vm_memory v1)) (vm_state v1))) wit"
proof -
  have sok: "state_ok k (vm_state v)" and len: "length (mem_proof v) = 896" using ok by (simp_all add: machine_ok_def)
  obtain w0 s0 u1 wit w1 s1 where
    e0: "encode_witness k (vm_state v) = Inr (w0, s0)" and st: "vm_step (kn_env ke) True (v\<lparr>vm_state := s0\<rparr>) = Inr (Some wit, u1)"
    and e1: "encode_witness k (vm_state u1) = Inr (w1, s1)" and v1: "v1 = u1\<lparr>vm_state := s1\<rparr>"
    and t: "t = ProofTask (step_path fmt (step (vm_state v))) (step (vm_state v)) (state_hash k w0) (state_hash k w1) wit"
    using pf env by (auto simp: kernel_proof_def Let_def split: option.splits)
  note v0 = encode_witness_value [OF sok k e0]
  let ?u = "v\<lparr>vm_state := s0\<rparr>"
  have uok: "state_ok k (vm_state ?u)" "length (mem_proof ?u) = 896" using v0(2) len by simp_all
  note st_ok = vm_step_ok [OF k env uok st]
  note v2 = encode_witness_value [OF st_ok(1) k e1]
  have st1: "step s1 = step (vm_state u1)" using arg_cong [OF v2(3), of step] by simp
  have w1: "w1 = witness_of (mem_root k (memory s1)) s1"
    unfolding mem_root_cong [OF v2(4)] v2(1) using arg_cong [OF v2(3), of "witness_of (mem_root k (vm_memory u1))"]
    by (simp add: witness_of_def)
  show ?thesis
  proof (rule that [OF _ _ st])
    show "vm_sim k v ?u" by (rule vm_sim_recache [OF sok v0(2,3,4)])
    show "machine_ok k ?u" using uok by (simp add: machine_ok_def)
    show "vm_sim k u1 v1" unfolding v1 by (rule vm_sim_recache [OF st_ok(1) v2(2,3,4)])
    show "machine_ok k v1" using v1 v2(2) st_ok(2) by (simp add: machine_ok_def)
    show "step (vm_state v1) = step (vm_state u1)" using v1 st1 by simp
    show "t = ProofTask (step_path fmt (step (vm_state v))) (step (vm_state v))
        (state_hash k (witness_of (mem_root k (vm_memory v)) (vm_state v)))
        (state_hash k (witness_of (mem_root k (vm_memory v1)) (vm_state v1))) wit"
      using t v0(1) w1 v1 by simp
  qed
qed

text \<open>The kind and the path of a task.\<close>

fun task_tag :: "io_task \<Rightarrow> bool \<times> string" where
  "task_tag (SnapshotTask path ser) = (False, path)"
| "task_tag (ProofTask path st pre post wit) = (True, path)"

definition planned :: "Matcher \<Rightarrow> Matcher \<Rightarrow> string \<Rightarrow> string \<Rightarrow> u64 \<Rightarrow> (bool \<times> string) list" where
  "planned pf_at snap_at pf_fmt snap_fmt st =
     (if matches snap_at st = Inr True then [(False, step_path snap_fmt st)] else []) @
     (if matches pf_at st = Inr True then [(True, step_path pf_fmt st)] else [])"

lemma kernel_step_ok:
  assumes k: "hash32 k" and env: "env_keccak (kn_env ke) = k" and ok: "machine_ok k v" and run: "\<not> exited (vm_state v)"
    and st: "kernel_step ke pf_at fmt v = Inr (ts, v1)"
  shows "machine_ok k v1 \<and> step (vm_state v1) = step (vm_state v) + 1
    \<and> map task_tag ts = (if matches pf_at (step (vm_state v)) = Inr True then [(True, step_path fmt (step (vm_state v)))] else [])"
proof -
  obtain b where b: "matches pf_at (step (vm_state v)) = Inr b" using st by (auto simp: kernel_step_def)
  show ?thesis
  proof (cases b)
    case True
    then obtain t where t: "kernel_proof ke fmt v = Inr (t, v1)" "ts = [t]" using st b by (auto simp: kernel_step_def)
    obtain u wit u1 where u: "vm_sim k v u" "machine_ok k u" "vm_step (kn_env ke) True u = Inr (Some wit, u1)" "machine_ok k v1"
        "step (vm_state v1) = step (vm_state u1)" "task_tag t = (True, step_path fmt (step (vm_state v)))"
      by (rule kernel_proof_ok [OF k env ok t(1)]) simp
    obtain m x p q where r: "u = retrack m x p q v" by (rule vm_simE [OF u(1)])
    have "\<not> exited (vm_state u)" and s: "step (vm_state u) = step (vm_state v)" using r run by simp_all
    then have "step (vm_state u1) = step (vm_state u) + 1"
      using vm_step_ok(4) [OF k env _ _ u(3)] u(2) by (simp add: machine_ok_def advances_def)
    with u(4-6) s t(2) b True show ?thesis by simp
  next
    case False
    then obtain wo where w: "vm_step (kn_env ke) False v = Inr (wo, v1)" "ts = []" using st b by (auto simp: kernel_step_def)
    have "state_ok k (vm_state v)" "length (mem_proof v) = 896" using ok by (simp_all add: machine_ok_def)
    note o = vm_step_ok [OF k env this w(1)]
    show ?thesis using o(1,2) o(4) [OF run] w(2) b False by (simp add: machine_ok_def advances_def)
  qed
qed

lemma kernel_round_ok:
  assumes k: "hash32 k" and env: "env_keccak (kn_env ke) = k" and ok: "machine_ok k v" and run: "\<not> exited (vm_state v)"
    and st: "kernel_round ke pf_at snap_at pf_fmt snap_fmt (v, srv, tasks) = Inr (v1, srv1, tasks1)"
  shows "machine_ok k v1 \<and> step (vm_state v1) = step (vm_state v) + 1
    \<and> map task_tag tasks1 = map task_tag tasks @ planned pf_at snap_at pf_fmt snap_fmt (step (vm_state v))"
proof -
  obtain snaps ts where s: "kernel_snapshot ke snap_at snap_fmt v = Inr snaps" "kernel_step ke pf_at pf_fmt v = Inr (ts, v1)"
      "tasks1 = tasks @ snaps @ ts"
    using st by (auto simp: kernel_round_def)
  have "map task_tag snaps = (if matches snap_at (step (vm_state v)) = Inr True then [(False, step_path snap_fmt (step (vm_state v)))] else [])"
    using s(1) by (auto simp: kernel_snapshot_def)
  with kernel_step_ok [OF k env ok run s(2)] s(3) show ?thesis by (simp add: planned_def)
qed

section \<open>Proofs do not change the run\<close>

lemma kernel_step_plain:
  assumes k: "hash32 k" and env: "env_keccak (kn_env ke) = k" and ok: "machine_ok k v" and m: "matches pf_at (step (vm_state v)) = Inr b"
  shows "rel_sum (=) (\<lambda>(ts, u) (wo, u'). vm_sim k u u') (kernel_step ke pf_at fmt v) (vm_step (kn_env ke) False v)"
proof (cases b)
  case False
  have sok: "state_ok k (vm_state v)" using ok by (simp add: machine_ok_def)
  have refl: "vm_sim k v v" using sok state_okD(1) [OF sok] vm_simI [of k v "vm_memory v"] retrack_id [of v] by (metis mem_sim_def)
  have "rel_sum (=) (\<lambda>(w, u) (w', u'). vm_sim k u u') (vm_step (kn_env ke) False v) (vm_step (kn_env ke) False v)"
    by (rule vm_step_sim [OF k env refl sok sok])
  with m False show ?thesis by (auto simp: kernel_step_def elim!: rel_sum.cases)
next
  case True
  have sok: "state_ok k (vm_state v)" and len: "length (mem_proof v) = 896" using ok by (simp_all add: machine_ok_def)
  obtain w0 s0 where e0: "encode_witness k (vm_state v) = Inr (w0, s0)" using encode_witness_ok [OF sok k] by metis
  note v0 = encode_witness_value [OF sok k e0]
  let ?u = "v\<lparr>vm_state := s0\<rparr>"
  have uok: "state_ok k (vm_state ?u)" "length (mem_proof ?u) = 896" using v0(2) len by simp_all
  have sim: "rel_sum (=) (\<lambda>(w, u) (w', u'). vm_sim k u u') (vm_step (kn_env ke) True ?u) (vm_step (kn_env ke) False v)"
    by (rule vm_step_sim [OF k env vm_sim_sym [OF vm_sim_recache [OF sok v0(2,3,4)]] uok(1) sok])
  show ?thesis
  proof (cases "vm_step (kn_env ke) True ?u")
    case (Inl e)
    with sim m True e0 env show ?thesis by (auto simp: kernel_step_def kernel_proof_def Let_def elim!: rel_sum.cases)
  next
    case (Inr r)
    obtain wo u1 where r: "r = (wo, u1)" by (cases r)
    note o = vm_step_ok [OF k env uok Inr [unfolded r]]
    obtain wit where wo: "wo = Some wit" using o(3) by auto
    obtain w1 s1 where e1: "encode_witness k (vm_state u1) = Inr (w1, s1)" using encode_witness_ok [OF o(1) k] by metis
    note v1 = encode_witness_value [OF o(1) k e1]
    have "vm_sim k u1 (u1\<lparr>vm_state := s1\<rparr>)" by (rule vm_sim_recache [OF o(1) v1(2,3,4)])
    moreover have "\<exists>ts. kernel_step ke pf_at fmt v = Inr (ts, u1\<lparr>vm_state := s1\<rparr>)"
      using m True e0 e1 env Inr r wo by (simp add: kernel_step_def kernel_proof_def Let_def)
    ultimately show ?thesis
      using sim Inr r by (auto elim!: rel_sum.cases intro: vm_sim_trans [OF vm_sim_sym])
  qed
qed

lemma kernel_step_sim:
  assumes k: "hash32 k" and env: "env_keccak (kn_env ke) = k" and ok: "machine_ok k v" "machine_ok k v'" and sim: "vm_sim k v v'"
    and m: "\<And>s. \<exists>b. matches pf_at s = Inr b" "\<And>s. \<exists>b. matches pf_at' s = Inr b"
  shows "rel_sum (=) (\<lambda>(ts, u) (ts', u'). vm_sim k u u') (kernel_step ke pf_at fmt v) (kernel_step ke pf_at' fmt' v')"
proof -
  obtain b b' where b: "matches pf_at (step (vm_state v)) = Inr b" "matches pf_at' (step (vm_state v')) = Inr b'" using m by metis
  have "rel_sum (=) (\<lambda>(w, u) (w', u'). vm_sim k u u') (vm_step (kn_env ke) False v) (vm_step (kn_env ke) False v')"
    using vm_step_sim [OF k env sim] ok by (simp add: machine_ok_def)
  with kernel_step_plain [OF k env ok(1) b(1), of fmt] kernel_step_plain [OF k env ok(2) b(2), of fmt'] show ?thesis
    by (auto elim!: rel_sum.cases) (metis vm_sim_sym vm_sim_trans)+
qed

end
