(* ===== verification/Replay.thy ===== *)
theory Replay
  imports Witness Merkle_Binding Mips_Sys
begin

text \<open>
  The other side of a step witness: a verifier that has neither the memory nor the machine. It decodes
  the pre-state from the witness, takes the instruction and the accessed word from the two branches
  after checking them against the root in that state, runs the instruction on the registers, and
  computes the new root from the second branch. This is the abstract specification of a step that the
  machine refines: whatever the machine does in a step with a proof, the verifier finds from the
  witness alone, and no other witness over the same pre-state leads the verifier elsewhere.

  The verifier rejects by \<open>None\<close>. It uses the pure handlers of \<open>mips_vm.rs\<close> on the decoded state; everything
  that touches memory, the oracle or the outputs is written anew over branches.
\<close>

section \<open>Decoding\<close>

text \<open>The state of a witness, with an empty memory in place of the root; the last hint is not encoded.\<close>

definition decode_witness :: "bytes \<Rightarrow> bytes \<times> state" where
  "decode_witness w =
    (take 32 w,
     \<lparr>memory = memory_default, preimage_key = slice_at 32 64 w, preimage_offset = from_be (slice_at 64 68 w),
      pc = from_be (slice_at 68 72 w), next_pc = from_be (slice_at 72 76 w), lo = from_be (slice_at 76 80 w),
      hi = from_be (slice_at 80 84 w), heap = from_be (slice_at 84 88 w), exit_code = w ! 88, exited = (w ! 89 \<noteq> 0),
      step = from_be (slice_at 90 98 w), registers = map (\<lambda>i. from_be (slice_at (98 + 4 * i) (102 + 4 * i) w)) [0..<32],
      last_hint = []\<rparr>)"

definition strip :: "state \<Rightarrow> state" where
  "strip s = s\<lparr>memory := memory_default, last_hint := []\<rparr>"

lemma strip_simps [simp]:
  "preimage_key (strip s) = preimage_key s" "preimage_offset (strip s) = preimage_offset s" "pc (strip s) = pc s"
  "next_pc (strip s) = next_pc s" "lo (strip s) = lo s" "hi (strip s) = hi s" "heap (strip s) = heap s"
  "exit_code (strip s) = exit_code s" "exited (strip s) = exited s" "step (strip s) = step s"
  "registers (strip s) = registers s" "memory (strip s) = memory_default" "last_hint (strip s) = []"
  by (simp_all add: strip_def)

section \<open>The verifier\<close>

definition accept_res :: "'a res \<Rightarrow> 'a option" where
  "accept_res r = (case r of Inl e \<Rightarrow> None | Inr x \<Rightarrow> Some x)"

text \<open>A word of the memory under a root, from a branch that is checked.\<close>

definition proven_word :: "hash_fn \<Rightarrow> bytes \<Rightarrow> bytes \<Rightarrow> u32 \<Rightarrow> u32 option" where
  "proven_word k root pf a = (if unat a mod 4 = 0 \<and> proof_root k a pf = root then Some (proof_word a pf) else None)"

text \<open>The system calls on a state and a root. The preimages come from \<open>pre\<close>, with their length in front.\<close>

definition replay_read ::
  "hash_fn \<Rightarrow> bytes \<Rightarrow> (bytes \<Rightarrow> bytes option) \<Rightarrow> u32 \<Rightarrow> u32 \<Rightarrow> u32 \<Rightarrow> state \<times> bytes \<Rightarrow> ((u32 \<times> u32) \<times> state \<times> bytes) option" where
  "replay_read k pf pre a0 a1 a2 r =
    (case r of (s, root) \<Rightarrow> case Fd_try_from (ucast a0) of
       Some StdIn \<Rightarrow> Some ((0, 0), r)
     | Some HintRead \<Rightarrow> Some ((a2, 0), r)
     | Some PreimageRead \<Rightarrow>
         Option.bind (proven_word k root pf (a1 AND 0xFFFFFFFC)) (\<lambda>w.
         Option.bind (pre (preimage_key s)) (\<lambda>dat.
           if length dat < unat (preimage_offset s) then None
           else
             (let n = min (unat a2) (min (4 - unat a1 mod 4) (length dat - unat (preimage_offset s)));
                  out = copy_from_slice (unat a1 mod 4) (take n (drop (unat (preimage_offset s)) dat)) (u32_be w)
              in Some ((of_nat n, 0), s\<lparr>preimage_offset := preimage_offset s + of_nat n\<rparr>,
                       proof_write_root k (a1 AND 0xFFFFFFFC) (from_be out) pf))))
     | _ \<Rightarrow> Some ((0xFFFFFFFF, MIPS_EBADF), r))"

definition replay_write ::
  "hash_fn \<Rightarrow> bytes \<Rightarrow> u32 \<Rightarrow> u32 \<Rightarrow> u32 \<Rightarrow> state \<times> bytes \<Rightarrow> ((u32 \<times> u32) \<times> state \<times> bytes) option" where
  "replay_write k pf a0 a1 a2 r =
    (case r of (s, root) \<Rightarrow> case Fd_try_from (ucast a0) of
       Some Stdout \<Rightarrow> Some ((a2, 0), r)
     | Some StdErr \<Rightarrow> Some ((a2, 0), r)
     | Some HintWrite \<Rightarrow> Some ((a2, 0), r)
     | Some PreimageWrite \<Rightarrow>
         Option.bind (proven_word k root pf (a1 AND 0xFFFFFFFC)) (\<lambda>w.
           let n = min (unat a2) (4 - unat a1 mod 4)
           in Some ((of_nat n, 0), s\<lparr>preimage_key := drop n (preimage_key s) @ take n (drop (unat a1 mod 4) (u32_be w)),
                                      preimage_offset := 0\<rparr>, root))
     | _ \<Rightarrow> Some ((0xFFFFFFFF, MIPS_EBADF), r))"

definition replay_syscall ::
  "hash_fn \<Rightarrow> bytes \<Rightarrow> (bytes \<Rightarrow> bytes option) \<Rightarrow> state \<times> bytes \<Rightarrow> (state \<times> bytes) option" where
  "replay_syscall k pf pre r =
    (case r of (s, root) \<Rightarrow>
       let a0 = registers s ! 4; a1 = registers s ! 5; a2 = registers s ! 6;
           return = (\<lambda>((v0, v1), (s, root)). Some (syscall_return v0 v1 s, root))
       in case Syscall_try_from (registers s ! 2) of
            None \<Rightarrow> return ((0, 0), r)
          | Some Mmap \<Rightarrow> (let (v0, s1) = sys_mmap a0 a1 s in return ((v0, 0), s1, root))
          | Some Brk \<Rightarrow> return ((0x40000000, 0), r)
          | Some Clone \<Rightarrow> return ((1, 0), r)
          | Some ExitGroup \<Rightarrow> Some (s\<lparr>exited := True, exit_code := ucast a0\<rparr>, root)
          | Some Read \<Rightarrow> Option.bind (replay_read k pf pre a0 a1 a2 r) return
          | Some Write \<Rightarrow> Option.bind (replay_write k pf a0 a1 a2 r) return
          | Some Fcntl \<Rightarrow> return (sys_fcntl a0 a1, r))"

text \<open>Loads and stores, and the rest of an instruction.\<close>

definition replay_fetch ::
  "hash_fn \<Rightarrow> bytes \<Rightarrow> bytes \<Rightarrow> u32 \<Rightarrow> u32 \<Rightarrow> u32 \<Rightarrow> (u32 \<times> u32 \<times> u32 \<times> u32) option" where
  "replay_fetch k pf root instruction rs rd_reg =
    (let opcode = drop_bit 26 instruction
     in if 0x20 \<le> opcode then
          (let rs = rs + sign_extend (instruction AND 0xFFFF) 16;
               address = rs AND 0xFFFFFFFC
           in Option.bind (proven_word k root pf address) (\<lambda>w.
                Some (if 0x28 \<le> opcode \<and> opcode \<noteq> 0x30 then (rs, w, address, 0) else (rs, w, 0xFFFFFFFF, rd_reg))))
        else Some (rs, 0, 0xFFFFFFFF, rd_reg))"

definition replay_write_back ::
  "hash_fn \<Rightarrow> bytes \<Rightarrow> u32 \<Rightarrow> u32 \<Rightarrow> u32 \<Rightarrow> u32 \<Rightarrow> state \<times> bytes \<Rightarrow> (state \<times> bytes) option" where
  "replay_write_back k pf instruction store_address rd_reg val r =
    (case r of (s, root) \<Rightarrow>
       let rt_reg = drop_bit 16 instruction AND 0x1F;
           s1 = (if drop_bit 26 instruction = 0x38 \<and> rt_reg \<noteq> 0 then s\<lparr>registers := (registers s)[unat rt_reg := 1]\<rparr> else s);
           root1 = (if store_address \<noteq> 0xFFFFFFFF then proof_write_root k store_address val pf else root)
       in map_option (\<lambda>s2. (s2, root1)) (accept_res (handle_rd rd_reg val True s1)))"

definition replay_dispatch ::
  "hash_fn \<Rightarrow> bytes \<Rightarrow> (bytes \<Rightarrow> bytes option) \<Rightarrow> u32 \<Rightarrow> u32 \<Rightarrow> u32 \<Rightarrow> u32 \<Rightarrow> u32 \<Rightarrow> u32 \<Rightarrow> state \<times> bytes \<Rightarrow> (state \<times> bytes) option" where
  "replay_dispatch k pf pre instruction rs rt store_address rd_reg val r =
    (let func = instruction AND 0x3F;
         special = (drop_bit 26 instruction = 0);
         pure = (\<lambda>f. map_option (\<lambda>s. (s, snd r)) (accept_res (f (fst r))))
     in if special \<and> 8 \<le> func \<and> func \<le> 9 then pure (handle_jump (if func = 9 then rd_reg else 0) rs)
        else if special \<and> func = 0x0A then pure (handle_rd rd_reg val (rt = 0))
        else if special \<and> func = 0x0B then pure (handle_rd rd_reg val (rt \<noteq> 0))
        else if special \<and> func = 0x0C then replay_syscall k pf pre r
        else if special \<and> 0x10 \<le> func \<and> func \<le> 0x1b then pure (handle_hi_lo func rs rt rd_reg)
        else replay_write_back k pf instruction store_address rd_reg val r)"

definition replay_instruction ::
  "hash_fn \<Rightarrow> bytes \<Rightarrow> (bytes \<Rightarrow> bytes option) \<Rightarrow> u32 \<Rightarrow> state \<times> bytes \<Rightarrow> (state \<times> bytes) option" where
  "replay_instruction k pf pre instruction r =
    (let opcode = drop_bit 26 instruction;
         pure = (\<lambda>f. map_option (\<lambda>s. (s, snd r)) (accept_res (f (fst r))))
     in if 2 \<le> opcode \<and> opcode \<le> 3 then
          pure (handle_jump (if opcode = 3 then 31 else 0)
            ((next_pc (fst r) AND 0xF0000000) OR shl32 (instruction AND 0x03FFFFFF) 2))
        else
          (let (rs, rt, rd_reg) = fetch_operands instruction (fst r)
           in if 4 \<le> opcode \<and> opcode < 8 \<or> opcode = 1 then
                pure (handle_branch opcode instruction (drop_bit 16 instruction AND 0x1F) rs)
              else
                Option.bind (replay_fetch k pf (snd r) instruction rs rd_reg) (\<lambda>(rs, w, store_address, rd_reg).
                Option.bind (accept_res (execute instruction rs rt w)) (\<lambda>val.
                  replay_dispatch k pf pre instruction rs rt store_address rd_reg val r))))"

text \<open>The preimage that a witness claims to have read.\<close>

definition claimed :: "step_witness \<Rightarrow> bytes \<Rightarrow> bytes option" where
  "claimed wit key = (if wit_preimage_key wit = Some key then wit_preimage_value wit else None)"

text \<open>The whole step: from the encoding of the pre-state to the encoding of the post-state.\<close>

definition replay :: "hash_fn \<Rightarrow> (bytes \<Rightarrow> bytes option) \<Rightarrow> bytes \<Rightarrow> bytes \<Rightarrow> bytes option" where
  "replay k pre w pf =
    (let (root, s) = decode_witness w
     in if exited s then Some w
        else
          Option.bind (proven_word k root (take 896 pf) (pc s)) (\<lambda>instruction.
          Option.bind (replay_instruction k (drop 896 pf) pre instruction (s\<lparr>step := step s + 1\<rparr>, root)) (\<lambda>(s1, root1).
            Some (witness_of root1 s1))))"

end
