(* ===== verification/Replay_Proof.thy ===== *)
theory Replay_Proof
  imports Replay
begin

text \<open>
  The machine refines the verifier of \<open>Replay\<close>. The abstraction \<open>view\<close> of a machine is its state without
  memory and hints, and the root of its memory; each operation of the machine, run while proofs are
  generated, is matched by the operation of the verifier on the view, with the branch that the machine
  left in \<open>mem_proof\<close>. The results are completeness (the witness of a step replays to the encoding of
  the next state) and soundness (no other witness over the same pre-state replays to anything else).
\<close>

section \<open>Decoding\<close>

lemma slice_at_append: "length xs = s \<Longrightarrow> length ys = e - s \<Longrightarrow> slice_at s e (xs @ ys @ zs) = ys"
  by (simp add: slice_at_def)

lemma decode_registers:
  assumes pre: "length xs = 98" and i: "i < length rs"
  shows "from_be (slice_at (98 + 4 * i) (102 + 4 * i) (xs @ concat (map u32_be rs))) = rs ! i"
proof -
  have "slice_at (98 + 4 * i) (102 + 4 * i) (xs @ concat (map u32_be rs)) = take 4 (drop (4 * i) (concat (map u32_be rs)))"
    using pre by (simp add: slice_at_def)
  also have "\<dots> = map u32_be rs ! i" using i by (intro take_drop_concat) auto
  finally show ?thesis using i by (simp del: be_bytes.simps)
qed

lemma decode_witness_encode:
  assumes root: "length root = 32" and key: "length (preimage_key s) = 32" and regs: "length (registers s) = 32"
  shows "decode_witness (witness_of root s) = (root, strip s)"
proof -
  let ?w = "witness_of root s"
  let ?a = "root @ preimage_key s @ u32_be (preimage_offset s) @ u32_be (pc s) @ u32_be (next_pc s) @
     u32_be (lo s) @ u32_be (hi s) @ u32_be (heap s) @ [exit_code s, of_bool (exited s)] @ u64_be (step s)"
  have a: "length ?a = 98" "?w = ?a @ concat (map u32_be (registers s))" using root key by (simp_all add: witness_of_def)
  have r: "map (\<lambda>i. from_be (slice_at (98 + 4 * i) (102 + 4 * i) ?w)) [0..<32] = registers s"
    using regs decode_registers [OF a(1)] unfolding a(2)
    by (intro nth_equalityI) (simp_all del: upt_rec_numeral be_bytes.simps append_assoc)
  have sl: "slice_at 32 64 ?w = preimage_key s" "slice_at 64 68 ?w = u32_be (preimage_offset s)" "slice_at 68 72 ?w = u32_be (pc s)"
    "slice_at 72 76 ?w = u32_be (next_pc s)" "slice_at 76 80 ?w = u32_be (lo s)" "slice_at 80 84 ?w = u32_be (hi s)"
    "slice_at 84 88 ?w = u32_be (heap s)" "slice_at 90 98 ?w = u64_be (step s)"
    using root key by (simp_all add: witness_of_def slice_at_def)
  have "take 32 ?w = root" using root by (simp add: witness_of_def)
  then show ?thesis
    unfolding decode_witness_def r sl witness_status [OF root key] by (cases s) (simp add: strip_def del: be_bytes.simps)
qed

lemma witness_of_strip: "witness_of root (strip s) = witness_of root s"
  by (simp add: witness_of_def)

section \<open>Handlers\<close>

lemma handlers_strip:
  "handle_jump l d (strip s) = map_sum id strip (handle_jump l d s)"
  "handle_branch opcode instruction rt_reg rs (strip s) = map_sum id strip (handle_branch opcode instruction rt_reg rs s)"
  "handle_rd r val c (strip s) = map_sum id strip (handle_rd r val c s)"
  "handle_hi_lo func rs rt r (strip s) = map_sum id strip (handle_hi_lo func rs rt r s)"
proof -
  show "handle_jump l d (strip s) = map_sum id strip (handle_jump l d s)"
    by (simp add: handle_jump_def Let_def strip_def)
  show "handle_branch opcode instruction rt_reg rs (strip s) = map_sum id strip (handle_branch opcode instruction rt_reg rs s)"
    unfolding handle_branch_def Let_def strip_def by (simp split: if_split)
  show "handle_rd r val c (strip s) = map_sum id strip (handle_rd r val c s)"
    by (simp add: handle_rd_def Let_def strip_def)
  show "handle_hi_lo func rs rt r (strip s) = map_sum id strip (handle_hi_lo func rs rt r s)"
    by (simp add: handle_hi_lo_def hi_lo_result_def Let_def strip_def)
qed

lemma fetch_operands_strip: "fetch_operands instruction (strip s) = fetch_operands instruction s"
  by (simp add: fetch_operands_def Let_def)

lemma syscall_return_strip: "syscall_return x y (strip s) = strip (syscall_return x y s)"
  by (simp add: syscall_return_def strip_def)

lemma sys_mmap_strip: "sys_mmap a0 a1 (strip s) = map_prod id strip (sys_mmap a0 a1 s)"
  by (simp add: sys_mmap_def Let_def strip_def)

lemma accept_res_simps [simp]: "accept_res (Inr x) = Some x" "accept_res (Inl e) = None"
  by (simp_all add: accept_res_def)

section \<open>The view of a machine\<close>

definition view :: "hash_fn \<Rightarrow> ('o, 'w) instrumented \<Rightarrow> state \<times> bytes" where
  "view k v = (strip (vm_state v), mem_root k (vm_memory v))"

lemma fst_view [simp]: "fst (view k v) = strip (vm_state v)"
  by (simp add: view_def)

lemma view_cong:
  assumes "strip (vm_state v') = strip (vm_state v)" and "mem_byte (vm_memory v') = mem_byte (vm_memory v)"
  shows "view k v' = view k v"
  unfolding view_def assms(1) mem_root_cong [OF assms(2)] ..

lemma refreshes_view: "refreshes k v v' \<Longrightarrow> view k v' = view k v"
  by (rule view_cong) (auto simp: strip_def elim!: refreshesE)

lemma on_state_view:
  assumes on: "on_state f v = Inr v'" and f: "\<And>s. f (strip s) = map_sum id strip (f s)"
    and mem: "\<And>s s'. f s = Inr s' \<Longrightarrow> memory s' = memory s"
  shows "map_option (\<lambda>s. (s, snd (view k v))) (accept_res (f (fst (view k v)))) = Some (view k v')"
proof -
  obtain s' where "f (vm_state v) = Inr s'" "v' = v\<lparr>vm_state := s'\<rparr>" using on by (auto simp: on_state_def)
  with f [of "vm_state v"] mem show ?thesis by (auto simp: view_def)
qed

lemma on_state_last: "on_state f v = Inr v' \<Longrightarrow> last_mem_access v' = last_mem_access v"
  by (auto simp: on_state_def)

lemma handler_views:
  "on_state (handle_jump l d) v = Inr v' \<Longrightarrow>
    map_option (\<lambda>s. (s, snd (view k v))) (accept_res (handle_jump l d (fst (view k v)))) = Some (view k v')"
  "on_state (handle_branch opcode instruction rt_reg rs) v = Inr v' \<Longrightarrow>
    map_option (\<lambda>s. (s, snd (view k v))) (accept_res (handle_branch opcode instruction rt_reg rs (fst (view k v)))) = Some (view k v')"
  "on_state (handle_rd r val c) v = Inr v' \<Longrightarrow>
    map_option (\<lambda>s. (s, snd (view k v))) (accept_res (handle_rd r val c (fst (view k v)))) = Some (view k v')"
  "on_state (handle_hi_lo func rs rt r) v = Inr v' \<Longrightarrow>
    map_option (\<lambda>s. (s, snd (view k v))) (accept_res (handle_hi_lo func rs rt r (fst (view k v)))) = Some (view k v')"
  by (rule on_state_view, assumption, rule handlers_strip, erule handlers_keep_memory)+

text \<open>A machine that has tracked its access to \<open>a\<close> holds the branch of \<open>a\<close> in the first memory.\<close>

definition tracked :: "hash_fn \<Rightarrow> memory \<Rightarrow> u32 \<Rightarrow> ('o, 'w) instrumented \<Rightarrow> bool" where
  "tracked k m0 a v \<longleftrightarrow> step_inv k m0 v \<and> mem_proof_enabled v \<and> last_mem_access v = a \<and> unat a mod 4 = 0"

lemma tracked_branch: "tracked k m0 a v \<Longrightarrow> mem_proof v = branch_of k m0 a"
  using aligned_not_max [of a] by (auto simp: tracked_def step_inv_def one_word_def)

lemma proven_word_branch:
  "hash32 k \<Longrightarrow> unat a mod 4 = 0 \<Longrightarrow> proven_word k (mem_root k m) (branch_of k m a) a = Some (mem_word m a)"
  by (simp only: proven_word_def proof_root_branch proof_word_branch simp_thms if_True)

text \<open>A machine before its access: its memory has the contents of the first one.\<close>

definition fresh :: "hash_fn \<Rightarrow> memory \<Rightarrow> ('o, 'w) instrumented \<Rightarrow> bool" where
  "fresh k m0 v \<longleftrightarrow> step_inv k m0 v \<and> mem_proof_enabled v \<and> last_mem_access v = 0xFFFFFFFF"

lemma freshD:
  assumes "fresh k m0 v"
  shows "step_inv k m0 v" "mem_proof_enabled v" "mem_byte (vm_memory v) = mem_byte m0" "snd (view k v) = mem_root k m0"
proof -
  show "step_inv k m0 v" "mem_proof_enabled v" using assms by (simp_all add: fresh_def)
  show b: "mem_byte (vm_memory v) = mem_byte m0" using assms by (simp add: fresh_def step_inv_def one_word_def)
  show "snd (view k v) = mem_root k m0" using mem_root_cong [OF b] by (simp add: view_def)
qed

lemma access_tracked:
  assumes k: "hash32 k" and env: "env_keccak env = k" and fr: "fresh k m0 v" and al: "unat a mod 4 = 0"
    and tr: "track_mem_access env a v = Inr v1" and get: "vm_get_memory a v1 = Inr (x, v2)"
  shows "tracked k m0 a v2" and "refreshes k v v2" and "x = mem_word m0 a" and "mem_byte (vm_memory v2) = mem_byte m0"
proof -
  note t = track_mem_access_ok [OF k env freshD(1) [OF fr] al tr]
  note g = vm_get_memory_ok [OF t(1) get]
  show r: "refreshes k v v2" using t(2) g(2) unfolding refreshes_def by auto
  have "mem_proof_enabled v1" using refreshes_still [OF t(2)] freshD(2) [OF fr] by (simp add: still_def)
  then show "tracked k m0 a v2" using g t(3) al refreshes_still [OF g(2)] by (simp add: tracked_def still_def)
  show "mem_byte (vm_memory v2) = mem_byte m0" using r freshD(3) [OF fr] by (auto elim!: refreshesE)
  have "mem_byte (vm_memory v1) = mem_byte m0" using t(2) freshD(3) [OF fr] by (auto elim!: refreshesE)
  then show "x = mem_word m0 a" using g(3) by (simp add: mem_word_def)
qed

section \<open>Loads and stores\<close>

text \<open>The root after a store, from the branch of the first memory.\<close>

lemma write_root:
  assumes k: "hash32 k" and al: "unat a mod 4 = 0" and m': "mem_byte m' = overwrite (unat a) (u32_be x) (mem_byte m)"
  shows "mem_root k m' = proof_write_root k a x (branch_of k m a)"
proof -
  have "mem_word m' a = x" unfolding mem_word_def m' by (rule word_at_overwrite_same)
  moreover have "mem_byte m' b = mem_byte m b" if "b < unat a \<or> unat a + 4 \<le> b" for b
    using that unfolding m' overwrite_def length_be_bytes by auto
  ultimately show ?thesis using proof_write_root_ok [OF k al, of m' m] by simp
qed

lemma store_view:
  assumes k: "hash32 k" and env: "env_keccak env = k" and tr: "tracked k m0 a v" and m0: "mem_byte (vm_memory v) = mem_byte m0"
    and set: "vm_set_memory env a x v = Inr v'"
  shows "view k v' = (strip (vm_state v), proof_write_root k a x (mem_proof v))" and "last_mem_access v' = a"
    and "v' = set_vm_memory (vm_memory v') v"
proof -
  note d = tr [unfolded tracked_def]
  note w = vm_set_memory_ok [OF env _ _ set, where ?m0.0 = m0]
  have b: "mem_byte (vm_memory v') = overwrite (unat a) (u32_be x) (mem_byte m0)" and v': "v' = set_vm_memory (vm_memory v') v"
    using w(3,4) d m0 by auto
  show "v' = set_vm_memory (vm_memory v') v" by (rule v')
  then have "vm_state v' = (vm_state v)\<lparr>memory := vm_memory v'\<rparr>" by (metis instrumented.select_convs(1) instrumented.surjective instrumented.update_convs(1))
  then have "strip (vm_state v') = strip (vm_state v)" by (metis (no_types) strip_def state.update_convs(1) state.surjective)
  then show "view k v' = (strip (vm_state v), proof_write_root k a x (mem_proof v))"
    unfolding view_def tracked_branch [OF tr] using write_root [OF k _ b] d by simp
  show "last_mem_access v' = a" using d by (subst v') simp
qed

lemma fetch_view:
  assumes k: "hash32 k" and env: "env_keccak env = k" and fr: "fresh k m0 v"
    and fm: "fetch_memory env instruction rs rd_reg v = Inr (x, v')"
  obtains "drop_bit 26 instruction < (0x20 :: u32)" and "v' = v" and "fst (snd (snd x)) = 0xFFFFFFFF"
    and "\<And>pf root. replay_fetch k pf root instruction rs rd_reg = Some x"
  | a where "0x20 \<le> (drop_bit 26 instruction :: u32)" and "tracked k m0 a v'" and "refreshes k v v'"
    and "mem_byte (vm_memory v') = mem_byte m0" and "fst (snd (snd x)) = 0xFFFFFFFF \<or> fst (snd (snd x)) = a"
    and "replay_fetch k (branch_of k m0 a) (mem_root k m0) instruction rs rd_reg = Some x"
proof (cases "0x20 \<le> (drop_bit 26 instruction :: u32)")
  case False
  with fm show thesis by (intro that(1)) (auto simp: fetch_memory_def replay_fetch_def Let_def)
next
  case True
  define a where "a = (rs + sign_extend (instruction AND 0xFFFF) 16) AND 0xFFFFFFFC"
  note al = aligned_mask [of "rs + sign_extend (instruction AND 0xFFFF) 16", folded a_def]
  obtain v1 w where tr: "track_mem_access env a v = Inr v1" and get: "vm_get_memory a v1 = Inr (w, v')"
    and x: "x = (if 0x28 \<le> (drop_bit 26 instruction :: u32) \<and> (drop_bit 26 instruction :: u32) \<noteq> 0x30
        then (rs + sign_extend (instruction AND 0xFFFF) 16, w, a, 0) else (rs + sign_extend (instruction AND 0xFFFF) 16, w, 0xFFFFFFFF, rd_reg))"
    using fm True unfolding fetch_memory_def Let_def a_def by auto
  note t = access_tracked [OF k env fr al tr get]
  have "replay_fetch k (branch_of k m0 a) (mem_root k m0) instruction rs rd_reg = Some x"
    using True proven_word_branch [OF k al, of m0] unfolding x t(3) replay_fetch_def Let_def a_def by simp
  with True t x show thesis by (intro that(2)) auto
qed

lemma write_back_view:
  assumes k: "hash32 k" and env: "env_keccak env = k"
    and store: "store_address = 0xFFFFFFFF \<or> tracked k m0 store_address v \<and> mem_byte (vm_memory v) = mem_byte m0 \<and> pf = mem_proof v"
    and wb: "write_back env instruction store_address rd_reg val v = Inr v'"
  shows "replay_write_back k pf instruction store_address rd_reg val (view k v) = Some (view k v')"
    and "last_mem_access v' = last_mem_access v"
proof -
  let ?rt = "drop_bit 16 instruction AND 0x1F"
  define f :: "state \<Rightarrow> state" where "f = (\<lambda>s. if drop_bit 26 instruction = (0x38 :: u32) \<and> ?rt \<noteq> 0 then s\<lparr>registers := (registers s)[unat ?rt := 1]\<rparr> else s)"
  define v1 where "v1 = v\<lparr>vm_state := f (vm_state v)\<rparr>"
  have f: "f (strip s) = strip (f s)" "memory (f s) = memory s" "length (registers (f s)) = length (registers s)"
    "preimage_key (f s) = preimage_key s" for s by (simp_all add: f_def strip_def)
  have f1: "(if drop_bit 26 instruction = (0x38 :: u32) \<and> ?rt \<noteq> 0
      then v\<lparr>vm_state := (vm_state v)\<lparr>registers := (registers (vm_state v))[unat ?rt := 1]\<rparr>\<rparr> else v) = v1"
    by (simp add: v1_def f_def)
  obtain v2 where wr: "(if store_address \<noteq> 0xFFFFFFFF then
        rbind (track_mem_access env store_address v1) (\<lambda>v2. vm_set_memory env store_address val v2) else Inr v1) = Inr v2"
    and rd: "on_state (handle_rd rd_reg val True) v2 = Inr v'"
    using wb unfolding write_back_def Let_def f1 by (elim rbind_InrE)
  have 2: "view k v2 = (f (strip (vm_state v)), if store_address \<noteq> 0xFFFFFFFF then proof_write_root k store_address val pf else mem_root k (vm_memory v))
      \<and> last_mem_access v2 = last_mem_access v"
  proof (cases "store_address = 0xFFFFFFFF")
    case True
    with wr show ?thesis by (auto simp: view_def v1_def f)
  next
    case False
    with store have tr: "tracked k m0 store_address v1" and m0: "mem_byte (vm_memory v1) = mem_byte m0" and pf: "pf = mem_proof v1"
      by (auto simp: tracked_def v1_def step_inv_def state_ok_def f)
    then have "track_mem_access env store_address v1 = Inr v1" by (simp add: track_mem_access_def tracked_def)
    with wr False have "vm_set_memory env store_address val v1 = Inr v2" by simp
    from store_view [OF k env tr m0 this] pf tr False show ?thesis by (simp add: v1_def f tracked_def)
  qed
  show "last_mem_access v' = last_mem_access v" using on_state_last [OF rd] 2 by simp
  show "replay_write_back k pf instruction store_address rd_reg val (view k v) = Some (view k v')"
    using handler_views(3) [OF rd, where k = k] conjunct1 [OF 2] unfolding replay_write_back_def view_def [of k v] prod.case Let_def
    by (simp add: f_def)
qed

section \<open>System calls\<close>

lemma strip_offset: "strip (s\<lparr>memory := m, preimage_offset := off\<rparr>) = (strip s)\<lparr>preimage_offset := off\<rparr>"
  by (simp add: strip_def)

lemma read_preimage_parts:
  assumes k: "hash32 k" and env: "env_keccak env = k" and fr: "fresh k m0 v" and sys: "sys_read_preimage env a1 a2 v = Inr (v0, v')"
  shows "tracked k m0 (a1 AND 0xFFFFFFFC) v'" and "last_preimage_key v' = preimage_key (vm_state v)"
    and "last_preimage_offset v' = preimage_offset (vm_state v)" and "unat (preimage_offset (vm_state v)) \<le> length (last_preimage v')"
    and "strip (vm_state v') = (strip (vm_state v))\<lparr>preimage_offset := preimage_offset (vm_state v')\<rparr>"
proof -
  let ?a = "a1 AND 0xFFFFFFFC"
  obtain v1 x v2 dat n v3 v4 val l where
    tr: "track_mem_access env ?a v = Inr v1" and get: "vm_get_memory ?a v1 = Inr (x, v2)"
    and rp: "read_preimage env (preimage_key (vm_state v2)) (preimage_offset (vm_state v2)) v2 = Inr ((dat, n), v3)"
    and set: "vm_set_memory env ?a val v3 = Inr v4"
    and v': "v' = v4\<lparr>vm_state := (vm_state v4)\<lparr>preimage_offset := preimage_offset (vm_state v4) + of_nat l\<rparr>\<rparr>"
    using sys by (auto simp: sys_read_preimage_def Let_def)
  note t = access_tracked [OF k env fr aligned_mask tr get]
  note r = read_preimage_still [OF rp] and e = read_preimage_eq [OF rp]
  obtain m where m: "v4 = set_vm_memory m v3" using set by (auto simp: vm_set_memory_def)
  obtain m2 where m2: "vm_state v2 = (vm_state v)\<lparr>memory := m2\<rparr>" using t(2) by (auto elim: refreshesE)
  have "step_inv k m0 v'" using sys_read_preimage_ok [OF k env freshD(1) [OF fr] sys] by simp
  then show "tracked k m0 ?a v'" using t(1) v' m r by (simp add: tracked_def)
  show "last_preimage_key v' = preimage_key (vm_state v)" "last_preimage_offset v' = preimage_offset (vm_state v)"
    "unat (preimage_offset (vm_state v)) \<le> length (last_preimage v')" using v' m e m2 by simp_all
  show "strip (vm_state v') = (strip (vm_state v))\<lparr>preimage_offset := preimage_offset (vm_state v')\<rparr>"
    using v' m r(1) m2 by (simp add: strip_def)
qed

lemma read_preimage_view:
  assumes k: "hash32 k" and env: "env_keccak env = k" and fr: "fresh k m0 v" and sys: "sys_read_preimage env a1 a2 v = Inr (v0, v')"
    and fd: "Fd_try_from (ucast a0) = Some PreimageRead" and pre: "pre (preimage_key (vm_state v)) = Some (last_preimage v')"
  shows "replay_read k (mem_proof v') pre a0 a1 a2 (view k v) = Some ((v0, 0), view k v')"
proof -
  let ?a = "a1 AND 0xFFFFFFFC" and ?s = "vm_state v" and ?d = "last_preimage v'"
  let ?off = "unat (preimage_offset ?s)"
  let ?n = "min (unat a2) (min (4 - unat a1 mod 4) (length ?d - ?off))"
  let ?out = "copy_from_slice (unat a1 mod 4) (take ?n (drop ?off ?d)) (u32_be (mem_word m0 ?a))"
  note p = read_preimage_parts [OF k env fr sys] and e = sys_read_preimage_eq [OF k env freshD(1) [OF fr] sys]
  have al: "unat ?a mod 4 = 0" by (rule aligned_mask)
  have pf: "mem_proof v' = branch_of k m0 ?a" by (rule tracked_branch [OF p(1)])
  have sz: "length (take ?n (drop ?off ?d)) \<le> 4 - unat a1 mod 4" by simp
  note be = word_with_bytes [OF sz, of "mem_word m0 ?a"]
  have "mem_byte (vm_memory v') = overwrite (unat ?a) (u32_be (from_be ?out :: u32)) (mem_byte m0)"
    unfolding be using e freshD(3) [OF fr] word_bytes_write [OF sz, of m0] by simp
  then have root: "mem_root k (vm_memory v') = proof_write_root k ?a (from_be ?out) (branch_of k m0 ?a)" by (rule write_root [OF k al])
  have v0: "v0 = of_nat ?n" using e by (metis of_nat_unat ucast_id)
  have view: "view k v = (strip ?s, mem_root k m0)" using freshD(4) [OF fr] by (simp add: view_def)
  have "view k v' = ((strip ?s)\<lparr>preimage_offset := preimage_offset ?s + of_nat ?n\<rparr>, proof_write_root k ?a (from_be ?out) (branch_of k m0 ?a))"
    unfolding view_def p(5) root using e by simp
  then show ?thesis
    using fd pre p(4) proven_word_branch [OF k al, of m0] unfolding pf view v0 replay_read_def Let_def prod.case by simp
qed

lemma write_preimage_view:
  assumes k: "hash32 k" and env: "env_keccak env = k" and fr: "fresh k m0 v" and sys: "sys_write_preimage env a1 a2 v = Inr (v0, v')"
    and fd: "Fd_try_from (ucast a0) = Some PreimageWrite"
  shows "replay_write k (mem_proof v') a0 a1 a2 (view k v) = Some ((v0, 0), view k v')" and "last_mem_access v' = a1 AND 0xFFFFFFFC"
proof -
  let ?a = "a1 AND 0xFFFFFFFC" and ?n = "min (unat a2) (4 - unat a1 mod 4)"
  have al: "unat ?a mod 4 = 0" by (rule aligned_mask)
  obtain v1 x v2 key where tr: "track_mem_access env ?a v = Inr v1" and get: "vm_get_memory ?a v1 = Inr (x, v2)"
    and v': "v' = v2\<lparr>vm_state := (vm_state v2)\<lparr>preimage_key := key, preimage_offset := 0\<rparr>\<rparr>"
    using sys unfolding sys_write_preimage_def Let_def by auto
  note t = access_tracked [OF k env fr al tr get] and e = sys_write_preimage_eq [OF k env freshD(1) [OF fr] sys]
  obtain m2 where m2: "vm_state v2 = (vm_state v)\<lparr>memory := m2\<rparr>" "mem_byte m2 = mem_byte m0"
    using t(2,4) by (auto elim!: refreshesE)
  have key: "key = drop ?n (preimage_key (vm_state v)) @ take ?n (drop (unat a1 mod 4) (u32_be (mem_word m0 ?a)))"
    using e v' word_bytes_range [of ?n a1 m0] mem_range_cong [OF freshD(3) [OF fr]] by simp
  have pf: "mem_proof v' = branch_of k m0 ?a" using tracked_branch [OF t(1)] v' by simp
  have "view k v' = ((strip (vm_state v))\<lparr>preimage_key := key, preimage_offset := 0\<rparr>, mem_root k m0)"
    using mem_root_cong [OF m2(2)] v' m2(1) by (simp add: view_def strip_def)
  moreover have "v0 = of_nat ?n" using e by (metis of_nat_unat ucast_id)
  moreover have "view k v = (strip (vm_state v), mem_root k m0)" using freshD(4) [OF fr] by (simp add: view_def)
  ultimately show "replay_write k (mem_proof v') a0 a1 a2 (view k v) = Some ((v0, 0), view k v')"
    using fd proven_word_branch [OF k al, of m0] unfolding pf key replay_write_def Let_def prod.case by simp
  show "last_mem_access v' = ?a" using t(1) v' by (simp add: tracked_def)
qed

text \<open>The preimage that a machine shows after a step: the one that the step read, if it read one.\<close>

definition shown :: "('o, 'w) instrumented \<Rightarrow> bytes \<Rightarrow> bytes option" where
  "shown v key = (if last_preimage_offset v \<noteq> 0xFFFFFFFF \<and> key = last_preimage_key v then Some (last_preimage v) else None)"

lemma sys_read_view:
  assumes k: "hash32 k" and env: "env_keccak env = k" and fr: "fresh k m0 v" and short: "length (last_preimage v') < 0xFFFFFFFF"
    and sys: "sys_read env a0 a1 a2 v = Inr (r, v')"
  shows "replay_read k (mem_proof v') (shown v') a0 a1 a2 (view k v) = Some (r, view k v')"
proof (cases "Fd_try_from (ucast a0) = Some PreimageRead")
  case True
  then obtain v0 where v0: "sys_read_preimage env a1 a2 v = Inr (v0, v')" "r = (v0, 0)" using sys by (auto simp: sys_read_def)
  have "preimage_offset (vm_state v) \<noteq> 0xFFFFFFFF"
    using read_preimage_parts(4) [OF k env fr v0(1)] short by auto
  then have "shown v' (preimage_key (vm_state v)) = Some (last_preimage v')"
    using read_preimage_parts(2,3) [OF k env fr v0(1)] by (simp add: shown_def)
  with read_preimage_view [OF k env fr v0(1) True] v0(2) show ?thesis by simp
next
  case False
  with sys show ?thesis by (auto simp: sys_read_def replay_read_def view_def split: option.splits Fd.splits)
qed

lemma output_view:
  assumes ok: "mem_ok k (vm_memory v)" and io: "io_copy wr (reader_new (vm_memory v) a1 a2) w = Inr (rd, w')"
    and u: "vm_state u = (vm_state v)\<lparr>memory := rd_memory rd\<rparr>"
  shows "view k u = view k v"
proof -
  obtain lp where "rd_memory rd = (vm_memory v)\<lparr>last_page := lp\<rparr>" by (rule io_copy_result [OF ok io])
  with u show ?thesis by (intro view_cong) (simp_all add: mem_byte_fields strip_def)
qed

lemma hint_view:
  assumes ok: "mem_ok k (vm_memory v)" and sys: "sys_write_hint env a1 a2 v = Inr v'"
  shows "view k v' = view k v"
proof -
  obtain bs rd lh orc where rd: "read_to_end (unat a2) [] (reader_new (vm_memory v) a1 a2) = Inr (bs, rd)"
    and v': "v' = v\<lparr>preimage_oracle := orc, vm_state := (vm_state v)\<lparr>memory := rd_memory rd, last_hint := lh\<rparr>\<rparr>"
    using sys by (auto simp: sys_write_hint_def)
  obtain lp where "rd_memory rd = (vm_memory v)\<lparr>last_page := lp\<rparr>" by (rule read_to_end_result [OF ok rd])
  with v' show ?thesis by (intro view_cong) (simp_all add: mem_byte_fields strip_def)
qed

lemma sys_write_view:
  assumes k: "hash32 k" and env: "env_keccak env = k" and fr: "fresh k m0 v" and sys: "sys_write env a0 a1 a2 v = Inr (r, v')"
  shows "replay_write k (mem_proof v') a0 a1 a2 (view k v) = Some (r, view k v')"
proof (cases "Fd_try_from (ucast a0) = Some PreimageWrite")
  case True
  then obtain v0 where v0: "sys_write_preimage env a1 a2 v = Inr (v0, v')" "r = (v0, 0)" using sys by (auto simp: sys_write_def)
  with write_preimage_view(1) [OF k env fr v0(1) True] show ?thesis by simp
next
  case False
  note ok = step_inv_mem [OF freshD(1) [OF fr]]
  have "view k v' = view k v"
    using False sys by (auto simp: sys_write_def intro: output_view [OF ok] hint_view [OF ok] split: option.splits Fd.splits)
  with False sys show ?thesis by (auto simp: sys_write_def replay_write_def view_def split: option.splits Fd.splits)
qed

lemma syscall_return_view:
  "view k (u\<lparr>vm_state := syscall_return x y (vm_state u)\<rparr>) = (syscall_return x y (fst (view k u)), snd (view k u))"
  by (simp add: view_def syscall_return_strip) (simp add: syscall_return_def)

lemma handle_syscall_view:
  assumes k: "hash32 k" and env: "env_keccak env = k" and fr: "fresh k m0 v" and short: "length (last_preimage v') < 0xFFFFFFFF"
    and sys: "handle_syscall env v = Inr v'"
  shows "replay_syscall k (mem_proof v') (shown v') (view k v) = Some (view k v')"
proof -
  let ?s = "vm_state v"
  note d = handle_syscall_def replay_syscall_def Let_def
  have regs: "registers (fst (view k v)) = registers ?s" by simp
  have split: "view k v = (strip ?s, snd (view k v))" by (simp add: view_def)
  have ret: "shown (u\<lparr>vm_state := s\<rparr>) = shown u" for u :: "('a, 'b) instrumented" and s by (simp add: shown_def fun_eq_iff)
  show ?thesis
  proof (cases "Syscall_try_from (registers ?s ! 2)")
    case None
    with sys show ?thesis by (subst split) (auto simp: d syscall_return_view)
  next
    case (Some sc)
    show ?thesis
    proof (cases sc)
      case Read
      then obtain x y u where u: "sys_read env (registers ?s ! 4) (registers ?s ! 5) (registers ?s ! 6) v = Inr ((x, y), u)"
          "v' = u\<lparr>vm_state := syscall_return x y (vm_state u)\<rparr>"
        using sys Some by (auto simp: d)
      have "length (last_preimage u) < 0xFFFFFFFF" using short u(2) by simp
      from sys_read_view [OF k env fr this u(1)] Some Read show ?thesis
        unfolding d u(2) syscall_return_view ret by (subst (1) split) (simp add: view_def)
    next
      case Write
      then obtain x y u where u: "sys_write env (registers ?s ! 4) (registers ?s ! 5) (registers ?s ! 6) v = Inr ((x, y), u)"
          "v' = u\<lparr>vm_state := syscall_return x y (vm_state u)\<rparr>"
        using sys Some by (auto simp: d)
      from sys_write_view [OF k env fr u(1)] Some Write show ?thesis
        unfolding d u(2) syscall_return_view ret by (subst (1) split) (simp add: view_def)
    next
      case Mmap
      obtain x s1 where x: "sys_mmap (registers ?s ! 4) (registers ?s ! 5) ?s = (x, s1)" by (rule prod.exhaust)
      then have "memory s1 = memory ?s" by (auto simp: sys_mmap_def Let_def split: if_splits)
      with Some Mmap sys x show ?thesis
        by (auto simp: d view_def sys_mmap_strip syscall_return_strip) (simp_all add: syscall_return_def)
    qed (use sys Some in \<open>auto simp: d view_def syscall_return_strip strip_def syscall_return_def split: prod.splits\<close>)
  qed
qed

section \<open>Instructions\<close>

lemma special_small: "drop_bit 26 instruction = (0 :: u32) \<Longrightarrow> \<not> 0x20 \<le> (drop_bit 26 instruction :: u32)"
  by simp

lemma dispatch_fresh_view:
  assumes k: "hash32 k" and env: "env_keccak env = k" and fr: "fresh k m0 v" and short: "length (last_preimage v') < 0xFFFFFFFF"
    and d: "dispatch env instruction rs rt 0xFFFFFFFF rd_reg val v = Inr v'"
  shows "replay_dispatch k (mem_proof v') (shown v') instruction rs rt 0xFFFFFFFF rd_reg val (view k v) = Some (view k v')"
  using d write_back_view(1) [OF k env disjI1 [OF refl], of instruction rd_reg val v v' "mem_proof v'"] handle_syscall_view [OF k env fr short]
    handler_views(1,3,4) [where v = v and v' = v' and k = k]
  unfolding dispatch_def replay_dispatch_def Let_def by (auto split: if_split_asm)

lemma dispatch_tracked_view:
  assumes k: "hash32 k" and env: "env_keccak env = k" and tr: "tracked k m0 a v" and m0: "mem_byte (vm_memory v) = mem_byte m0"
    and run: "\<not> exited (vm_state v)" and sa: "store_address = 0xFFFFFFFF \<or> store_address = a"
    and op: "0x20 \<le> (drop_bit 26 instruction :: u32)" and d: "dispatch env instruction rs rt store_address rd_reg val v = Inr v'"
  shows "replay_dispatch k (branch_of k m0 a) pre instruction rs rt store_address rd_reg val (view k v) = Some (view k v')"
    and "tracked k m0 a v'"
proof -
  have wb: "write_back env instruction store_address rd_reg val v = Inr v'"
    using d op unfolding dispatch_def Let_def by (auto split: if_split_asm)
  have st: "store_address = 0xFFFFFFFF \<or> tracked k m0 store_address v \<and> mem_byte (vm_memory v) = mem_byte m0 \<and> branch_of k m0 a = mem_proof v"
    using sa tr m0 tracked_branch [OF tr] by auto
  note w = write_back_view [OF k env st wb]
  have inv: "step_inv k m0 v" and al: "store_address \<noteq> 0xFFFFFFFF \<Longrightarrow> unat store_address mod 4 = 0" using tr sa by (auto simp: tracked_def)
  show "tracked k m0 a v'" using write_back_ok [OF k env inv run al wb] w(2) tr by (simp add: tracked_def)
  show "replay_dispatch k (branch_of k m0 a) pre instruction rs rt store_address rd_reg val (view k v) = Some (view k v')"
    using w(1) special_small op unfolding replay_dispatch_def Let_def by auto
qed

lemma step_instruction_view:
  assumes k: "hash32 k" and env: "env_keccak env = k" and fr: "fresh k m0 v" and short: "length (last_preimage v') < 0xFFFFFFFF"
    and run: "\<not> exited (vm_state v)" and st: "step_instruction env instruction v = Inr v'"
  shows "replay_instruction k (mem_proof v') (shown v') instruction (view k v) = Some (view k v')"
proof -
  let ?op = "drop_bit 26 instruction :: u32"
  have np: "next_pc (fst (view k v)) = next_pc (vm_state v)" by simp
  obtain rs rt rd where f: "fetch_operands instruction (vm_state v) = (rs, rt, rd)" by (rule prod_cases3)
  have f': "fetch_operands instruction (fst (view k v)) = (rs, rt, rd)" using f by (simp add: fetch_operands_strip)
  consider (jump) "2 \<le> ?op \<and> ?op \<le> 3" | (branch) "\<not> (2 \<le> ?op \<and> ?op \<le> 3)" "4 \<le> ?op \<and> ?op < 8 \<or> ?op = 1"
    | (other) "\<not> (2 \<le> ?op \<and> ?op \<le> 3)" "\<not> (4 \<le> ?op \<and> ?op < 8 \<or> ?op = 1)" by blast
  then show ?thesis
  proof cases
    case jump
    with st handler_views(1) [where v = v and v' = v' and k = k] show ?thesis
      unfolding step_instruction_def replay_instruction_def Let_def np by simp
  next
    case branch
    then have "on_state (handle_branch ?op instruction (drop_bit 16 instruction AND 0x1F) rs) v = Inr v'"
      using st unfolding step_instruction_def Let_def f by auto
    with branch handler_views(2) [where k = k] show ?thesis
      unfolding replay_instruction_def Let_def f' by (simp only: if_False if_True prod.case)
  next
    case other
    then obtain rs' x sa rd' v1 val where fm: "fetch_memory env instruction rs rd v = Inr ((rs', x, sa, rd'), v1)"
      and ex: "execute instruction rs' rt x = Inr val" and d: "dispatch env instruction rs' rt sa rd' val v1 = Inr v'"
      using st unfolding step_instruction_def Let_def f by auto
    have goal: ?thesis if "replay_fetch k (mem_proof v') (mem_root k m0) instruction rs rd = Some (rs', x, sa, rd')"
      and "replay_dispatch k (mem_proof v') (shown v') instruction rs' rt sa rd' val (view k v) = Some (view k v')"
      using that other ex unfolding replay_instruction_def Let_def f' freshD(4) [OF fr]
      by (simp only: if_False prod.case bind.bind_lunit accept_res_simps)
    show ?thesis
    proof (rule fetch_view [OF k env fr fm])
      assume "v1 = v" and "fst (snd (snd (rs', x, sa, rd'))) = 0xFFFFFFFF"
        and "\<And>pf root. replay_fetch k pf root instruction rs rd = Some (rs', x, sa, rd')"
      with dispatch_fresh_view [OF k env fr short] d show ?thesis by (intro goal) simp_all
    next
      fix a
      assume op: "0x20 \<le> ?op" and tr: "tracked k m0 a v1" and r: "refreshes k v v1" and m0: "mem_byte (vm_memory v1) = mem_byte m0"
        and sa: "fst (snd (snd (rs', x, sa, rd'))) = 0xFFFFFFFF \<or> fst (snd (snd (rs', x, sa, rd'))) = a"
        and fetch: "replay_fetch k (branch_of k m0 a) (mem_root k m0) instruction rs rd = Some (rs', x, sa, rd')"
      have run1: "\<not> exited (vm_state v1)" using run stillD(3) [OF refreshes_still [OF r]] by simp
      from sa have sa: "sa = 0xFFFFFFFF \<or> sa = a" by simp
      note t = dispatch_tracked_view [OF k env tr m0 run1 sa op d]
      from t(1) [of "shown v'"] fetch tracked_branch [OF t(2)] refreshes_view [OF r] show ?thesis by (intro goal) simp_all
    qed
  qed
qed

section \<open>Steps\<close>

lemma inner_step_view:
  assumes k: "hash32 k" and env: "env_keccak env = k" and fr: "fresh k m0 v" and short: "length (last_preimage v') < 0xFFFFFFFF"
    and run: "\<not> exited (vm_state v)" and st: "inner_step env v = Inr v'"
  shows "replay_instruction k (mem_proof v') (shown v') (mem_word m0 (pc (vm_state v)))
      ((strip (vm_state v))\<lparr>step := step (vm_state v) + 1\<rparr>, mem_root k m0) = Some (view k v')"
proof -
  let ?v0 = "v\<lparr>vm_state := (vm_state v)\<lparr>step := step (vm_state v) + 1\<rparr>\<rparr>"
  have fr0: "fresh k m0 ?v0" using fr by (auto simp: fresh_def step_inv_def state_ok_def)
  obtain instruction v1 where get: "vm_get_memory (pc (vm_state ?v0)) ?v0 = Inr (instruction, v1)"
    and rest: "step_instruction env instruction v1 = Inr v'"
    using st run by (auto simp: inner_step_def)
  note g = vm_get_memory_ok [OF freshD(1) [OF fr0] get]
  obtain m where m: "vm_state v1 = (vm_state ?v0)\<lparr>memory := m\<rparr>" "mem_proof_enabled v1 = mem_proof_enabled ?v0" by (rule refreshesE [OF g(2)])
  have fr1: "fresh k m0 v1" using g(1,5) m(2) fr0 by (simp add: fresh_def)
  have i: "instruction = mem_word m0 (pc (vm_state v))" using g(3) freshD(3) [OF fr0] by (simp add: mem_word_def)
  have "view k v1 = view k ?v0" by (rule refreshes_view [OF g(2)])
  also have "\<dots> = (strip (vm_state ?v0), mem_root k m0)" using freshD(4) [OF fr0] by (simp add: view_def)
  finally have "view k v1 = ((strip (vm_state v))\<lparr>step := step (vm_state v) + 1\<rparr>, mem_root k m0)" by (simp add: strip_def)
  with step_instruction_view [OF k env fr1 short _ rest] m(1) run i show ?thesis by simp
qed

lemma claimed_shown:
  assumes "wit_preimage_key w0 = None"
  shows "claimed (complete_witness v w0) = shown v"
  using assms by (auto simp: claimed_def shown_def complete_witness_def Let_def fun_eq_iff)

lemma vm_step_replay:
  assumes k: "hash32 k" and env: "env_keccak env = k" and ok: "state_ok k (vm_state v)" and len: "length (mem_proof v) = 896"
    and short: "length (last_preimage v') < 0xFFFFFFFF" and st: "vm_step env True v = Inr (Some wit, v')"
  shows "replay k (claimed wit) (wit_state wit) (wit_mem_proof wit) = Some (witness_of (mem_root k (vm_memory v')) (vm_state v'))"
    and "wit_state wit = witness_of (mem_root k (vm_memory v)) (vm_state v)" and "length (wit_mem_proof wit) = 1792"
proof -
  let ?v0 = "v\<lparr>mem_proof_enabled := True, last_mem_access := 0xFFFFFFFF, last_preimage_offset := 0xFFFFFFFF\<rparr>"
  let ?r = "mem_root k (vm_memory v)" and ?b = "branch_of k (vm_memory v) (pc (vm_state v))"
  let ?w0 = "\<lparr>wit_state = witness_of ?r (vm_state v), wit_mem_proof = ?b @ replicate 896 0,
        wit_preimage_key = None, wit_preimage_value = None, wit_preimage_offset = None\<rparr>"
  have ok0: "state_ok k (vm_state ?v0)" using ok by simp
  obtain m1 where b: "begin_witness env ?v0 = Inr (?w0, set_vm_memory m1 ?v0)" "mem_ok k m1" "mem_byte m1 = mem_byte (vm_memory v)"
    by (rule begin_witness_ok [OF k env ok0]) simp
  let ?v1 = "set_vm_memory m1 ?v0"
  have s: "inner_step env ?v1 = Inr v'" and w: "wit = complete_witness v' ?w0"
    using st b(1) unfolding vm_step_def Let_def max_u32 by auto
  show ws: "wit_state wit = witness_of ?r (vm_state v)" using w by simp
  have cl: "claimed wit = shown v'" unfolding w by (rule claimed_shown) simp
  have len': "length (mem_proof v') = 896" by (rule vm_step_ok(2) [OF k env ok len st])
  have pf: "wit_mem_proof wit = ?b @ mem_proof v'" using copy_append [OF length_branch_of [OF k]] len' w by simp
  show "length (wit_mem_proof wit) = 1792" using pf len' length_branch_of [OF k] by simp
  have fr: "fresh k (vm_memory v) ?v1"
    using b(2,3) state_okD [OF ok] len by (simp add: fresh_def step_inv_def state_ok_def one_word_def)
  note dec = decode_witness_encode [OF length_mem_root [OF k] state_okD(2,3) [OF ok]]
  show "replay k (claimed wit) (wit_state wit) (wit_mem_proof wit) = Some (witness_of (mem_root k (vm_memory v')) (vm_state v'))"
  proof (cases "exited (vm_state v)")
    case True
    then have "v' = ?v1" using s inner_step_exited [of ?v1 env] by simp
    then have "witness_of (mem_root k (vm_memory v')) (vm_state v') = witness_of ?r (vm_state v)"
      using mem_root_cong [OF b(3)] by (simp add: witness_of_def)
    with True show ?thesis by (simp add: replay_def ws dec)
  next
    case False
    then have run: "\<not> exited (vm_state ?v1)" by simp
    have i: "replay_instruction k (mem_proof v') (shown v') (mem_word (vm_memory v) (pc (vm_state v)))
        ((strip (vm_state v))\<lparr>step := step (vm_state v) + 1\<rparr>, ?r) = Some (view k v')"
      using inner_step_view [OF k env fr short run s] by (simp add: strip_def)
    have al: "unat (pc (vm_state v)) mod 4 = 0" using inner_step_aligned [OF run s] by simp
    have "take 896 (wit_mem_proof wit) = ?b" "drop 896 (wit_mem_proof wit) = mem_proof v'" using pf length_branch_of [OF k] by simp_all
    then show ?thesis
      using False i proven_word_branch [OF k al, of "vm_memory v"] by (simp add: replay_def ws dec cl view_def witness_of_strip)
  qed
qed

section \<open>The verifier is deterministic up to collisions\<close>

text \<open>More preimages do not change what is accepted.\<close>

lemma replay_mono:
  assumes "pre \<subseteq>\<^sub>m pre'" and "replay k pre w pf = Some w'"
  shows "replay k pre' w pf = Some w'"
proof -
  have pre: "pre' key = Some dat" if "pre key = Some dat" for key dat using assms(1) that by (metis domI map_le_def)
  have rd: "replay_read k pf pre' a0 a1 a2 r = Some x" if "replay_read k pf pre a0 a1 a2 r = Some x" for k pf a0 a1 a2 r x
    using that pre unfolding replay_read_def Let_def
    by (auto simp: bind_eq_Some_conv split: prod.splits option.splits Fd.splits if_split_asm)
  have sys: "replay_syscall k pf pre' r = Some x" if "replay_syscall k pf pre r = Some x" for k pf r x
    using that rd unfolding replay_syscall_def Let_def by (auto simp: bind_eq_Some_conv split: prod.splits option.splits Syscall.splits)
  have dis: "replay_dispatch k pf pre' i rs rt sa rd val r = Some x" if "replay_dispatch k pf pre i rs rt sa rd val r = Some x"
    for k pf i rs rt sa rd val r x
    using that sys unfolding replay_dispatch_def Let_def by (auto split: if_split_asm)
  have ins: "replay_instruction k pf pre' i r = Some x" if "replay_instruction k pf pre i r = Some x" for k pf i r x
    using that unfolding replay_instruction_def Let_def
    by (auto simp: bind_eq_Some_conv split: if_split_asm prod.splits intro: dis)
  show ?thesis
    using assms(2) unfolding replay_def Let_def
    by (auto simp: bind_eq_Some_conv split: if_split_asm prod.splits dest!: ins)
qed

text \<open>Two branches that the verifier accepts for the same root, at the address that it reads.\<close>

definition rivals :: "hash_fn \<Rightarrow> bytes \<Rightarrow> bytes \<Rightarrow> bytes \<Rightarrow> bool" where
  "rivals k root pf pf' \<longleftrightarrow> pf \<noteq> pf' \<and> (\<exists>a. proof_root k a pf = root \<and> proof_root k a pf' = root)"

lemma proven_word_Some: "proven_word k root pf a = Some w \<longleftrightarrow> unat a mod 4 = 0 \<and> proof_root k a pf = root \<and> proof_word a pf = w"
  by (simp add: proven_word_def)

lemma proven_word_unique:
  assumes "\<not> rivals k root pf pf'" and "proven_word k root pf a = Some w" and "proven_word k root pf' a = Some w'"
  shows "pf' = pf"
  using assms by (auto simp: rivals_def proven_word_Some)

lemma replay_syscall_unique:
  assumes r: "\<not> rivals k (snd r) pf pf'" and 1: "replay_syscall k pf pre r = Some x" and 2: "replay_syscall k pf' pre r = Some x'"
  shows "x' = x"
proof (cases "pf' = pf")
  case True
  with 1 2 show ?thesis by simp
next
  case False
  obtain s root where sr: "r = (s, root)" by (rule prod.exhaust)
  note u = proven_word_unique [OF r]
  have rd: "y' = y" if "replay_read k pf pre a0 a1 a2 (s, root) = Some y" "replay_read k pf' pre a0 a1 a2 (s, root) = Some y'" for a0 a1 a2 y y'
    using that u False unfolding replay_read_def sr by (auto simp: bind_eq_Some_conv split: option.splits Fd.splits)
  have wr: "y' = y" if "replay_write k pf a0 a1 a2 (s, root) = Some y" "replay_write k pf' a0 a1 a2 (s, root) = Some y'" for a0 a1 a2 y y'
    using that u False unfolding replay_write_def sr by (auto simp: bind_eq_Some_conv split: option.splits Fd.splits)
  show ?thesis
    using 1 2 unfolding replay_syscall_def Let_def sr
    by (auto simp: bind_eq_Some_conv split: option.splits Syscall.splits dest: rd wr)
qed

lemma replay_fetch_unique:
  assumes r: "\<not> rivals k root pf pf'" and 1: "replay_fetch k pf root i rs rd = Some x" and 2: "replay_fetch k pf' root i rs rd = Some x'"
  shows "x' = x" and "fst (snd (snd x)) \<noteq> 0xFFFFFFFF \<Longrightarrow> pf' = pf"
proof -
  note u = proven_word_unique [OF r]
  show "fst (snd (snd x)) \<noteq> 0xFFFFFFFF \<Longrightarrow> pf' = pf"
    using 1 2 unfolding replay_fetch_def Let_def by (auto simp: bind_eq_Some_conv split: if_split_asm dest: u)
  show "x' = x"
  proof (cases "pf' = pf")
    case True
    with 1 2 show ?thesis by simp
  next
    case False
    with 1 2 show ?thesis unfolding replay_fetch_def Let_def by (auto simp: bind_eq_Some_conv split: if_split_asm dest: u)
  qed
qed

lemma replay_instruction_unique:
  assumes r: "\<not> rivals k (snd r) pf pf'"
    and 1: "replay_instruction k pf pre i r = Some x" and 2: "replay_instruction k pf' pre i r = Some x'"
  shows "x' = x"
proof -
  let ?op = "drop_bit 26 i :: u32"
  obtain rs rt rd where f: "fetch_operands i (fst r) = (rs, rt, rd)" by (rule prod_cases3)
  show ?thesis
  proof (cases "2 \<le> ?op \<and> ?op \<le> 3 \<or> (4 \<le> ?op \<and> ?op < 8 \<or> ?op = 1)")
    case True
    then have "replay_instruction k pf pre i r = replay_instruction k pf' pre i r"
      unfolding replay_instruction_def Let_def f
      by (cases "2 \<le> ?op \<and> ?op \<le> 3") (simp_all only: simp_thms if_True if_False prod.case)
    with 1 2 show ?thesis by simp
  next
    case False
    obtain rs' w sa rd' val where p: "replay_fetch k pf (snd r) i rs rd = Some (rs', w, sa, rd')" "accept_res (execute i rs' rt w) = Some val"
        "replay_dispatch k pf pre i rs' rt sa rd' val r = Some x"
      using 1 False unfolding replay_instruction_def Let_def f by (auto simp: bind_eq_Some_conv)
    obtain y where q: "replay_fetch k pf' (snd r) i rs rd = Some y"
      using 2 False unfolding replay_instruction_def Let_def f by (auto simp: bind_eq_Some_conv)
    note u = replay_fetch_unique [OF r p(1) q]
    have d: "replay_dispatch k pf' pre i rs' rt sa rd' val r = Some x'"
      using 2 False q p(2) unfolding u(1) replay_instruction_def Let_def f by (auto simp: bind_eq_Some_conv)
    show ?thesis
    proof (cases "sa = 0xFFFFFFFF")
      case True
      with p(3) d replay_syscall_unique [OF r] show ?thesis
        unfolding replay_dispatch_def replay_write_back_def Let_def by (auto split: if_split_asm prod.splits)
    next
      case False
      with u(2) p(3) d show ?thesis by simp
    qed
  qed
qed

text \<open>Rival branches are a collision of the hash.\<close>

lemma rivals_collision:
  assumes "hash32 k" and "length pf = 896" and "length pf' = 896" and "rivals k root pf pf'"
  shows "\<exists>a. \<not> inj_on k (proof_inputs k a pf \<union> proof_inputs k a pf')"
  using assms proof_root_inject [OF assms(2,3,1)] by (metis rivals_def)

lemma replay_unique:
  assumes k: "hash32 k" and len: "length pf = 1792" "length pf' = 1792"
    and 1: "replay k pre w pf = Some x" and 2: "replay k pre w pf' = Some x'"
  shows "x' = x \<or> (\<exists>a. \<not> inj_on k (proof_inputs k a (take 896 pf) \<union> proof_inputs k a (take 896 pf')))
    \<or> (\<exists>a. \<not> inj_on k (proof_inputs k a (drop 896 pf) \<union> proof_inputs k a (drop 896 pf')))"
proof -
  obtain root s where d: "decode_witness w = (root, s)" by (rule prod.exhaust)
  have "x' = x" if r: "\<not> rivals k root (take 896 pf) (take 896 pf')" "\<not> rivals k root (drop 896 pf) (drop 896 pf')"
  proof (cases "exited s")
    case True
    with 1 2 show ?thesis unfolding replay_def Let_def d by simp
  next
    case False
    obtain i s1 root1 where p: "proven_word k root (take 896 pf) (pc s) = Some i"
        "replay_instruction k (drop 896 pf) pre i (s\<lparr>step := step s + 1\<rparr>, root) = Some (s1, root1)" "x = witness_of root1 s1"
      using 1 False unfolding replay_def Let_def d by (auto simp: bind_eq_Some_conv)
    obtain i' s2 root2 where q: "proven_word k root (take 896 pf') (pc s) = Some i'"
        "replay_instruction k (drop 896 pf') pre i' (s\<lparr>step := step s + 1\<rparr>, root) = Some (s2, root2)" "x' = witness_of root2 s2"
      using 2 False unfolding replay_def Let_def d by (auto simp: bind_eq_Some_conv)
    have "i' = i" using proven_word_unique [OF r(1) p(1) q(1)] p(1) q(1) by simp
    then have "(s2, root2) = (s1, root1)" using replay_instruction_unique [OF _ p(2)] q(2) r(2) by simp
    then show ?thesis using q(3) p(3) by simp
  qed
  moreover have "length (take 896 pf) = 896" "length (take 896 pf') = 896" "length (drop 896 pf) = 896" "length (drop 896 pf') = 896"
    using len by simp_all
  ultimately show ?thesis using rivals_collision [OF k] by blast
qed

section \<open>Properties\<close>

text \<open>The encoding of the next state, as \<open>encode_witness\<close> returns it, and any oracle that knows the preimage.\<close>

lemma replay_accepts:
  assumes k: "hash32 k" and env: "env_keccak env = k" and ok: "state_ok k (vm_state v)" and len: "length (mem_proof v) = 896"
    and short: "length (last_preimage v') < 0xFFFFFFFF" and st: "vm_step env True v = Inr (Some wit, v')"
    and enc: "encode_witness k (vm_state v') = Inr (w', s')" and pre: "claimed wit \<subseteq>\<^sub>m pre"
  shows "replay k pre (wit_state wit) (wit_mem_proof wit) = Some w'"
proof -
  have "w' = witness_of (mem_root k (vm_memory v')) (vm_state v')"
    using encode_witness_ok [OF vm_step_ok(1) [OF k env ok len st] k] enc by auto
  then show ?thesis using replay_mono [OF pre vm_step_replay(1) [OF k env ok len short st]] by simp
qed

text \<open>A step of the example machine, whose branches consist of zeros.\<close>

lemma demo_step:
  obtains wit v' w' s' where "vm_step demo_env True demo_vm = Inr (Some wit, v')" and "encode_witness demo_hash (vm_state v') = Inr (w', s')"
    and "wit_mem_proof wit = replicate 1792 0" and "length (last_preimage v') < 0xFFFFFFFF" and "last_preimage_offset v' = 0xFFFFFFFF"
proof -
  obtain wit v' where st: "vm_step demo_env True demo_vm = Inr (Some wit, v')" and pf: "mem_proof v' = mem_proof demo_vm"
    and lp: "last_preimage v' = last_preimage demo_vm" and off: "last_preimage_offset v' = 0xFFFFFFFF"
    using vm_step_nop [OF demo_hash32 demo_keccak demo_vm_facts(1-4) demo_nop] by blast
  obtain w' s' where w': "encode_witness demo_hash (vm_state v') = Inr (w', s')"
    using encode_witness_ok [OF vm_step_ok(1) [OF demo_hash32 demo_keccak demo_vm_facts(1,3) st] demo_hash32] by metis
  have "wit_mem_proof wit = branch_of demo_hash (vm_memory demo_vm) (pc (vm_state demo_vm)) @ mem_proof v'"
    by (rule vm_step_proof [OF demo_hash32 demo_keccak demo_vm_facts(1-3) st]) simp
  moreover have "mem_proof demo_vm = replicate 896 0" by (simp add: demo_vm_def instrumented_new_def)
  ultimately have "wit_mem_proof wit = replicate 1792 0"
    using pf by (simp add: demo_vm_facts(5) demo_default_branch replicate_add [symmetric])
  moreover have "length (last_preimage v') < 0xFFFFFFFF" using lp by (simp add: demo_vm_def instrumented_new_def)
  ultimately show thesis using st w' off that by blast
qed

text \<open>C1. A step refines the replay of its witness. Whatever a step with a proof does to registers, memory,
  preimage key, offset, heap and exit status, a verifier without memory finds from the witness: the
  replay of its 226 bytes of state and its two branches yields exactly the encoding of the next state,
  with every oracle that knows the preimage of the witness. The preimage in the cache must be shorter
  than \<open>2^32 - 1\<close> bytes, since an offset of \<open>2^32 - 1\<close> stands for no preimage.\<close>

theorem replay_complete:
  assumes "hash32 k" and "env_keccak env = k" and "state_ok k (vm_state v)" and "length (mem_proof v) = 896"
    and "length (last_preimage v') < 0xFFFFFFFF"
    and "vm_step env True v = Inr (Some wit, v')" and "encode_witness k (vm_state v') = Inr (w', s')" and "claimed wit \<subseteq>\<^sub>m pre"
  shows "replay k pre (wit_state wit) (wit_mem_proof wit) = Some w'"
  by (rule replay_accepts [OF assms])

theorem replay_complete_witness:
  "\<exists>wit v' w' s'. vm_step demo_env True demo_vm = Inr (Some wit, v') \<and> encode_witness demo_hash (vm_state v') = Inr (w', s')
    \<and> replay demo_hash (claimed wit) (wit_state wit) (wit_mem_proof wit) = Some w'"
proof -
  obtain wit v' w' s' where st: "vm_step demo_env True demo_vm = Inr (Some wit, v')"
    and w': "encode_witness demo_hash (vm_state v') = Inr (w', s')" and short: "length (last_preimage v') < 0xFFFFFFFF" by (rule demo_step)
  from replay_complete [OF demo_hash32 demo_keccak demo_vm_facts(1,3) short st w' map_le_refl] st w' show ?thesis by blast
qed

text \<open>C2. No witness cheats. Any other 1792 bytes of branches that a verifier accepts over the pre-state of a
  step lead to the same post-state, or the two pairs of branches hold a collision of the hash: two
  different strings, hashed in checking a branch at one address, with the same digest.\<close>

theorem replay_sound:
  assumes "hash32 k" and "env_keccak env = k" and "state_ok k (vm_state v)" and "length (mem_proof v) = 896"
    and "length (last_preimage v') < 0xFFFFFFFF"
    and "vm_step env True v = Inr (Some wit, v')" and "encode_witness k (vm_state v') = Inr (w', s')" and "claimed wit \<subseteq>\<^sub>m pre"
    and "length pf = 1792" and "replay k pre (wit_state wit) pf = Some w''"
  shows "w'' = w' \<or> (\<exists>a. \<not> inj_on k (proof_inputs k a (take 896 (wit_mem_proof wit)) \<union> proof_inputs k a (take 896 pf)))
    \<or> (\<exists>a. \<not> inj_on k (proof_inputs k a (drop 896 (wit_mem_proof wit)) \<union> proof_inputs k a (drop 896 pf)))"
  by (rule replay_unique [OF assms(1) vm_step_replay(3) [OF assms(1-6)] assms(9) replay_accepts [OF assms(1-8)] assms(10)])

theorem replay_sound_witness:
  "\<exists>wit v' w' s'. vm_step demo_env True demo_vm = Inr (Some wit, v') \<and> encode_witness demo_hash (vm_state v') = Inr (w', s')
    \<and> replay demo_hash (claimed wit) (wit_state wit) (replicate 1792 0) = Some w'"
proof -
  obtain wit v' w' s' where st: "vm_step demo_env True demo_vm = Inr (Some wit, v')"
    and w': "encode_witness demo_hash (vm_state v') = Inr (w', s')" and pf: "wit_mem_proof wit = replicate 1792 0"
    and short: "length (last_preimage v') < 0xFFFFFFFF" by (rule demo_step)
  obtain w'' where r: "replay demo_hash (claimed wit) (wit_state wit) (replicate 1792 0) = Some w''"
    using vm_step_replay(1) [OF demo_hash32 demo_keccak demo_vm_facts(1,3) short st] pf by auto
  have "length (replicate 1792 (0 :: u8)) = 1792" by simp
  from replay_sound [OF demo_hash32 demo_keccak demo_vm_facts(1,3) short st w' map_le_refl this r]
  have "w'' = w'" using demo_zero_proof_inj by (simp add: pf)
  with r st w' show ?thesis by blast
qed

end
