(* ===== verification/Preimage_Cache.thy ===== *)
theory Preimage_Cache
  imports Witness Mips_Sys
begin

text \<open>
  The preimage that the machine keeps from one read to the next (\<open>read_preimage\<close> of \<open>mips_vm.rs\<close>): a step
  leaves it alone, or replaces it with an answer of the oracle. So a bound on the answers of the oracle is a
  bound on the cache, in every run.
\<close>

section \<open>What a step does to the cache\<close>

definition same_cache :: "('o, 'w) instrumented \<Rightarrow> ('o, 'w) instrumented \<Rightarrow> bool" where
  "same_cache v v' \<longleftrightarrow> last_preimage_key v' = last_preimage_key v \<and> last_preimage v' = last_preimage v"

definition fetches :: "('o, 'w) env \<Rightarrow> ('o, 'w) instrumented \<Rightarrow> ('o, 'w) instrumented \<Rightarrow> bool" where
  "fetches env v v' \<longleftrightarrow> same_cache v v' \<or>
    (\<exists>orc d orc'. env_get env orc (last_preimage_key v') = Inr (d, orc') \<and> last_preimage v' = u64_be (of_nat (length d)) @ d)"

lemma fetchesE [consumes 1, case_names same fetched]:
  assumes "fetches env v v'"
  obtains "same_cache v v'"
  | orc d orc' where "env_get env orc (last_preimage_key v') = Inr (d, orc')" and "last_preimage v' = u64_be (of_nat (length d)) @ d"
  using assms by (auto simp: fetches_def)

lemma same_cache_refl [simp]: "same_cache v v" "same_cache v (v\<lparr>vm_state := s\<rparr>)" "same_cache v (v\<lparr>std_out := x\<rparr>)"
    "same_cache v (v\<lparr>std_err := x\<rparr>)" "same_cache v (v\<lparr>preimage_oracle := orc\<rparr>)"
  by (simp_all add: same_cache_def)

lemma same_cache_ops:
  "track_mem_access env a v = Inr v' \<Longrightarrow> same_cache v v'" "vm_get_memory a v = Inr (x, v') \<Longrightarrow> same_cache v v'"
  "vm_set_memory env a y v = Inr v' \<Longrightarrow> same_cache v v'" "on_state f v = Inr v' \<Longrightarrow> same_cache v v'"
  by (auto simp: same_cache_def track_mem_access_def vm_get_memory_def vm_set_memory_def on_state_def Let_def split: if_splits)

lemma same_cache_trans: "same_cache u v \<Longrightarrow> same_cache v w \<Longrightarrow> same_cache u w"
  by (simp add: same_cache_def)

lemma fetches_same: "same_cache v v' \<Longrightarrow> fetches env v v'"
  by (simp add: fetches_def)

lemma fetches_trans_left: "same_cache u v \<Longrightarrow> fetches env v w \<Longrightarrow> fetches env u w"
  by (auto simp: fetches_def same_cache_def)

lemma fetches_trans_right: "fetches env u v \<Longrightarrow> same_cache v w \<Longrightarrow> fetches env u w"
  by (auto simp: fetches_def same_cache_def)

lemma read_preimage_fetches:
  assumes "read_preimage env key offset v = Inr ((dat, n), v')"
  shows "fetches env v v'"
proof (cases "key = last_preimage_key v")
  case True
  with read_preimage_eq(5,7) [OF assms] show ?thesis by (simp add: fetches_def same_cache_def)
next
  case False
  with read_preimage_eq(6,7) [OF assms] show ?thesis unfolding fetches_def by metis
qed

lemma sys_read_fetches:
  assumes "sys_read env a0 a1 a2 v = Inr (r, v')"
  shows "fetches env v v'"
proof (cases "Fd_try_from (ucast a0) = Some PreimageRead")
  case True
  then obtain x where "sys_read_preimage env a1 a2 v = Inr (x, v')" using assms by (auto simp: sys_read_def)
  then obtain v1 w v2 dat n v3 v4 val l where
    v1: "track_mem_access env (a1 AND 0xFFFFFFFC) v = Inr v1" and v2: "vm_get_memory (a1 AND 0xFFFFFFFC) v1 = Inr (w, v2)"
    and v3: "read_preimage env (preimage_key (vm_state v2)) (preimage_offset (vm_state v2)) v2 = Inr ((dat, n), v3)"
    and v4: "vm_set_memory env (a1 AND 0xFFFFFFFC) val v3 = Inr v4"
    and v': "v' = v4\<lparr>vm_state := (vm_state v4)\<lparr>preimage_offset := preimage_offset (vm_state v4) + of_nat l\<rparr>\<rparr>"
    by (auto simp: sys_read_preimage_def Let_def)
  have "same_cache v v2" using same_cache_ops(1) [OF v1] same_cache_ops(2) [OF v2] by (rule same_cache_trans)
  moreover have "same_cache v3 v'" using same_cache_ops(3) [OF v4] v' same_cache_trans same_cache_refl(2) by metis
  ultimately show ?thesis using read_preimage_fetches [OF v3] fetches_trans_left fetches_trans_right by metis
next
  case False
  with assms show ?thesis by (auto simp: sys_read_def fetches_same split: option.splits Fd.splits)
qed

lemma sys_write_cache:
  assumes "sys_write env a0 a1 a2 v = Inr (r, v')"
  shows "same_cache v v'"
proof -
  have key: "same_cache v u" if "sys_write_preimage env a1 a2 v = Inr (x, u)" for x u
    using that same_cache_ops(1,2) unfolding sys_write_preimage_def Let_def by (fastforce simp: same_cache_def)
  have hint: "same_cache v u" if "sys_write_hint env a1 a2 v = Inr u" for u
    using that by (auto simp: sys_write_hint_def same_cache_def)
  show ?thesis
    using assms by (auto simp: sys_write_def split: option.splits Fd.splits dest: key hint) (auto simp: same_cache_def)
qed

lemma handle_syscall_fetches:
  assumes "handle_syscall env v = Inr v'"
  shows "fetches env v v'"
proof -
  have ret: "fetches env v (u\<lparr>vm_state := s\<rparr>)" if "fetches env v u" for u s
    using that same_cache_refl(2) by (rule fetches_trans_right)
  show ?thesis
    using assms unfolding handle_syscall_def Let_def
    by (auto split: option.splits Syscall.splits prod.splits intro!: ret dest: sys_read_fetches sys_write_cache intro: fetches_same)
qed

lemma write_back_cache:
  assumes "write_back env instruction store_address rd_reg val v = Inr v'"
  shows "same_cache v v'"
  using assms unfolding write_back_def Let_def
  by (auto split: if_split_asm dest!: same_cache_ops) (auto simp: same_cache_def)

lemma step_instruction_fetches:
  assumes "step_instruction env instruction v = Inr v'"
  shows "fetches env v v'"
proof -
  have dis: "fetches env u v'" if "dispatch env instruction rs rt sa rd val u = Inr v'" for rs rt sa rd val u
    using that unfolding dispatch_def Let_def
    by (auto split: if_split_asm intro: fetches_same handle_syscall_fetches write_back_cache same_cache_ops(4))
  have fm: "same_cache v u" if "fetch_memory env instruction rs rd v = Inr (x, u)" for rs rd x u
    using that unfolding fetch_memory_def Let_def by (auto split: if_split_asm dest!: same_cache_ops) (auto simp: same_cache_def)
  have rest: "fetches env v v'" if "fetch_memory env instruction rs rd v = Inr (x, u)" "dispatch env instruction rs' rt sa rd' val u = Inr v'"
    for rs rd x u rs' rt sa rd' val using fm [OF that(1)] dis [OF that(2)] by (rule fetches_trans_left)
  show ?thesis
    using assms unfolding step_instruction_def Let_def
    by (auto split: if_split_asm prod.splits intro: fetches_same same_cache_ops(4) rest)
qed

lemma vm_step_fetches:
  assumes "vm_step env b v = Inr (wo, v')"
  shows "fetches env v v'"
proof -
  let ?v0 = "v\<lparr>mem_proof_enabled := b, last_mem_access := NOT 0, last_preimage_offset := NOT 0\<rparr>"
  have beg: "same_cache v u" if "begin_witness env ?v0 = Inr (w, u)" for w u
    using that by (auto simp: begin_witness_def same_cache_def Let_def)
  have "\<exists>v1. same_cache v v1 \<and> inner_step env v1 = Inr v'"
  proof (cases b)
    case True
    then obtain w u where "begin_witness env ?v0 = Inr (w, u)" "inner_step env u = Inr v'"
      using assms unfolding vm_step_def Let_def by auto
    with beg show ?thesis by blast
  next
    case False
    then have "inner_step env ?v0 = Inr v'" using assms unfolding vm_step_def Let_def by auto
    moreover have "same_cache v ?v0" by (simp add: same_cache_def)
    ultimately show ?thesis by blast
  qed
  then obtain v1 where v1: "same_cache v v1" "inner_step env v1 = Inr v'" by blast
  have "fetches env v1 v'"
    using v1(2) unfolding inner_step_def Let_def
    by (auto split: if_split_asm intro: fetches_same dest!: same_cache_ops(2) step_instruction_fetches)
      (auto simp: fetches_def same_cache_def)
  with v1(1) show ?thesis by (rule fetches_trans_left)
qed

section \<open>Bounds\<close>

text \<open>An oracle whose answers, with their length in front, stay below \<open>2^32 - 1\<close> bytes.\<close>

definition short_preimages :: "('o, 'w) env \<Rightarrow> bool" where
  "short_preimages env \<longleftrightarrow> (\<forall>orc key d orc'. env_get env orc key = Inr (d, orc') \<longrightarrow> length d < 4294967287)"

definition cache_short :: "('o, 'w) instrumented \<Rightarrow> bool" where
  "cache_short v \<longleftrightarrow> length (last_preimage v) < 0xFFFFFFFF"

lemma cache_short_step:
  assumes short: "short_preimages env" and ok: "cache_short v" and st: "vm_step env b v = Inr (wo, v')"
  shows "cache_short v'"
  using vm_step_fetches [OF st]
proof (cases rule: fetchesE)
  case same
  with ok show ?thesis by (simp add: cache_short_def same_cache_def)
next
  case (fetched orc d orc')
  with short have "length d < 4294967287" unfolding short_preimages_def by blast
  with fetched(2) show ?thesis by (simp add: cache_short_def)
qed

lemma cache_short_sim: "vm_sim k v v' \<Longrightarrow> cache_short v \<Longrightarrow> cache_short v'"
  by (erule vm_simE) (simp add: cache_short_def)

end
