(* ===== verification/Kernel_Proof.thy ===== *)
theory Kernel_Proof
  imports Kernel Replay_Proof Preimage_Cache
begin

text \<open>
  What a run of the kernel shows: the patterns mean what they spell, the loop makes exactly the
  snapshots and proofs the patterns ask for, it returns when it is told to stop at a step it has not
  passed, asking for proofs and snapshots does not change the run, and consecutive proofs form a chain
  of state hashes, each of which a verifier of witnesses can follow.
\<close>

section \<open>The loop as a whole\<close>

text \<open>What is known of a machine that leaves the loop after \<open>n\<close> rounds.\<close>

definition ran_rounds ::
  "Matcher \<Rightarrow> Matcher \<Rightarrow> Matcher \<Rightarrow> string \<Rightarrow> string \<Rightarrow> nat \<Rightarrow> state \<Rightarrow> state \<Rightarrow> (bool \<times> string) list \<Rightarrow> bool" where
  "ran_rounds stp pf_at snap_at pf_fmt snap_fmt n s s' tags \<longleftrightarrow>
     step s' = step s + of_nat n
     \<and> tags = concat (map (\<lambda>i. planned pf_at snap_at pf_fmt snap_fmt (step s + of_nat i)) [0..<n])
     \<and> (\<forall>i<n. matches stp (step s + of_nat i) = Inr False)
     \<and> (exited s' \<or> matches stp (step s') = Inr True)"

lemma ran_rounds_0: "exited s \<or> matches stp (step s) = Inr True \<Longrightarrow> ran_rounds stp pf_at snap_at pf_fmt snap_fmt 0 s s []"
  by (simp add: ran_rounds_def)

lemma ran_rounds_Suc:
  assumes "matches stp (step s) = Inr False" and "step s1 = step s + 1"
    and "ran_rounds stp pf_at snap_at pf_fmt snap_fmt n s1 s' tags"
  shows "ran_rounds stp pf_at snap_at pf_fmt snap_fmt (Suc n) s s' (planned pf_at snap_at pf_fmt snap_fmt (step s) @ tags)"
proof -
  have "[0..<Suc n] = 0 # map Suc [0..<n]" by (simp add: upt_conv_Cons map_Suc_upt del: upt_Suc)
  moreover have "matches stp (step s + of_nat i) = Inr False" if "i < Suc n" for i
    using assms that by (cases i) (auto simp: ran_rounds_def add.assoc)
  ultimately show ?thesis using assms by (auto simp: ran_rounds_def comp_def add.assoc simp del: upt_Suc)
qed

lemma kernel_loop_induct [consumes 1, case_names halt bad_stop bad_round round]:
  assumes ret: "kernel_loop ke stp pf_at snap_at pf_fmt snap_fmt s = Some r"
    and halt: "\<And>s. exited (vm_state (fst s)) \<or> matches stp (step (vm_state (fst s))) = Inr True \<Longrightarrow> P s (Inr s)"
    and bad_stop: "\<And>s e. \<not> exited (vm_state (fst s)) \<Longrightarrow> matches stp (step (vm_state (fst s))) = Inl e \<Longrightarrow> P s (Inl e)"
    and bad_round: "\<And>s e. \<not> exited (vm_state (fst s)) \<Longrightarrow> matches stp (step (vm_state (fst s))) = Inr False
      \<Longrightarrow> kernel_round ke pf_at snap_at pf_fmt snap_fmt s = Inl e \<Longrightarrow> P s (Inl e)"
    and round: "\<And>s s1 r. \<not> exited (vm_state (fst s)) \<Longrightarrow> matches stp (step (vm_state (fst s))) = Inr False
      \<Longrightarrow> kernel_round ke pf_at snap_at pf_fmt snap_fmt s = Inr s1 \<Longrightarrow> P s1 r \<Longrightarrow> P s r"
  shows "P s r"
proof -
  let ?Q = "\<lambda>ke' stp' pf' sn' pff' snf' s r. ke' = ke \<longrightarrow> stp' = stp \<longrightarrow> pf' = pf_at \<longrightarrow> sn' = snap_at \<longrightarrow> pff' = pf_fmt \<longrightarrow> snf' = snap_fmt \<longrightarrow> P s r"
  have "?Q ke stp pf_at snap_at pf_fmt snap_fmt s r"
  proof (rule kernel_loop.raw_induct [of ?Q, OF _ ret])
    fix loop ke' stp' pf' sn' pff' snf' s r
    assume IH: "\<And>ke' stp' pf' sn' pff' snf' s r. loop ke' stp' pf' sn' pff' snf' s = Some r \<Longrightarrow> ?Q ke' stp' pf' sn' pff' snf' s r"
      and eq: "(if exited (vm_state (fst s)) then Some (Inr s)
        else case matches stp' (step (vm_state (fst s))) of Inl e \<Rightarrow> Some (Inl e)
        | Inr b \<Rightarrow> if b then Some (Inr s) else case kernel_round ke' pf' sn' pff' snf' s of
            Inl e \<Rightarrow> Some (Inl e) | Inr s1 \<Rightarrow> loop ke' stp' pf' sn' pff' snf' s1) = Some r"
    show "?Q ke' stp' pf' sn' pff' snf' s r"
    proof (intro impI)
      assume "ke' = ke" "stp' = stp" "pf' = pf_at" "sn' = snap_at" "pff' = pf_fmt" "snf' = snap_fmt"
      note eq' = eq [unfolded this] and IH' = IH [of ke stp pf_at snap_at pf_fmt snap_fmt, simplified]
      show "P s r"
        using eq' halt [of s] bad_stop [of s] bad_round [of s] round [of s] IH'
        by (auto split: if_splits sum.splits)
    qed
  qed
  then show ?thesis by simp
qed

lemma kernel_loop_rounds:
  assumes k: "hash32 k" and env: "env_keccak (kn_env ke) = k"
    and ret: "kernel_loop ke stp pf_at snap_at pf_fmt snap_fmt s = Some r" and ok: "machine_ok k (fst s)" and r: "r = Inr s'"
  shows "machine_ok k (fst s') \<and> (\<exists>n tags. map task_tag (snd (snd s')) = map task_tag (snd (snd s)) @ tags
    \<and> ran_rounds stp pf_at snap_at pf_fmt snap_fmt n (vm_state (fst s)) (vm_state (fst s')) tags)"
  using ret ok r
proof (induction s r rule: kernel_loop_induct)
  case (halt s)
  then have "ran_rounds stp pf_at snap_at pf_fmt snap_fmt 0 (vm_state (fst s)) (vm_state (fst s)) []" by (intro ran_rounds_0)
  with halt show ?case by (intro conjI exI [of _ 0] exI [of _ "[]"]) simp_all
next
  case (round s s1 r)
  obtain v srv ts v1 srv1 ts1 where s: "s = (v, srv, ts)" "s1 = (v1, srv1, ts1)" by (metis prod_cases3)
  have o: "machine_ok k v1 \<and> step (vm_state v1) = step (vm_state v) + 1
      \<and> map task_tag ts1 = map task_tag ts @ planned pf_at snap_at pf_fmt snap_fmt (step (vm_state v))"
    using kernel_round_ok [OF k env] round s by simp
  with round.IH round.prems s obtain n tags where n: "machine_ok k (fst s')" "map task_tag (snd (snd s')) = map task_tag ts1 @ tags"
      "ran_rounds stp pf_at snap_at pf_fmt snap_fmt n (vm_state v1) (vm_state (fst s')) tags" by auto
  have "ran_rounds stp pf_at snap_at pf_fmt snap_fmt (Suc n) (vm_state v) (vm_state (fst s')) (planned pf_at snap_at pf_fmt snap_fmt (step (vm_state v)) @ tags)"
    using ran_rounds_Suc [OF _ _ n(3)] o round s by simp
  with n o s show ?case by auto
qed simp_all

text \<open>A loop whose stop pattern is met, or panics, some rounds ahead returns. Every pattern but \<open>Never\<close> is met at some step,
  since the counter has 64 bits and every step adds one to it.\<close>

lemma kernel_loop_meets:
  assumes k: "hash32 k" and env: "env_keccak (kn_env ke) = k" and ok: "machine_ok k (fst s)"
    and met: "matches stp (step (vm_state (fst s)) + of_nat d) \<noteq> Inr False"
  shows "kernel_loop ke stp pf_at snap_at pf_fmt snap_fmt s \<noteq> None"
  using ok met
proof (induction d arbitrary: s)
  case 0
  then show ?case by (subst kernel_loop.simps) (auto split: sum.splits)
next
  case (Suc d)
  obtain v srv ts where s: "s = (v, srv, ts)" by (metis prod_cases3)
  show ?case
  proof (cases "exited (vm_state v) \<or> matches stp (step (vm_state v)) \<noteq> Inr False \<or> (\<exists>e. kernel_round ke pf_at snap_at pf_fmt snap_fmt s = Inl e)")
    case True
    with s show ?thesis by (subst kernel_loop.simps) (auto split: sum.splits)
  next
    case False
    then obtain v1 srv1 ts1 where s1: "kernel_round ke pf_at snap_at pf_fmt snap_fmt s = Inr (v1, srv1, ts1)"
      by (metis prod_cases3 sum.exhaust)
    have o: "machine_ok k v1" "step (vm_state v1) = step (vm_state v) + 1"
      using kernel_round_ok [OF k env] Suc.prems(1) False s1 s by (simp_all del: not_None_eq)
    have "matches stp (step (vm_state v1) + of_nat d) \<noteq> Inr False" using Suc.prems(2) o(2) s by (simp add: add_ac)
    then have "kernel_loop ke stp pf_at snap_at pf_fmt snap_fmt (v1, srv1, ts1) \<noteq> None" using Suc.IH [of "(v1, srv1, ts1)"] o(1) by simp
    with False s1 s show ?thesis by (subst kernel_loop.simps) simp
  qed
qed

lemma pattern_met: "m \<noteq> Never \<Longrightarrow> \<exists>d. matches m (st + of_nat d) \<noteq> Inr False"
proof (cases m)
  case (Equal n)
  then show ?thesis by (intro exI [of _ "unat (n - st)"]) simp
next
  case (MultipleOf n)
  then show ?thesis by (intro exI [of _ "unat (- st)"]) simp
qed simp_all

lemma kernel_loop_returns:
  assumes "hash32 k" and "env_keccak (kn_env ke) = k" and "machine_ok k (fst s)" and "stp \<noteq> Never"
  shows "kernel_loop ke stp pf_at snap_at pf_fmt snap_fmt s \<noteq> None"
  using kernel_loop_meets [OF assms(1-3)] pattern_met [OF assms(4)] by blast

section \<open>Runs that differ in their patterns\<close>

text \<open>The states of two runs that agree in everything but caches, tracked accesses and tasks.\<close>

definition run_sim ::
  "hash_fn \<Rightarrow> ('o, 'w) instrumented \<times> 'c option \<times> io_task list \<Rightarrow> ('o, 'w) instrumented \<times> 'c option \<times> io_task list \<Rightarrow> bool" where
  "run_sim k s s' \<longleftrightarrow> vm_sim k (fst s) (fst s') \<and> fst (snd s) = fst (snd s')"

lemma matches_total: "m \<noteq> MultipleOf 0 \<Longrightarrow> \<exists>b. matches m v = Inr b"
  by (cases m) auto

lemma vm_sim_fields: "vm_sim k v v' \<Longrightarrow> step (vm_state v') = step (vm_state v) \<and> exited (vm_state v') = exited (vm_state v)"
  by (erule vm_simE) simp

lemma kernel_round_sim:
  assumes k: "hash32 k" and env: "env_keccak (kn_env ke) = k" and ok: "machine_ok k (fst s)" "machine_ok k (fst s')" and sim: "run_sim k s s'"
    and m: "pf_at \<noteq> MultipleOf 0" "pf_at' \<noteq> MultipleOf 0" "snap_at \<noteq> MultipleOf 0" "snap_at' \<noteq> MultipleOf 0"
  shows "rel_sum (=) (run_sim k) (kernel_round ke pf_at snap_at pf_fmt snap_fmt s) (kernel_round ke pf_at' snap_at' pf_fmt' snap_fmt' s')"
proof -
  obtain v srv ts v' ts' where s: "s = (v, srv, ts)" "s' = (v', srv, ts')"
    using sim by (cases s; cases s') (auto simp: run_sim_def)
  have vs: "vm_sim k v v'" using sim s by (simp add: run_sim_def)
  obtain b b' where "matches snap_at (step (vm_state v)) = Inr b" "matches snap_at' (step (vm_state v')) = Inr b'"
    using m matches_total by metis
  then obtain sn sn' where sn: "kernel_snapshot ke snap_at snap_fmt v = Inr sn" "kernel_snapshot ke snap_at' snap_fmt' v' = Inr sn'"
    by (simp add: kernel_snapshot_def)
  have "rel_sum (=) (\<lambda>(ts, u) (ts', u'). vm_sim k u u') (kernel_step ke pf_at pf_fmt v) (kernel_step ke pf_at' pf_fmt' v')"
    using kernel_step_sim [OF k env _ _ vs] ok s m matches_total by simp
  then show ?thesis
    using s sn vm_sim_fields [OF vs] by (cases "kernel_poll ke (step (vm_state v)) srv") (auto simp: kernel_round_def run_sim_def elim!: rel_sum.cases)
qed

lemma kernel_loop_sim:
  assumes k: "hash32 k" and env: "env_keccak (kn_env ke) = k"
    and m: "pf_at \<noteq> MultipleOf 0" "pf_at' \<noteq> MultipleOf 0" "snap_at \<noteq> MultipleOf 0" "snap_at' \<noteq> MultipleOf 0"
    and ret: "kernel_loop ke stp pf_at snap_at pf_fmt snap_fmt s = Some r"
    and ok: "machine_ok k (fst s)" "machine_ok k (fst s')" and sim: "run_sim k s s'"
  shows "\<exists>r'. kernel_loop ke stp pf_at' snap_at' pf_fmt' snap_fmt' s' = Some r' \<and> rel_sum (=) (run_sim k) r r'"
  using ret ok sim
proof (induction s r arbitrary: s' rule: kernel_loop_induct)
  case (halt s)
  then show ?case using vm_sim_fields [of k "fst s" "fst s'"] by (subst kernel_loop.simps) (auto simp: run_sim_def)
next
  case (bad_stop s e)
  then show ?case using vm_sim_fields [of k "fst s" "fst s'"] by (subst kernel_loop.simps) (auto simp: run_sim_def)
next
  case (bad_round s e)
  then have "kernel_round ke pf_at' snap_at' pf_fmt' snap_fmt' s' = Inl e"
    using kernel_round_sim [OF k env bad_round.prems m, of pf_fmt snap_fmt pf_fmt' snap_fmt'] by (auto elim!: rel_sum.cases)
  with bad_round show ?case using vm_sim_fields [of k "fst s" "fst s'"] by (subst kernel_loop.simps) (auto simp: run_sim_def)
next
  case (round s s1 r)
  then obtain s1' where s1': "kernel_round ke pf_at' snap_at' pf_fmt' snap_fmt' s' = Inr s1'" "run_sim k s1 s1'"
    using kernel_round_sim [OF k env round.prems m, of pf_fmt snap_fmt pf_fmt' snap_fmt'] by (auto elim!: rel_sum.cases)
  have h: "\<not> exited (vm_state (fst s'))" "matches stp (step (vm_state (fst s'))) = Inr False"
    using round vm_sim_fields [of k "fst s" "fst s'"] by (simp_all add: run_sim_def)
  have "machine_ok k (fst s1)" "machine_ok k (fst s1')"
    using kernel_round_ok [OF k env round.prems(1) round.hyps(1)] kernel_round_ok [OF k env round.prems(2) h(1)] round.hyps(3) s1'(1)
    by (metis prod.collapse)+
  from round.IH [OF this s1'(2)] s1'(1) h show ?case by (subst kernel_loop.simps) simp
qed

section \<open>Chains of proofs\<close>

text \<open>The proofs among the tasks lead from one state hash to another, each over its own pre-state, and the
  replay of each witness ends in a state with the recorded hash.\<close>

fun linked :: "hash_fn \<Rightarrow> bytes \<Rightarrow> io_task list \<Rightarrow> bytes \<Rightarrow> bool" where
  "linked k h [] h' \<longleftrightarrow> h = h'"
| "linked k h (SnapshotTask path ser # ts) h' \<longleftrightarrow> linked k h ts h'"
| "linked k h (ProofTask path st pre post wit # ts) h' \<longleftrightarrow>
     pre = h \<and> state_hash k (wit_state wit) = pre
     \<and> map_option (state_hash k) (replay k (claimed wit) (wit_state wit) (wit_mem_proof wit)) = Some post \<and> linked k post ts h'"

abbreviation machine_hash :: "hash_fn \<Rightarrow> ('o, 'w) instrumented \<Rightarrow> bytes" where
  "machine_hash k v \<equiv> state_hash k (witness_of (mem_root k (vm_memory v)) (vm_state v))"

lemma linked_append: "linked k h ts h1 \<Longrightarrow> linked k h1 ts' h2 \<Longrightarrow> linked k h (ts @ ts') h2"
  by (induction k h ts h1 rule: linked.induct) auto

lemma vm_sim_witness:
  "vm_sim k v v' \<Longrightarrow> witness_of (mem_root k (vm_memory v')) (vm_state v') = witness_of (mem_root k (vm_memory v)) (vm_state v)"
proof (erule vm_simE)
  fix m x p q
  assume v': "v' = retrack m x p q v" and m: "mem_sim k (vm_memory v) m"
  have "mem_root k m = mem_root k (vm_memory v)" by (rule mem_root_cong) (use m in \<open>simp add: mem_sim_def\<close>)
  with v' show ?thesis by (simp add: witness_of_def del: subtree.simps)
qed

lemma kernel_round_linked:
  assumes k: "hash32 k" and env: "env_keccak (kn_env ke) = k" and short: "short_preimages (kn_env ke)"
    and ok: "machine_ok k v" and cache: "cache_short v"
    and st: "kernel_round ke Always snap_at pf_fmt snap_fmt (v, srv, tasks) = Inr (v1, srv1, tasks1)"
  shows "\<exists>ts. tasks1 = tasks @ ts \<and> linked k (machine_hash k v) ts (machine_hash k v1)" and "cache_short v1"
proof -
  obtain snaps t where s: "kernel_snapshot ke snap_at snap_fmt v = Inr snaps" "kernel_proof ke pf_fmt v = Inr (t, v1)"
      "tasks1 = tasks @ snaps @ [t]"
    using st by (auto simp: kernel_round_def kernel_step_def)
  obtain u wit u1 path where u: "vm_sim k v u" "machine_ok k u" "vm_step (kn_env ke) True u = Inr (Some wit, u1)" "vm_sim k u1 v1"
      "t = ProofTask path (step (vm_state v)) (machine_hash k v) (machine_hash k v1) wit"
    by (rule kernel_proof_ok [OF k env ok s(2)]) blast
  have uok: "state_ok k (vm_state u)" "length (mem_proof u) = 896" using u(2) by (simp_all add: machine_ok_def)
  have c1: "cache_short u1" by (rule cache_short_step [OF short cache_short_sim [OF u(1) cache] u(3)])
  note r = vm_step_replay [OF k env uok c1 [unfolded cache_short_def] u(3)]
  have "wit_state wit = witness_of (mem_root k (vm_memory v)) (vm_state v)"
    unfolding r(2) by (rule vm_sim_witness [OF u(1)])
  then have "linked k (machine_hash k v) [t] (machine_hash k v1)" using u(5) r(1) vm_sim_witness [OF u(4)] by simp
  moreover have "linked k (machine_hash k v) snaps (machine_hash k v)"
    using s(1) by (auto simp: kernel_snapshot_def split: if_splits)
  ultimately show "\<exists>ts. tasks1 = tasks @ ts \<and> linked k (machine_hash k v) ts (machine_hash k v1)" using s(3) linked_append by blast
  show "cache_short v1" by (rule cache_short_sim [OF u(4) c1])
qed

lemma kernel_loop_linked:
  assumes k: "hash32 k" and env: "env_keccak (kn_env ke) = k" and short: "short_preimages (kn_env ke)"
    and ret: "kernel_loop ke stp Always snap_at pf_fmt snap_fmt s = Some r" and ok: "machine_ok k (fst s)" "cache_short (fst s)" and r: "r = Inr s'"
  shows "\<exists>ts. snd (snd s') = snd (snd s) @ ts \<and> linked k (machine_hash k (fst s)) ts (machine_hash k (fst s'))"
  using ret ok r
proof (induction s r rule: kernel_loop_induct)
  case (round s s1 r)
  obtain v srv ts v1 srv1 ts1 where s: "s = (v, srv, ts)" "s1 = (v1, srv1, ts1)" by (metis prod_cases3)
  have v: "machine_ok k v" "\<not> exited (vm_state v)" "kernel_round ke Always snap_at pf_fmt snap_fmt (v, srv, ts) = Inr (v1, srv1, ts1)"
    and c: "cache_short v"
    using round s by simp_all
  note l = kernel_round_linked [OF k env short v(1) c v(3)]
  obtain ts0 where "ts1 = ts @ ts0" "linked k (machine_hash k v) ts0 (machine_hash k v1)" using l(1) by blast
  moreover obtain ts2 where "snd (snd s') = ts1 @ ts2" "linked k (machine_hash k v1) ts2 (machine_hash k (fst s'))"
    using round.IH round.prems(3) kernel_round_ok [OF k env v] l(2) s by auto
  ultimately show ?case using s linked_append by fastforce
qed auto

section \<open>A concrete run\<close>

definition demo_kernel_env :: "(bytes list, bytes, unit, string list) kernel_env" where
  "demo_kernel_env = \<lparr>kn_env = demo_env, kn_ser_state = (\<lambda>s. []), kn_ser_proof = (\<lambda>p. Inr (pf_pre p)), kn_compress = Inr,
     kn_create = (\<lambda>path f. Inr (f @ [path])), kn_write = (\<lambda>path bs f. Inr f), kn_print = (\<lambda>s f. f),
     kn_try_wait = (\<lambda>c. (Inr None, c)), kn_abi_local = (\<lambda>key w n off. w), kn_abi_keccak = (\<lambda>off p. p), kn_abi_step = (\<lambda>s p. s)\<rparr>"

lemma demo_kernel_keccak: "env_keccak (kn_env demo_kernel_env) = demo_hash"
  by (simp add: demo_kernel_env_def demo_keccak)

lemma demo_machine_ok: "machine_ok demo_hash demo_vm"
  using demo_vm_facts by (simp add: machine_ok_def)

lemma demo_step_0: "step (vm_state demo_vm) = 0"
  by (simp add: demo_vm_def instrumented_new_def demo_state_def state_default_def)

lemma demo_loop:
  "\<exists>v1 ts. kernel_loop demo_kernel_env (Equal 1) Always Never ''%d.json'' ''%d.json'' (demo_vm, None, []) = Some (Inr (v1, None, ts))"
proof -
  obtain wit u where "vm_step demo_env True demo_vm = Inr (Some wit, u)"
    using vm_step_nop [OF demo_hash32 demo_keccak demo_vm_facts(1-4) demo_nop] by blast
  with vm_step_modes [OF demo_hash32 demo_keccak demo_vm_facts(1)] obtain u' where "vm_step demo_env False demo_vm = Inr (None, u')"
    by (auto elim!: rel_sum.cases)
  moreover have "kn_env demo_kernel_env = demo_env" by (simp add: demo_kernel_env_def)
  ultimately obtain ts v1 where st: "kernel_step demo_kernel_env Always ''%d.json'' demo_vm = Inr (ts, v1)"
    using kernel_step_plain [OF demo_hash32 demo_kernel_keccak demo_machine_ok, of Always True "''%d.json''"]
    by (auto elim!: rel_sum.cases)
  then have r: "kernel_round demo_kernel_env Always Never ''%d.json'' ''%d.json'' (demo_vm, None, []) = Inr (v1, None, ts)"
    by (simp add: kernel_round_def kernel_snapshot_def kernel_poll_def)
  have "step (vm_state v1) = 1"
    using kernel_step_ok [OF demo_hash32 demo_kernel_keccak demo_machine_ok demo_vm_facts(2) st] demo_step_0 by simp
  then have "kernel_loop demo_kernel_env (Equal 1) Always Never ''%d.json'' ''%d.json'' (v1, None, ts) = Some (Inr (v1, None, ts))"
    by (subst kernel_loop.simps) simp
  with r demo_vm_facts(2) demo_step_0 show ?thesis by (subst kernel_loop.simps) simp
qed

section \<open>Properties\<close>

text \<open>C38. What the step patterns mean. The pattern \<open>=n\<close> holds exactly at step \<open>n\<close> and \<open>%n\<close> exactly at the
  multiples of \<open>n\<close>, for every number \<open>n\<close> that fits 64 bits; the pattern \<open>%0\<close> is accepted, and then
  panics at the first step.\<close>

theorem matcher_patterns:
  "rbind (create_matcher (Some (CHR ''='' # show_nat (unat n)))) (\<lambda>m. matches m v) = Inr (v = n)
    \<and> rbind (create_matcher (Some (CHR ''%'' # show_nat (unat n)))) (\<lambda>m. matches m v)
       = (if n = 0 then Inl PanicRemainder else Inr (unat n dvd unat v))
    \<and> rbind (create_matcher None) (\<lambda>m. matches m v) = Inr False
    \<and> rbind (create_matcher (Some ''never'')) (\<lambda>m. matches m v) = Inr False
    \<and> rbind (create_matcher (Some ''always'')) (\<lambda>m. matches m v) = Inr True"
proof -
  have "v mod n = 0 \<longleftrightarrow> unat n dvd unat v"
    by (metis dvd_eq_mod_eq_0 unat_eq_zero unat_mod_distrib)
  then show ?thesis by (simp add: create_matcher_def parse_show)
qed

text \<open>C14. The schedule of a run. A loop that returns without an error has run some number of rounds, each
  of which added one to the step counter. Its tasks are, in this order, the snapshot and then the proof
  of each of these steps that its patterns ask for, with the step number in the file name. The
  stop pattern held at none of the steps that were run, and the loop ended because the program exited
  or the stop pattern holds.\<close>

theorem kernel_schedule:
  assumes "hash32 (env_keccak (kn_env ke))" and "machine_ok (env_keccak (kn_env ke)) v"
    and "kernel_loop ke stp pf_at snap_at pf_fmt snap_fmt (v, srv, []) = Some (Inr (v', srv', tasks))"
  shows "\<exists>n. step (vm_state v') = step (vm_state v) + of_nat n
    \<and> map task_tag tasks = concat (map (\<lambda>i. planned pf_at snap_at pf_fmt snap_fmt (step (vm_state v) + of_nat i)) [0..<n])
    \<and> (\<forall>i<n. matches stp (step (vm_state v) + of_nat i) = Inr False)
    \<and> (exited (vm_state v') \<or> matches stp (step (vm_state v')) = Inr True)"
  using kernel_loop_rounds [OF assms(1) refl assms(3)] assms(2) by (auto simp: ran_rounds_def)

theorem kernel_schedule_witness:
  "\<exists>v' ts n. kernel_loop demo_kernel_env (Equal 1) Always Never ''%d.json'' ''%d.json'' (demo_vm, None, []) = Some (Inr (v', None, ts))
    \<and> map task_tag ts = concat (map (\<lambda>i. planned Always Never ''%d.json'' ''%d.json'' (of_nat i)) [0..<n])"
proof -
  obtain v1 ts where l: "kernel_loop demo_kernel_env (Equal 1) Always Never ''%d.json'' ''%d.json'' (demo_vm, None, []) = Some (Inr (v1, None, ts))"
    using demo_loop by blast
  obtain n where "map task_tag ts = concat (map (\<lambda>i. planned Always Never ''%d.json'' ''%d.json'' (step (vm_state demo_vm) + of_nat i)) [0..<n])"
    using kernel_schedule [OF _ _ l] demo_hash32 demo_machine_ok demo_kernel_keccak by metis
  with l demo_step_0 show ?thesis by auto
qed

text \<open>C17. A run that is told to stop at a step it has not passed returns: with a result or an error, whatever
  the program does and whatever proofs and snapshots are asked for.\<close>

theorem kernel_stops:
  assumes "hash32 (env_keccak (kn_env ke))" and "machine_ok (env_keccak (kn_env ke)) v"
    and "unat (step (vm_state v)) \<le> unat n"
  shows "\<exists>r. kernel_loop ke (Equal n) pf_at snap_at pf_fmt snap_fmt (v, srv, tasks) = Some r"
  using kernel_loop_returns [OF assms(1) refl, of "(v, srv, tasks)" "Equal n"] assms(2) by auto

theorem kernel_stops_witness:
  "\<exists>r. kernel_loop demo_kernel_env (Equal 1000000) (MultipleOf 10) (MultipleOf 1000) ''%d'' ''%d.gz'' (demo_vm, None, []) = Some r"
  by (rule kernel_stops) (use demo_hash32 demo_machine_ok demo_kernel_keccak demo_step_0 in simp_all)

text \<open>C16. Proofs and snapshots do not change a run. Two runs from the same machine with the same stop
  pattern and any other patterns that do not panic behave alike: both go on forever, both fail with the
  same error, or both end with the same server and with machines that agree in every field, the memory's
  contents included, except for caches and the tracked access.\<close>

theorem kernel_independence:
  assumes "hash32 (env_keccak (kn_env ke))" and "machine_ok (env_keccak (kn_env ke)) v"
    and "pf_at \<noteq> MultipleOf 0" and "pf_at' \<noteq> MultipleOf 0" and "snap_at \<noteq> MultipleOf 0" and "snap_at' \<noteq> MultipleOf 0"
  shows "rel_option (rel_sum (=) (\<lambda>(u, srv1, ts) (u', srv1', ts'). vm_sim (env_keccak (kn_env ke)) u u' \<and> srv1 = srv1'))
    (kernel_loop ke stp pf_at snap_at pf_fmt snap_fmt (v, srv, []))
    (kernel_loop ke stp pf_at' snap_at' pf_fmt' snap_fmt' (v, srv, []))"
proof -
  let ?k = "env_keccak (kn_env ke)"
  have "vm_sim ?k v v"
    using assms(2) vm_simI [of ?k v "vm_memory v"] retrack_id [of v] state_okD(1) by (metis machine_ok_def mem_sim_def)
  then have sim: "run_sim ?k (v, srv, []) (v, srv, [])" by (simp add: run_sim_def)
  have ok: "machine_ok ?k (fst (v, srv, [] :: io_task list))" using assms(2) by simp
  have rel: "rel_sum (=) (run_sim ?k) = rel_sum (=) (\<lambda>(u, srv1, ts) (u', srv1', ts'). vm_sim ?k u u' \<and> srv1 = srv1')"
    by (rule arg_cong [where f = "rel_sum (=)"]) (auto simp: run_sim_def fun_eq_iff)
  show ?thesis
  proof (cases "kernel_loop ke stp pf_at snap_at pf_fmt snap_fmt (v, srv, [])")
    case (Some r)
    from kernel_loop_sim [OF assms(1) refl assms(3-6) Some ok ok sim, of pf_fmt' snap_fmt'] Some show ?thesis
      by (auto simp: rel)
  next
    case None
    have "kernel_loop ke stp pf_at' snap_at' pf_fmt' snap_fmt' (v, srv, []) = None"
    proof (rule ccontr)
      assume "kernel_loop ke stp pf_at' snap_at' pf_fmt' snap_fmt' (v, srv, []) \<noteq> None"
      then obtain r where "kernel_loop ke stp pf_at' snap_at' pf_fmt' snap_fmt' (v, srv, []) = Some r" by blast
      from kernel_loop_sim [OF assms(1) refl assms(4,3,6,5) this ok ok sim, of pf_fmt snap_fmt] None show False by simp
    qed
    with None show ?thesis by simp
  qed
qed

theorem kernel_independence_witness:
  "\<exists>u ts u' ts'. kernel_loop demo_kernel_env (Equal 1) Always Never ''%d.json'' ''%d.json'' (demo_vm, None, []) = Some (Inr (u, None, ts))
    \<and> kernel_loop demo_kernel_env (Equal 1) Never Always ''%d'' ''%d'' (demo_vm, None, []) = Some (Inr (u', None, ts')) \<and> vm_sim demo_hash u u'"
proof -
  obtain u ts where l: "kernel_loop demo_kernel_env (Equal 1) Always Never ''%d.json'' ''%d.json'' (demo_vm, None, []) = Some (Inr (u, None, ts))"
    using demo_loop by blast
  have "rel_option (rel_sum (=) (\<lambda>(u, srv1, ts) (u', srv1', ts'). vm_sim demo_hash u u' \<and> srv1 = srv1'))
    (kernel_loop demo_kernel_env (Equal 1) Always Never ''%d.json'' ''%d.json'' (demo_vm, None, []))
    (kernel_loop demo_kernel_env (Equal 1) Never Always ''%d'' ''%d'' (demo_vm, None, []))"
    using kernel_independence [of demo_kernel_env demo_vm Always Never Never Always "Equal 1" "''%d.json''" "''%d.json''" None "''%d''" "''%d''"]
      demo_hash32 demo_machine_ok demo_kernel_keccak by simp
  with l show ?thesis by (auto simp: option_rel_Some1 elim!: rel_sum.cases)
qed

text \<open>C15. The proofs of a run that proves every step form a chain that can be checked: the first starts at the
  hash of the initial state, each is over its own witness state, each starts where the one before ended,
  the replay of each witness ends in a state with the hash that the proof records, and the last
  ends at the hash of the final state. The oracle must not answer with 4 GiB or more.\<close>

theorem proof_chain:
  assumes "hash32 (env_keccak (kn_env ke))" and "machine_ok (env_keccak (kn_env ke)) v" and "short_preimages (kn_env ke)" and "cache_short v"
    and "kernel_loop ke stp Always snap_at pf_fmt snap_fmt (v, srv, []) = Some (Inr (v', srv', tasks))"
  shows "linked (env_keccak (kn_env ke)) (machine_hash (env_keccak (kn_env ke)) v) tasks (machine_hash (env_keccak (kn_env ke)) v')"
  using kernel_loop_linked [OF assms(1) refl assms(3,5)] assms(2,4) by simp

theorem proof_chain_witness:
  "\<exists>v' ts. kernel_loop demo_kernel_env (Equal 1) Always Never ''%d.json'' ''%d.json'' (demo_vm, None, []) = Some (Inr (v', None, ts))
    \<and> linked demo_hash (machine_hash demo_hash demo_vm) ts (machine_hash demo_hash v')"
proof -
  obtain v1 ts where l: "kernel_loop demo_kernel_env (Equal 1) Always Never ''%d.json'' ''%d.json'' (demo_vm, None, []) = Some (Inr (v1, None, ts))"
    using demo_loop by blast
  have "short_preimages (kn_env demo_kernel_env)" by (simp add: short_preimages_def demo_kernel_env_def demo_env_def)
  moreover have "cache_short demo_vm" by (simp add: cache_short_def demo_vm_def instrumented_new_def)
  ultimately show ?thesis using l proof_chain [OF _ _ _ _ l] demo_hash32 demo_machine_ok demo_kernel_keccak by metis
qed

end
