(* ===== verification/Channel.thy ===== *)
theory Channel
  imports Preimage_Keys
begin

text \<open>
  The two ends of the preimage and hint channels (\<open>oracle.rs\<close>, \<open>hints.rs\<close>, \<open>file_chan.rs\<close> of the
  crate \<open>preimage\<close>, \<open>proc_oracle.rs\<close> of \<open>cannon\<close>). The operations are written over the \<open>read\<close> and
  \<open>write\<close> of an end. Reads block, so an end is modelled by the whole stream of bytes that will ever
  arrive at it and the stream it has sent; the peers are connected by taking what one sends as what
  arrives at the other. The operating system may transfer fewer bytes than asked for in every call.
\<close>

section \<open>Ends of a channel\<close>

text \<open>
  \<open>ReadWritePair\<close>: the bytes still to arrive, the bytes sent, and for the next calls how many bytes
  beyond the first the system transfers at most; with no entry left a call transfers all it can.
\<close>

record rwp =
  incoming :: bytes
  outgoing :: bytes
  read_caps :: "nat list"
  write_caps :: "nat list"

definition cap_limit :: "nat list \<Rightarrow> nat \<Rightarrow> nat" where
  "cap_limit caps n = (case caps of [] \<Rightarrow> n | c # _ \<Rightarrow> min n (Suc c))"

definition rwp_read :: "nat \<Rightarrow> rwp \<Rightarrow> (bytes \<times> rwp) res" where
  "rwp_read n p =
    (let amt = cap_limit (read_caps p) n
     in Inr (take amt (incoming p), p\<lparr>incoming := drop amt (incoming p), read_caps := tl (read_caps p)\<rparr>))"

definition rwp_write :: "bytes \<Rightarrow> rwp \<Rightarrow> (nat \<times> rwp) res" where
  "rwp_write buf p =
    (let amt = cap_limit (write_caps p) (length buf)
     in Inr (amt, p\<lparr>outgoing := outgoing p @ take amt buf, write_caps := tl (write_caps p)\<rparr>))"

section \<open>The default methods of \<open>Read\<close> and \<open>Write\<close>\<close>

type_synonym 'p chan_read = "nat \<Rightarrow> 'p \<Rightarrow> (bytes \<times> 'p) res"
type_synonym 'p chan_write = "bytes \<Rightarrow> 'p \<Rightarrow> (nat \<times> 'p) res"

function read_exact :: "'p chan_read \<Rightarrow> nat \<Rightarrow> 'p \<Rightarrow> (bytes \<times> 'p) res" where
  "read_exact rd n p =
    (if n = 0 then Inr ([], p)
     else rbind (rd n p) (\<lambda>(bs, p').
       if bs = [] then Inl UnexpectedEof
       else rbind (read_exact rd (n - length bs) p') (\<lambda>(cs, p''). Inr (bs @ cs, p''))))"
  by pat_completeness auto
termination
  by (relation "measure (\<lambda>(rd, n, p). n)") auto

declare read_exact.simps [simp del]

function write_all :: "'p chan_write \<Rightarrow> bytes \<Rightarrow> 'p \<Rightarrow> 'p res" where
  "write_all wr buf p =
    (if buf = [] then Inr p
     else rbind (wr buf p) (\<lambda>(n, p').
       if n = 0 then Inl WriteZero
       else if length buf < n then Inl PanicSlice
       else write_all wr (drop n buf) p'))"
  by pat_completeness auto
termination
  by (relation "measure (\<lambda>(wr, buf, p). length buf)") auto

declare write_all.simps [simp del]

section \<open>The preimage channel\<close>

definition client_get :: "'p chan_read \<Rightarrow> 'p chan_write \<Rightarrow> bytes \<Rightarrow> 'p \<Rightarrow> (bytes \<times> 'p) res" where
  "client_get rd wr key p =
     rbind (write_all wr key p) (\<lambda>p1.
     rbind (read_exact rd 8 p1) (\<lambda>(len, p2).
       let n = unat (from_be len :: u64)
       in if n = 0 then Inr ([], p2) else read_exact rd n p2))"

definition new_preimage_request :: "'p chan_read \<Rightarrow> 'p chan_write \<Rightarrow> (bytes \<Rightarrow> bytes res) \<Rightarrow> 'p \<Rightarrow> 'p res" where
  "new_preimage_request rd wr getter p =
     rbind (read_exact rd 32 p) (\<lambda>(key, p1).
     rbind (getter key) (\<lambda>value.
     rbind (write_all wr (u64_be (of_nat (length value))) p1) (\<lambda>p2.
       if value \<noteq> [] then write_all wr value p2 else Inr p2)))"

section \<open>The hint channel\<close>

text \<open>The result of the single \<open>write\<close> is ignored.\<close>

definition hint_writer_hint :: "'p chan_read \<Rightarrow> 'p chan_write \<Rightarrow> bytes \<Rightarrow> 'p \<Rightarrow> 'p res" where
  "hint_writer_hint rd wr hint p =
    (let hint_bytes = u32_be (of_nat (length hint)) @ hint
     in rbind (wr hint_bytes p) (\<lambda>(_, p1).
        rbind (read_exact rd 1 p1) (\<lambda>(_, p2). Inr p2)))"

text \<open>
  The handler changes a state of its own and may fail. The outer error is one of the channel; a
  failure of the handler is reported after the acknowledgement has been sent, so the channel goes on.
  \<open>True\<close> stands for the end of the stream.
\<close>

definition next_hint ::
  "'p chan_read \<Rightarrow> 'p chan_write \<Rightarrow> (bytes \<Rightarrow> 'h \<Rightarrow> error option \<times> 'h) \<Rightarrow> 'p \<Rightarrow> 'h \<Rightarrow> (bool res \<times> 'p \<times> 'h) res" where
  "next_hint rd wr router p h =
     rbind (rd 4 p) (\<lambda>(len, p1).
       if length len < 4 then Inr (Inr True, p1, h)
       else
         (let n = unat (from_be len :: u32)
          in rbind (if n = 0 then Inr ([], p1) else read_exact rd n p1) (\<lambda>(payload, p2).
             case router payload h of
               (Some e, h1) \<Rightarrow> rbind (wr [0] p2) (\<lambda>(_, p3). Inr (Inl HintFailed, p3, h1))
             | (None, h1) \<Rightarrow> rbind (wr [0] p2) (\<lambda>(_, p3). Inr (Inr False, p3, h1)))))"

section \<open>The oracle of a server process\<close>

record 'p process_oracle =
  preimage_client :: 'p
  hint_writer_client :: 'p

definition process_hint :: "'p chan_read \<Rightarrow> 'p chan_write \<Rightarrow> 'p process_oracle \<Rightarrow> bytes \<Rightarrow> 'p process_oracle res" where
  "process_hint rd wr orc value =
     rbind (hint_writer_hint rd wr value (hint_writer_client orc)) (\<lambda>p. Inr (orc\<lparr>hint_writer_client := p\<rparr>))"

definition process_get :: "'p chan_read \<Rightarrow> 'p chan_write \<Rightarrow> 'p process_oracle \<Rightarrow> bytes \<Rightarrow> (bytes \<times> 'p process_oracle) res" where
  "process_get rd wr orc key =
     rbind (client_get rd wr (raw_preimage_key key) (preimage_client orc)) (\<lambda>(v, p). Inr (v, orc\<lparr>preimage_client := p\<rparr>))"

section \<open>The interface of an end\<close>

text \<open>
  What the protocols rely on: a read takes a non-empty part of what arrives as long as anything
  arrives, a write sends a non-empty part of its buffer, and neither disturbs the other direction.
\<close>

locale byte_channel =
  fixes rd :: "'p chan_read"
    and wr :: "'p chan_write"
    and inc :: "'p \<Rightarrow> bytes"
    and out :: "'p \<Rightarrow> bytes"
  assumes rd_some: "0 < n \<Longrightarrow> inc p \<noteq> [] \<Longrightarrow>
      \<exists>bs p'. rd n p = Inr (bs, p') \<and> bs \<noteq> [] \<and> length bs \<le> n \<and> inc p = bs @ inc p' \<and> out p' = out p"
    and rd_none: "0 < n \<Longrightarrow> inc p = [] \<Longrightarrow> \<exists>p'. rd n p = Inr ([], p') \<and> inc p' = [] \<and> out p' = out p"
    and wr_some: "buf \<noteq> [] \<Longrightarrow>
      \<exists>n p'. wr buf p = Inr (n, p') \<and> 0 < n \<and> n \<le> length buf \<and> out p' = out p @ take n buf \<and> inc p' = inc p"
begin

lemma read_exact_ok:
  assumes "length bs = n" and "inc p = bs @ rest"
  shows "\<exists>p'. read_exact rd n p = Inr (bs, p') \<and> inc p' = rest \<and> out p' = out p"
  using assms
proof (induction n arbitrary: bs p rule: less_induct)
  case (less n)
  show ?case
  proof (cases "n = 0")
    case True
    with less.prems show ?thesis by (subst read_exact.simps) simp
  next
    case False
    with less.prems have "inc p \<noteq> []" by auto
    then obtain cs p1 where c: "rd n p = Inr (cs, p1)" "cs \<noteq> []" "length cs \<le> n" "inc p = cs @ inc p1" "out p1 = out p"
      using rd_some False by blast
    define ds where "ds = drop (length cs) bs"
    have "take (length cs) (cs @ inc p1) = take (length cs) (bs @ rest)" using c(4) less.prems(2) by simp
    then have "cs = take (length cs) bs" using c(3) less.prems(1) by simp
    then have bs: "bs = cs @ ds" unfolding ds_def by (metis append_take_drop_id)
    then have "inc p1 = ds @ rest" using c(4) less.prems(2) by simp
    moreover have "n - length cs < n" using False c(2) by simp
    moreover have "length ds = n - length cs" using bs less.prems(1) by simp
    ultimately obtain p2 where "read_exact rd (n - length cs) p1 = Inr (ds, p2)" "inc p2 = rest" "out p2 = out p1"
      using less.IH by blast
    with c bs False show ?thesis by (subst read_exact.simps) simp
  qed
qed

lemma read_exact_short:
  assumes "length (inc p) < n"
  shows "read_exact rd n p = Inl UnexpectedEof"
  using assms
proof (induction n arbitrary: p rule: less_induct)
  case (less n)
  show ?case
  proof (cases "inc p = []")
    case True
    with less.prems obtain p' where "rd n p = Inr ([], p')" using rd_none [of n p] by auto
    with less.prems show ?thesis by (subst read_exact.simps) simp
  next
    case False
    with less.prems obtain cs p1 where c: "rd n p = Inr (cs, p1)" "cs \<noteq> []" "length cs \<le> n" "inc p = cs @ inc p1"
      using rd_some [of n p] by auto
    have "n - length cs < n" "length (inc p1) < n - length cs" using c less.prems by (simp_all add: less_diff_conv2 add.commute)
    with less.IH have "read_exact rd (n - length cs) p1 = Inl UnexpectedEof" by blast
    with c less.prems show ?thesis by (subst read_exact.simps) simp
  qed
qed

lemma write_all_ok: "\<exists>p'. write_all wr buf p = Inr p' \<and> out p' = out p @ buf \<and> inc p' = inc p"
proof (induction buf arbitrary: p rule: length_induct)
  case (1 buf)
  show ?case
  proof (cases "buf = []")
    case True
    then show ?thesis by (subst write_all.simps) simp
  next
    case False
    then obtain n p1 where w: "wr buf p = Inr (n, p1)" "0 < n" "n \<le> length buf" "out p1 = out p @ take n buf" "inc p1 = inc p"
      using wr_some by blast
    have "length (drop n buf) < length buf" using False w(2) by simp
    then obtain p2 where "write_all wr (drop n buf) p1 = Inr p2" "out p2 = out p1 @ drop n buf" "inc p2 = inc p1"
      using "1.IH" by blast
    with w False show ?thesis by (subst write_all.simps) simp
  qed
qed

lemma client_get_ok:
  assumes "inc p = u64_be (of_nat (length v)) @ v @ rest" and "length v < 2 ^ 64"
  shows "\<exists>p'. client_get rd wr key p = Inr (v, p') \<and> inc p' = rest \<and> out p' = out p @ key"
proof -
  obtain p1 where p1: "write_all wr key p = Inr p1" "out p1 = out p @ key" "inc p1 = inc p" using write_all_ok by blast
  obtain p2 where p2: "read_exact rd 8 p1 = Inr (u64_be (of_nat (length v)), p2)" "inc p2 = v @ rest" "out p2 = out p1"
    using read_exact_ok [of "u64_be (of_nat (length v))" 8 p1 "v @ rest"] p1(3) assms(1) by auto
  have n: "unat (of_nat (length v) :: u64) = length v" using assms(2) by (simp add: unat_of_nat)
  obtain p3 where p3: "read_exact rd (length v) p2 = Inr (v, p3)" "inc p3 = rest" "out p3 = out p2"
    using read_exact_ok [OF refl p2(2)] by blast
  show ?thesis
  proof (cases "v = []")
    case True
    with p1 p2 n show ?thesis by (simp add: client_get_def Let_def del: be_bytes.simps)
  next
    case False
    with p1 p2 p3 n show ?thesis by (simp add: client_get_def Let_def del: be_bytes.simps)
  qed
qed

lemma request_ok:
  assumes "inc p = key @ rest" and "length key = 32" and "getter key = Inr v"
  shows "\<exists>p'. new_preimage_request rd wr getter p = Inr p' \<and> inc p' = rest \<and> out p' = out p @ u64_be (of_nat (length v)) @ v"
proof -
  obtain p1 where p1: "read_exact rd 32 p = Inr (key, p1)" "inc p1 = rest" "out p1 = out p"
    using read_exact_ok [OF assms(2,1)] by blast
  obtain p2 where p2: "write_all wr (u64_be (of_nat (length v))) p1 = Inr p2" "out p2 = out p1 @ u64_be (of_nat (length v))" "inc p2 = inc p1"
    using write_all_ok by blast
  obtain p3 where p3: "write_all wr v p2 = Inr p3" "out p3 = out p2 @ v" "inc p3 = inc p2" using write_all_ok by blast
  show ?thesis
    using p1 p2 p3 assms(3) by (cases "v = []") (simp_all add: new_preimage_request_def del: be_bytes.simps)
qed

end

lemma cap_limit_bounds: "0 < n \<Longrightarrow> 0 < cap_limit caps n" "cap_limit caps n \<le> n"
  by (simp_all add: cap_limit_def split: list.split)

interpretation rw: byte_channel rwp_read rwp_write incoming outgoing
proof
  fix n :: nat and p :: rwp
  assume n: "0 < n"
  let ?a = "cap_limit (read_caps p) n"
  have a: "0 < ?a" "?a \<le> n" using n by (simp_all add: cap_limit_bounds)
  show "\<exists>bs p'. rwp_read n p = Inr (bs, p') \<and> bs \<noteq> [] \<and> length bs \<le> n \<and> incoming p = bs @ incoming p' \<and> outgoing p' = outgoing p"
    if "incoming p \<noteq> []"
    using a that by (intro exI [of _ "take ?a (incoming p)"] exI [of _ "p\<lparr>incoming := drop ?a (incoming p), read_caps := tl (read_caps p)\<rparr>"])
      (simp add: rwp_read_def Let_def)
  show "\<exists>p'. rwp_read n p = Inr ([], p') \<and> incoming p' = [] \<and> outgoing p' = outgoing p" if "incoming p = []"
    using that by (simp add: rwp_read_def Let_def)
next
  fix buf :: bytes and p :: rwp
  assume "buf \<noteq> []"
  then show "\<exists>n p'. rwp_write buf p = Inr (n, p') \<and> 0 < n \<and> n \<le> length buf \<and> outgoing p' = outgoing p @ take n buf \<and> incoming p' = incoming p"
    by (simp add: rwp_write_def Let_def cap_limit_bounds)
qed

section \<open>Truncated answers\<close>

context byte_channel
begin

lemma client_get_truncated:
  assumes "inc p = take j (u64_be (of_nat (length v)) @ v)" and "j < 8 + length v" and "length v < 2 ^ 64"
  shows "client_get rd wr key p = Inl UnexpectedEof"
proof -
  obtain p1 where p1: "write_all wr key p = Inr p1" "inc p1 = inc p" using write_all_ok by blast
  show ?thesis
  proof (cases "j < 8")
    case True
    then have "length (inc p1) < 8" using p1(2) assms(1) by simp
    with p1(1) show ?thesis by (simp add: client_get_def read_exact_short)
  next
    case False
    then have "inc p1 = u64_be (of_nat (length v)) @ take (j - 8) v" using p1(2) assms(1) by simp
    then obtain p2 where p2: "read_exact rd 8 p1 = Inr (u64_be (of_nat (length v)), p2)" "inc p2 = take (j - 8) v"
      using read_exact_ok [of "u64_be (of_nat (length v))" 8 p1 "take (j - 8) v"] by auto
    have n: "unat (of_nat (length v) :: u64) = length v" using assms(3) by (simp add: unat_of_nat)
    have "length (inc p2) < length v" using p2(2) False assms(2) by simp
    then have "read_exact rd (length v) p2 = Inl UnexpectedEof" "length v \<noteq> 0" by (auto intro: read_exact_short)
    with p1(1) p2(1) n show ?thesis by (simp add: client_get_def Let_def del: be_bytes.simps)
  qed
qed

end

section \<open>Hints\<close>

definition hint_message :: "bytes \<Rightarrow> bytes" where
  "hint_message hint = u32_be (of_nat (length hint)) @ hint"

lemma rwp_ack: "\<exists>n. rwp_write [0] p = Inr (n, p\<lparr>outgoing := outgoing p @ [0], write_caps := tl (write_caps p)\<rparr>)"
proof -
  have "cap_limit (write_caps p) 1 = 1" using cap_limit_bounds(1) [of 1 "write_caps p"] cap_limit_bounds(2) [of "write_caps p" 1] by linarith
  then show ?thesis by (simp add: rwp_write_def Let_def)
qed

lemma rwp_read_header:
  assumes "incoming p = h @ rest" and "length h = 4" and "cap_limit (read_caps p) 4 = 4"
  shows "rwp_read 4 p = Inr (h, p\<lparr>incoming := rest, read_caps := tl (read_caps p)\<rparr>)"
  using assms by (simp add: rwp_read_def Let_def)

lemma next_hint_ok:
  assumes msg: "incoming r = hint_message hint @ later" and len: "length hint < 2 ^ 32" and cap: "cap_limit (read_caps r) 4 = 4"
  shows "\<exists>r'. next_hint rwp_read rwp_write router r h
      = Inr (case router hint h of (Some e, h1) \<Rightarrow> (Inl HintFailed, r', h1) | (None, h1) \<Rightarrow> (Inr False, r', h1))
    \<and> incoming r' = later \<and> outgoing r' = outgoing r @ [0]"
proof -
  let ?r1 = "r\<lparr>incoming := hint @ later, read_caps := tl (read_caps r)\<rparr>"
  have hd: "rwp_read 4 r = Inr (u32_be (of_nat (length hint)), ?r1)"
    using rwp_read_header [of r "u32_be (of_nat (length hint))" "hint @ later"] msg cap by (simp add: hint_message_def del: be_bytes.simps)
  have n: "unat (of_nat (length hint) :: u32) = length hint" using len by (simp add: unat_of_nat)
  have "incoming ?r1 = hint @ later" by simp
  from rw.read_exact_ok [OF refl this] obtain r2 where
    r2: "read_exact rwp_read (length hint) ?r1 = Inr (hint, r2)" "incoming r2 = later" "outgoing r2 = outgoing r" by auto
  have pl: "(if length hint = 0 then Inr ([], ?r1) else read_exact rwp_read (length hint) ?r1) = Inr (hint, r2)"
  proof (cases "hint = []")
    case True
    with r2(1) show ?thesis by (simp add: read_exact.simps)
  next
    case False
    with r2(1) show ?thesis by simp
  qed
  obtain c where ack: "rwp_write [0] r2 = Inr (c, r2\<lparr>outgoing := outgoing r2 @ [0], write_caps := tl (write_caps r2)\<rparr>)"
    using rwp_ack by blast
  let ?r3 = "r2\<lparr>outgoing := outgoing r2 @ [0], write_caps := tl (write_caps r2)\<rparr>"
  have "next_hint rwp_read rwp_write router r h
      = Inr (case router hint h of (Some e, h1) \<Rightarrow> (Inl HintFailed, ?r3, h1) | (None, h1) \<Rightarrow> (Inr False, ?r3, h1))"
    using hd pl n ack by (simp add: next_hint_def Let_def del: be_bytes.simps split: prod.split option.split)
  with r2 show ?thesis by (intro exI [of _ ?r3]) simp
qed

section \<open>Properties\<close>

text \<open>C26. A preimage request round trips. Whatever the system splits the transfers into, a server that
  receives a key answers with the length and the bytes of its preimage and leaves the rest of the
  stream alone. A client that receives this answer returns exactly the preimage, has sent exactly
  the key, and leaves the rest of the stream for the next request; a client whose stream ends
  inside the answer reports the end of the file.\<close>

theorem preimage_request_roundtrip:
  assumes "length key = 32" and "getter key = Inr v" and "length v < 2 ^ 64" and "incoming srv = key @ later"
  shows "\<exists>srv' answer. new_preimage_request rwp_read rwp_write getter srv = Inr srv'
    \<and> incoming srv' = later \<and> outgoing srv' = outgoing srv @ answer
    \<and> (\<forall>cl rest. incoming cl = answer @ rest \<longrightarrow> (\<exists>cl'. client_get rwp_read rwp_write key cl = Inr (v, cl')
          \<and> incoming cl' = rest \<and> outgoing cl' = outgoing cl @ key))
    \<and> (\<forall>cl j. j < length answer \<and> incoming cl = take j answer \<longrightarrow> client_get rwp_read rwp_write key cl = Inl UnexpectedEof)"
proof -
  let ?answer = "u64_be (of_nat (length v)) @ v"
  obtain srv' where s: "new_preimage_request rwp_read rwp_write getter srv = Inr srv'" "incoming srv' = later"
      "outgoing srv' = outgoing srv @ ?answer"
    using rw.request_ok [where p = srv and key = key and rest = later and getter = getter and v = v] assms by blast
  have "\<exists>cl'. client_get rwp_read rwp_write key cl = Inr (v, cl') \<and> incoming cl' = rest \<and> outgoing cl' = outgoing cl @ key"
    if "incoming cl = ?answer @ rest" for cl rest
    using rw.client_get_ok [OF _ assms(3), of cl rest key] that by simp
  moreover have "client_get rwp_read rwp_write key cl = Inl UnexpectedEof" if "j < length ?answer" "incoming cl = take j ?answer" for cl j
    using rw.client_get_truncated [OF that(2) _ assms(3)] that(1) by simp
  ultimately show ?thesis using s by blast
qed

definition demo_end :: "bytes \<Rightarrow> rwp" where
  "demo_end xs = \<lparr>incoming = xs, outgoing = [], read_caps = [2, 0], write_caps = [6]\<rparr>"

theorem preimage_request_roundtrip_witness:
  "\<exists>srv' cl'. new_preimage_request rwp_read rwp_write (\<lambda>_. Inr [9, 8]) (demo_end (replicate 32 5)) = Inr srv'
    \<and> client_get rwp_read rwp_write (replicate 32 5) (demo_end (outgoing srv')) = Inr ([9, 8], cl') \<and> outgoing cl' = replicate 32 5"
proof -
  have "length (replicate 32 (5 :: u8)) = 32" "(\<lambda>_ :: bytes. Inr [9, 8] :: bytes res) (replicate 32 5) = Inr [9, 8]"
    "length [9, 8 :: u8] < 2 ^ 64" "incoming (demo_end (replicate 32 5)) = replicate 32 5 @ []"
    by (simp_all add: demo_end_def)
  from preimage_request_roundtrip [OF this] obtain srv' answer where
    s: "new_preimage_request rwp_read rwp_write (\<lambda>_. Inr [9, 8]) (demo_end (replicate 32 5)) = Inr srv'"
    "outgoing srv' = outgoing (demo_end (replicate 32 5)) @ answer"
    "\<forall>cl rest. incoming cl = answer @ rest \<longrightarrow> (\<exists>cl'. client_get rwp_read rwp_write (replicate 32 5) cl = Inr ([9, 8], cl')
          \<and> incoming cl' = rest \<and> outgoing cl' = outgoing cl @ replicate 32 5)"
    by blast
  have "incoming (demo_end (outgoing srv')) = answer @ []" using s(2) by (simp add: demo_end_def)
  then obtain cl' where "client_get rwp_read rwp_write (replicate 32 5) (demo_end (outgoing srv')) = Inr ([9, 8], cl')"
      "outgoing cl' = outgoing (demo_end (outgoing srv')) @ replicate 32 5"
    using s(3) by blast
  with s(1) show ?thesis by (simp add: demo_end_def)
qed

text \<open>C30. Hints. If the system takes the message of a writer in one piece and delivers its header in one
  piece, the handler of the reader is called with exactly the hint, and the reader sends one byte to
  release the writer, also when the handler fails; both streams are then at the next hint.\<close>

theorem hint_roundtrip:
  assumes "length hint < 2 ^ 32" and "cap_limit (write_caps w) (4 + length hint) = 4 + length hint"
    and "incoming w = 0 # acks" and "cap_limit (read_caps r) 4 = 4"
  shows "\<exists>w' msg. hint_writer_hint rwp_read rwp_write hint w = Inr w' \<and> outgoing w' = outgoing w @ msg \<and> incoming w' = acks
    \<and> (incoming r = msg @ later \<longrightarrow>
        (\<exists>r'. next_hint rwp_read rwp_write router r h
            = Inr (case router hint h of (Some e, h1) \<Rightarrow> (Inl HintFailed, r', h1) | (None, h1) \<Rightarrow> (Inr False, r', h1))
          \<and> incoming r' = later \<and> outgoing r' = outgoing r @ [0]))"
proof -
  let ?m = "hint_message hint" and ?w1 = "w\<lparr>outgoing := outgoing w @ hint_message hint, write_caps := tl (write_caps w)\<rparr>"
  have wr: "rwp_write ?m w = Inr (4 + length hint, ?w1)"
    using assms(2) by (simp add: rwp_write_def Let_def hint_message_def del: be_bytes.simps)
  have "incoming ?w1 = [0] @ acks" using assms(3) by simp
  from rw.read_exact_ok [where n = 1, OF _ this] obtain w2 where
    "read_exact rwp_read 1 ?w1 = Inr ([0], w2)" "incoming w2 = acks" "outgoing w2 = outgoing ?w1" by auto
  then have "hint_writer_hint rwp_read rwp_write hint w = Inr w2 \<and> outgoing w2 = outgoing w @ ?m \<and> incoming w2 = acks"
    using wr by (simp add: hint_writer_hint_def Let_def hint_message_def del: be_bytes.simps)
  moreover have "\<exists>r'. next_hint rwp_read rwp_write router r h
            = Inr (case router hint h of (Some e, h1) \<Rightarrow> (Inl HintFailed, r', h1) | (None, h1) \<Rightarrow> (Inr False, r', h1))
          \<and> incoming r' = later \<and> outgoing r' = outgoing r @ [0]" if "incoming r = ?m @ later"
    by (rule next_hint_ok [OF that assms(1,4)])
  ultimately show ?thesis by (intro exI [of _ w2] exI [of _ ?m]) simp
qed

theorem hint_roundtrip_witness:
  "\<exists>w'. hint_writer_hint rwp_read rwp_write [1, 2, 3] \<lparr>incoming = [0], outgoing = [], read_caps = [], write_caps = [6]\<rparr> = Inr w' \<and> incoming w' = []"
proof -
  let ?w = "\<lparr>incoming = [0], outgoing = [], read_caps = [], write_caps = [6]\<rparr> :: rwp"
  have "length [1, 2, 3 :: u8] < 2 ^ 32" "cap_limit (write_caps ?w) (4 + length [1, 2, 3 :: u8]) = 4 + length [1, 2, 3 :: u8]"
    "incoming ?w = 0 # []" "cap_limit (read_caps ?w) 4 = 4"
    by (simp_all add: cap_limit_def)
  from hint_roundtrip [where router = "\<lambda>hint h. (None, h @ [hint])" and h = "[] :: bytes list" and later = "[]", OF this]
  show ?thesis by (elim exE conjE) (rule exI, rule conjI)
qed

text \<open>A header that arrives in pieces. If the first read of the reader returns fewer than four bytes,
  although a whole hint is on its way, the reader reports the end of the stream: the handler is not
  called, the writer is not released, and the bytes already read are lost.\<close>

lemma hint_short_header:
  assumes "cap_limit (read_caps r) 4 < 4" and "incoming r = hint_message hint @ later"
  shows "\<exists>n r'. 0 < n \<and> n < 4 \<and> next_hint rwp_read rwp_write router r h = Inr (Inr True, r', h)
    \<and> incoming r' = drop n (hint_message hint) @ later \<and> outgoing r' = outgoing r"
proof -
  let ?n = "cap_limit (read_caps r) 4"
  have "0 < ?n" by (rule cap_limit_bounds(1)) simp
  moreover have "?n < length (hint_message hint)" using assms(1) by (simp add: hint_message_def)
  ultimately show ?thesis
    using assms by (intro exI [of _ ?n] exI [of _ "r\<lparr>incoming := drop ?n (incoming r), read_caps := tl (read_caps r)\<rparr>"])
      (simp add: next_hint_def rwp_read_def Let_def)
qed

end
