(* ===== verification/State_Serde.thy ===== *)
theory State_Serde
  imports Memory_Serde State
begin

text \<open>
  The serialized form of a state: what \<open>derive(Serialize, Deserialize)\<close> on \<open>State\<close> produces field by
  field, with the hexadecimal fields of \<open>ser.rs\<close> and the entries of the memory. The text format around
  the fields is a parameter of the programs that read and write files.
\<close>

record state_json =
  json_memory :: "(nat \<times> string) list"
  json_preimage_key :: string
  json_preimage_offset :: u32
  json_pc :: u32
  json_next_pc :: u32
  json_lo :: u32
  json_hi :: u32
  json_heap :: u32
  json_exit_code :: u8
  json_exited :: bool
  json_step :: u64
  json_registers :: "u32 list"
  json_last_hint :: string

definition state_serialize :: "hex_encode \<Rightarrow> nat list \<Rightarrow> state \<Rightarrow> state_json" where
  "state_serialize enc iter s =
     \<lparr>json_memory = mem_serialize enc iter (memory s),
      json_preimage_key = fixed_hex_serialize enc (preimage_key s),
      json_preimage_offset = preimage_offset s, json_pc = pc s, json_next_pc = next_pc s,
      json_lo = lo s, json_hi = hi s, json_heap = heap s, json_exit_code = exit_code s, json_exited = exited s,
      json_step = step s, json_registers = registers s, json_last_hint = vec_hex_serialize enc (last_hint s)\<rparr>"

text \<open>The fields are read in the order of the struct; an array of registers needs 32 elements.\<close>

definition state_deserialize :: "hash_fn \<Rightarrow> hex_decode \<Rightarrow> state_json \<Rightarrow> state res" where
  "state_deserialize keccak dec j =
     rbind (mem_deserialize keccak dec (json_memory j)) (\<lambda>m.
     rbind (fixed_hex_deserialize 32 dec (json_preimage_key j)) (\<lambda>key.
       if length (json_registers j) \<noteq> 32 then Inl SerdeError
       else rbind (vec_hex_deserialize dec (json_last_hint j)) (\<lambda>hint.
         Inr \<lparr>memory = m, preimage_key = key, preimage_offset = json_preimage_offset j, pc = json_pc j,
              next_pc = json_next_pc j, lo = json_lo j, hi = json_hi j, heap = json_heap j,
              exit_code = json_exit_code j, exited = json_exited j, step = json_step j,
              registers = json_registers j, last_hint = hint\<rparr>)))"

lemma state_serde_ok:
  assumes "hex_inverse enc dec" and "state_ok k s" and "enumerates iter (memory s)"
  obtains m' where "state_deserialize k dec (state_serialize enc iter s) = Inr (s\<lparr>memory := m'\<rparr>)"
    and "state_ok k (s\<lparr>memory := m'\<rparr>)" and "dom (pages m') = dom (pages (memory s))" and "mem_byte m' = mem_byte (memory s)"
    and "\<And>iter'. enumerates iter' m' \<Longrightarrow> state_serialize enc iter' (s\<lparr>memory := m'\<rparr>) = state_serialize enc iter s"
proof -
  obtain m' where m': "mem_deserialize k dec (mem_serialize enc iter (memory s)) = Inr m'" "mem_ok k m'"
      "dom (pages m') = dom (pages (memory s))" "mem_byte m' = mem_byte (memory s)"
      "\<And>iter'. enumerates iter' m' \<Longrightarrow> mem_serialize enc iter' m' = mem_serialize enc iter (memory s)"
    using mem_serde_roundtrip [OF assms(1) state_okD(1) [OF assms(2)] assms(3)] by blast
  show ?thesis
    using m' state_okD [OF assms(2)] hex_fields [OF assms(1)]
    by (intro that [of m']) (simp_all add: state_deserialize_def state_serialize_def state_ok_def)
qed

section \<open>Properties\<close>

text \<open>C21. Serializing a well-formed state and reading it back yields a well-formed state that agrees in
  every field and in the contents and the pages of its memory, has the same witness encoding, and
  serializes to the same fields again, in whatever order the hash maps iterate.\<close>

theorem state_roundtrip:
  assumes "hash32 k" and "hex_inverse enc dec" and "state_ok k s" and "enumerates iter (memory s)"
  shows "\<exists>m'. state_deserialize k dec (state_serialize enc iter s) = Inr (s\<lparr>memory := m'\<rparr>) \<and> state_ok k (s\<lparr>memory := m'\<rparr>)
    \<and> dom (pages m') = dom (pages (memory s)) \<and> mem_byte m' = mem_byte (memory s)
    \<and> map_sum id fst (encode_witness k (s\<lparr>memory := m'\<rparr>)) = map_sum id fst (encode_witness k s)
    \<and> (\<forall>iter'. enumerates iter' m' \<longrightarrow> state_serialize enc iter' (s\<lparr>memory := m'\<rparr>) = state_serialize enc iter s)"
proof (rule state_serde_ok [OF assms(2-4)])
  fix m'
  let ?t = "s\<lparr>memory := m'\<rparr>"
  assume d: "state_deserialize k dec (state_serialize enc iter s) = Inr ?t" and ok: "state_ok k ?t"
    and m': "dom (pages m') = dom (pages (memory s))" "mem_byte m' = mem_byte (memory s)"
    and it: "\<And>iter'. enumerates iter' m' \<Longrightarrow> state_serialize enc iter' ?t = state_serialize enc iter s"
  obtain m1 where 1: "encode_witness k s = Inr (witness_of (subtree k (mem_leaf (memory s)) 27 0) s, s\<lparr>memory := m1\<rparr>)"
    by (rule encode_witness_ok [OF assms(3,1)])
  obtain m2 where 2: "encode_witness k ?t = Inr (witness_of (subtree k (mem_leaf (memory ?t)) 27 0) ?t, ?t\<lparr>memory := m2\<rparr>)"
    by (rule encode_witness_ok [OF ok assms(1)])
  have "mem_leaf (memory ?t) = mem_leaf (memory s)" using mem_leaf_cong [OF m'(2)] by simp
  then have "map_sum id fst (encode_witness k ?t) = map_sum id fst (encode_witness k s)"
    unfolding 1 2 by (simp add: witness_of_def del: subtree.simps)
  with d ok m' it show ?thesis by blast
qed

theorem state_roundtrip_witness:
  "\<exists>m'. state_deserialize (\<lambda>_. zero32) demo_decode (state_serialize demo_encode [] (state_default\<lparr>pc := 8\<rparr>))
      = Inr (state_default\<lparr>pc := 8, memory := m'\<rparr>) \<and> mem_byte m' = mem_byte memory_default"
proof -
  have "hash32 (\<lambda>_. zero32)" by (simp add: hash32_def zero32_def)
  moreover have "state_ok (\<lambda>_. zero32) (state_default\<lparr>pc := 8\<rparr>)" using state_default_ok by (simp add: state_ok_def)
  moreover have "enumerates [] (memory (state_default\<lparr>pc := 8\<rparr>))" by (simp add: enumerates_def state_default_def memory_default_def)
  ultimately show ?thesis
    using state_roundtrip [of "\<lambda>_. zero32" demo_encode demo_decode "state_default\<lparr>pc := 8\<rparr>" "[]"] demo_hex by (auto simp: state_default_def)
qed

end
