(* ===== verification/Cli.thy ===== *)
theory Cli
  imports Kernel Channel State_Serde
begin

text \<open>
  The programs of the binary \<open>cannon\<close>: \<open>load-elf\<close>, \<open>witness\<close> and \<open>run\<close>, with the builder of the kernel
  and the start of the server process. The file system, gzip, the text format, the ELF parser, pipes
  and processes are parameters, collected in two records; \<open>cl_iter\<close> is the order in which the hash map
  of a memory iterates, and \<open>cl_logs\<close> tells whether the log line at the end of \<open>load-elf\<close> is enabled,
  since its arguments are only evaluated then.
\<close>

section \<open>Parameters\<close>

record 'f cli_env =
  cl_keccak :: hash_fn
  cl_parse :: "bytes \<Rightarrow> elf_file res"
  cl_read :: "string \<Rightarrow> 'f \<Rightarrow> bytes res"
  cl_create :: "string \<Rightarrow> 'f \<Rightarrow> 'f res"
  cl_write :: "string \<Rightarrow> bytes \<Rightarrow> 'f \<Rightarrow> 'f res"
  cl_print :: "bytes \<Rightarrow> 'f \<Rightarrow> 'f"
  cl_json :: "state_json \<Rightarrow> bytes"
  cl_unjson :: "bytes \<Rightarrow> state_json res"
  cl_compress :: "bytes \<Rightarrow> bytes res"
  cl_decompress :: "bytes \<Rightarrow> bytes res"
  cl_encode :: hex_encode
  cl_decode :: hex_decode
  cl_iter :: "memory \<Rightarrow> nat list"
  cl_show_hash :: "bytes \<Rightarrow> bytes"
  cl_logs :: bool

definition ser_state :: "'f cli_env \<Rightarrow> state \<Rightarrow> bytes" where
  "ser_state ce s = cl_json ce (state_serialize (cl_encode ce) (cl_iter ce (memory s)) s)"

definition de_state :: "'f cli_env \<Rightarrow> bytes \<Rightarrow> state res" where
  "de_state ce bs = rbind (cl_unjson ce bs) (state_deserialize (cl_keccak ce) (cl_decode ce))"

section \<open>\<open>cannon load-elf\<close>\<close>

datatype PatchKind = Go | Stack

definition PatchKind_from_str :: "string \<Rightarrow> PatchKind res" where
  "PatchKind_from_str s = (if s = ''go'' then Inr Go else if s = ''stack'' then Inr Stack else Inl (InvalidPatchKind s))"

record load_elf_args =
  elf_path :: string
  patch_kind :: "PatchKind list"
  elf_output :: "string option"

fun apply_patches :: "'f cli_env \<Rightarrow> bytes \<Rightarrow> PatchKind list \<Rightarrow> state \<Rightarrow> state res option" where
  "apply_patches ce raw [] s = Some (Inr s)"
| "apply_patches ce raw (p # ps) s =
     obind (case p of Go \<Rightarrow> patch_go (cl_keccak ce) (cl_parse ce) raw s | Stack \<Rightarrow> patch_stack (cl_keccak ce) s)
       (apply_patches ce raw ps)"

definition load_elf_dispatch :: "'f cli_env \<Rightarrow> load_elf_args \<Rightarrow> 'f \<Rightarrow> 'f res option" where
  "load_elf_dispatch ce args f =
     obind (Some (cl_read ce (elf_path args) f)) (\<lambda>elf_raw.
     obind (load_elf (cl_keccak ce) (cl_parse ce) elf_raw) (\<lambda>s.
     obind (apply_patches ce elf_raw (patch_kind args) s) (\<lambda>s1.
     obind (Some (case elf_output args of
         None \<Rightarrow> Inr f
       | Some path_str \<Rightarrow>
           if path_str = ''-'' then Inr (cl_print ce (ser_state ce s1) f)
           else rbind (cl_create ce path_str f) (\<lambda>f1.
                rbind (cl_compress ce (ser_state ce s1)) (\<lambda>gz. buf_write (cl_write ce path_str) gz f1)))) (\<lambda>f1.
       Some (if cl_logs ce
             then rbind (encode_witness (cl_keccak ce) s1) (\<lambda>(w, s2). rbind (usage (memory s2)) (\<lambda>_. Inr f1))
             else Inr f1)))))"

section \<open>\<open>cannon witness\<close>\<close>

definition witness_dispatch :: "'f cli_env \<Rightarrow> string \<Rightarrow> string option \<Rightarrow> 'f \<Rightarrow> 'f res" where
  "witness_dispatch ce path output f =
     rbind (cl_read ce path f) (\<lambda>state_raw.
     rbind (cl_decompress ce state_raw) (\<lambda>bs.
     rbind (de_state ce bs) (\<lambda>s.
     rbind (encode_witness (cl_keccak ce) s) (\<lambda>(witness, s1).
       let witness_hash = state_hash (cl_keccak ce) witness
       in case output of
            Some output_path \<Rightarrow>
              (case rbind (cl_create ce output_path f) (cl_write ce output_path witness) of
                 Inl e \<Rightarrow> Inl IoError
               | Inr f1 \<Rightarrow> Inr f1)
          | None \<Rightarrow> Inr (cl_print ce (cl_show_hash ce witness_hash) f)))))"

section \<open>Channels and the server process\<close>

text \<open>The two file descriptors of a \<open>ReadWritePair\<close>.\<close>

record fd_pair =
  fd_reader :: int
  fd_writer :: int

record ('f, 'c) server_env =
  sv_pipe :: "'f \<Rightarrow> ((int \<times> int) \<times> 'f) res"
  sv_spawn :: "string \<Rightarrow> string list \<Rightarrow> (int \<times> int) list \<Rightarrow> 'f \<Rightarrow> ('c \<times> 'f) res"

definition client_hinter_channel :: fd_pair where
  "client_hinter_channel = \<lparr>fd_reader = uint (PreimageFds_u8 HintClientRead), fd_writer = uint (PreimageFds_u8 HintClientWrite)\<rparr>"

definition client_preimage_channel :: fd_pair where
  "client_preimage_channel = \<lparr>fd_reader = uint (PreimageFds_u8 PreimageClientRead), fd_writer = uint (PreimageFds_u8 PreimageClientWrite)\<rparr>"

definition create_bidirectional_channel :: "('f, 'c) server_env \<Rightarrow> 'f \<Rightarrow> ((fd_pair \<times> fd_pair) \<times> 'f) res" where
  "create_bidirectional_channel se f =
     rbind (sv_pipe se f) (\<lambda>((ar, bw), f1).
     rbind (sv_pipe se f1) (\<lambda>((br, aw), f2).
       Inr ((\<lparr>fd_reader = ar, fd_writer = aw\<rparr>, \<lparr>fd_reader = br, fd_writer = bw\<rparr>), f2)))"

text \<open>The descriptors of the parent and the numbers they get in the child.\<close>

definition fd_mappings :: "fd_pair \<Rightarrow> fd_pair \<Rightarrow> (int \<times> int) list" where
  "fd_mappings server_hint server_pre =
    (let fds = [fd_reader server_hint, fd_writer server_hint, fd_reader server_pre, fd_writer server_pre]
     in map (\<lambda>(i, fd). (fd, 3 + int i)) (List.enumerate 0 fds))"

definition process_start ::
  "('f, 'c) server_env \<Rightarrow> string \<Rightarrow> string list \<Rightarrow> fd_pair \<times> fd_pair \<Rightarrow> fd_pair \<times> fd_pair \<Rightarrow> 'f
     \<Rightarrow> ((fd_pair process_oracle \<times> 'c option) \<times> 'f) res" where
  "process_start se cmd args client_io server_io f =
    (let orc = \<lparr>preimage_client = snd client_io, hint_writer_client = fst client_io\<rparr>
     in if cmd \<noteq> [] then
          rbind (sv_spawn se cmd args (fd_mappings (fst server_io) (snd server_io)) f) (\<lambda>(child, f1). Inr ((orc, Some child), f1))
        else Inr ((orc, None), f))"

section \<open>The builder\<close>

record 'c child_with_fds =
  child_inner :: 'c
  child_fds :: "fd_pair list"

record kernel_builder =
  kb_preimage_server :: string
  kb_input :: string
  kb_output :: "string option"
  kb_proof_at :: "string option"
  kb_proof_format :: "string option"
  kb_snapshot_at :: "string option"
  kb_snapshot_format :: "string option"
  kb_stop_at :: "string option"
  kb_info_at :: "string option"

definition builder_default :: kernel_builder where
  "builder_default = \<lparr>kb_preimage_server = [], kb_input = [], kb_output = None, kb_proof_at = None, kb_proof_format = None,
     kb_snapshot_at = None, kb_snapshot_format = None, kb_stop_at = None, kb_info_at = None\<rparr>"

definition with_preimage_server :: "string \<Rightarrow> kernel_builder \<Rightarrow> kernel_builder" where
  "with_preimage_server x b = b\<lparr>kb_preimage_server := x\<rparr>"
definition with_input :: "string \<Rightarrow> kernel_builder \<Rightarrow> kernel_builder" where
  "with_input x b = b\<lparr>kb_input := x\<rparr>"
definition with_output :: "string option \<Rightarrow> kernel_builder \<Rightarrow> kernel_builder" where
  "with_output x b = b\<lparr>kb_output := x\<rparr>"
definition with_proof_at :: "string option \<Rightarrow> kernel_builder \<Rightarrow> kernel_builder" where
  "with_proof_at x b = b\<lparr>kb_proof_at := x\<rparr>"
definition with_proof_format :: "string option \<Rightarrow> kernel_builder \<Rightarrow> kernel_builder" where
  "with_proof_format x b = b\<lparr>kb_proof_format := x\<rparr>"
definition with_snapshot_at :: "string option \<Rightarrow> kernel_builder \<Rightarrow> kernel_builder" where
  "with_snapshot_at x b = b\<lparr>kb_snapshot_at := x\<rparr>"
definition with_snapshot_format :: "string option \<Rightarrow> kernel_builder \<Rightarrow> kernel_builder" where
  "with_snapshot_format x b = b\<lparr>kb_snapshot_format := x\<rparr>"
definition with_stop_at :: "string option \<Rightarrow> kernel_builder \<Rightarrow> kernel_builder" where
  "with_stop_at x b = b\<lparr>kb_stop_at := x\<rparr>"
definition with_info_at :: "string option \<Rightarrow> kernel_builder \<Rightarrow> kernel_builder" where
  "with_info_at x b = b\<lparr>kb_info_at := x\<rparr>"

lemmas builder_defs = builder_default_def with_preimage_server_def with_input_def with_output_def with_proof_at_def
  with_proof_format_def with_snapshot_at_def with_snapshot_format_def with_stop_at_def with_info_at_def

text \<open>
  The input is read twice; the first copy is not used. \<open>out\<close> and \<open>err\<close> are the standard streams of the
  process.
\<close>

definition build ::
  "'f cli_env \<Rightarrow> ('f, 'c) server_env \<Rightarrow> 'w \<Rightarrow> 'w \<Rightarrow> kernel_builder \<Rightarrow> 'f
     \<Rightarrow> ((fd_pair process_oracle, 'w, 'c child_with_fds) kernel \<times> 'f) res" where
  "build ce se out err b f =
     rbind (cl_read ce (kb_input b) f) (\<lambda>_.
     rbind (cl_read ce (kb_input b) f) (\<lambda>raw_state.
     rbind (cl_decompress ce raw_state) (\<lambda>bs.
     rbind (de_state ce bs) (\<lambda>s.
     rbind (create_bidirectional_channel se f) (\<lambda>((hint_cl_rw, hint_oracle_rw), f1).
     rbind (create_bidirectional_channel se f1) (\<lambda>((pre_cl_rw, pre_oracle_rw), f2).
       case split_on CHR '' '' (kb_preimage_server b) of
         [] \<Rightarrow> Inl MissingServer
       | cmd # args \<Rightarrow>
           rbind (process_start se cmd args (hint_cl_rw, pre_cl_rw) (hint_oracle_rw, pre_oracle_rw) f2) (\<lambda>((orc, child), f3).
             Inr (kernel_new (instrumented_new s orc out err)
                    (map_option (\<lambda>p. \<lparr>child_inner = p, child_fds = [hint_oracle_rw, pre_oracle_rw]\<rparr>) child)
                    (kb_input b) (kb_output b) (kb_proof_at b) (kb_proof_format b) (kb_snapshot_at b) (kb_snapshot_format b)
                    (kb_stop_at b) (kb_info_at b), f3))))))))"

section \<open>\<open>cannon run\<close>\<close>

record run_args =
  ra_preimage_server :: string
  ra_input :: string
  ra_output :: "string option"
  ra_proof_at :: "string option"
  ra_proof_format :: "string option"
  ra_snapshot_at :: "string option"
  ra_snapshot_format :: "string option"
  ra_stop_at :: "string option"
  ra_info_at :: "string option"

definition run_builder :: "run_args \<Rightarrow> kernel_builder" where
  "run_builder args =
     with_info_at (ra_info_at args) (with_stop_at (ra_stop_at args)
     (with_snapshot_format (ra_snapshot_format args) (with_snapshot_at (ra_snapshot_at args)
     (with_proof_format (ra_proof_format args) (with_proof_at (ra_proof_at args)
     (with_output (ra_output args) (with_input (ra_input args)
     (with_preimage_server (filter (\<lambda>c. c \<noteq> CHR 0x22) (ra_preimage_server args)) builder_default))))))))"

definition run_dispatch ::
  "'f cli_env \<Rightarrow> ('f, 'c) server_env \<Rightarrow> (fd_pair process_oracle, 'w, 'c child_with_fds, 'f) kernel_env \<Rightarrow> 'w \<Rightarrow> 'w
     \<Rightarrow> run_args \<Rightarrow> 'f \<Rightarrow> 'f res option" where
  "run_dispatch ce se ke out err args f =
     obind (Some (build ce se out err (run_builder args) f)) (\<lambda>(kn, f1). kernel_run ke kn f1)"

section \<open>The binary\<close>

datatype CannonSubcommand = Run run_args | Witness string "string option" | LoadElf load_elf_args

fun dispatch_command ::
  "'f cli_env \<Rightarrow> ('f, 'c) server_env \<Rightarrow> (fd_pair process_oracle, 'w, 'c child_with_fds, 'f) kernel_env \<Rightarrow> 'w \<Rightarrow> 'w
     \<Rightarrow> CannonSubcommand \<Rightarrow> 'f \<Rightarrow> 'f res option" where
  "dispatch_command ce se ke out err (Run args) f = run_dispatch ce se ke out err args f"
| "dispatch_command ce se ke out err (Witness path output) f = Some (witness_dispatch ce path output f)"
| "dispatch_command ce se ke out err (LoadElf args) f = load_elf_dispatch ce args f"

text \<open>
  The levels of the log, and the level that a verbosity selects. Setting the global subscriber fails when
  there is one already. The log lines of the subcommands have the level \<open>INFO\<close>, so they are enabled, and
  their arguments evaluated, from verbosity 2 on; this is what \<open>cl_logs\<close> stands for.
\<close>

datatype log_level = ERROR | WARN | INFO | DEBUG | TRACE

definition max_level :: "u8 \<Rightarrow> log_level" where
  "max_level verbosity_level =
    (if verbosity_level = 0 then ERROR
     else if verbosity_level = 1 then WARN
     else if verbosity_level = 2 then INFO
     else if verbosity_level = 3 then DEBUG
     else TRACE)"

definition init_tracing_subscriber :: "u8 \<Rightarrow> log_level option \<Rightarrow> log_level res" where
  "init_tracing_subscriber verbosity_level global =
    (case global of None \<Rightarrow> Inr (max_level verbosity_level) | Some l \<Rightarrow> Inl SubscriberSet)"

record cannon_args =
  arg_v :: u8
  arg_subcommand :: CannonSubcommand

definition cannon_main ::
  "'f cli_env \<Rightarrow> ('f, 'c) server_env \<Rightarrow> (fd_pair process_oracle, 'w, 'c child_with_fds, 'f) kernel_env \<Rightarrow> 'w \<Rightarrow> 'w
     \<Rightarrow> log_level option \<Rightarrow> cannon_args \<Rightarrow> 'f \<Rightarrow> 'f res option" where
  "cannon_main ce se ke out err global args f =
     obind (Some (init_tracing_subscriber (arg_v args) global)) (\<lambda>l.
       dispatch_command (ce\<lparr>cl_logs := (l \<noteq> ERROR \<and> l \<noteq> WARN)\<rparr>) se ke out err (arg_subcommand args) f)"

end
