(* ===== verification/Gzip.thy ===== *)
theory Gzip
  imports Channel Memory_IO
begin

text \<open>
  \<open>gz.rs\<close>: compression and decompression of a byte slice. The encoder and the decoder of the crate
  \<open>flate2\<close> are parameters; what the file adds are the loops \<open>write_all\<close> and \<open>read_to_end\<close> over them.
  An encoder may take any part of what it is given, a decoder may deliver any part of what is left.
\<close>

section \<open>Operations\<close>

record ('g, 'd) gzip_env =
  gz_encoder :: 'g
  gz_write :: "bytes \<Rightarrow> 'g \<Rightarrow> (nat \<times> 'g) res"
  gz_finish :: "'g \<Rightarrow> bytes res"
  gz_decoder :: "bytes \<Rightarrow> 'd"
  gz_read :: "nat \<Rightarrow> 'd \<Rightarrow> (bytes \<times> 'd) res"

text \<open>\<open>read_to_end\<close> of the standard library reads until nothing comes; \<open>room\<close> is the free space that
  the growing vector offers to the next read. The loop runs forever on a decoder that never ends.\<close>

partial_function (option) drain :: "(nat \<Rightarrow> 'd \<Rightarrow> (bytes \<times> 'd) res) \<Rightarrow> (nat \<Rightarrow> nat) \<Rightarrow> bytes \<Rightarrow> 'd \<Rightarrow> bytes res option" where
  "drain rd room acc d =
    (case rd (room (length acc)) d of
       Inl e \<Rightarrow> Some (Inl e)
     | Inr (bs, d') \<Rightarrow> if bs = [] then Some (Inr acc) else drain rd room (acc @ bs) d')"

definition compress_bytes :: "('g, 'd) gzip_env \<Rightarrow> bytes \<Rightarrow> bytes res" where
  "compress_bytes ge bs = rbind (write_all (gz_write ge) bs (gz_encoder ge)) (gz_finish ge)"

definition decompress_bytes :: "('g, 'd) gzip_env \<Rightarrow> (nat \<Rightarrow> nat) \<Rightarrow> bytes \<Rightarrow> bytes res option" where
  "decompress_bytes ge room compressed_bytes = drain (gz_read ge) room [] (gz_decoder ge compressed_bytes)"

section \<open>Round trip\<close>

text \<open>The documented behaviour of the crate: an encoder takes a non-empty part of a non-empty buffer and
  remembers it (\<open>taken\<close>), and the decoder of a finished stream delivers what was taken (\<open>content\<close>), in
  parts.\<close>

definition gzip_laws :: "('g, 'd) gzip_env \<Rightarrow> ('g \<Rightarrow> bytes) \<Rightarrow> ('d \<Rightarrow> bytes) \<Rightarrow> bool" where
  "gzip_laws ge taken content \<longleftrightarrow> taken (gz_encoder ge) = []
     \<and> (\<forall>buf g. buf \<noteq> [] \<longrightarrow> (\<exists>n g'. gz_write ge buf g = Inr (n, g') \<and> 0 < n \<and> n \<le> length buf \<and> taken g' = taken g @ take n buf))
     \<and> (\<forall>g. \<exists>gz. gz_finish ge g = Inr gz \<and> content (gz_decoder ge gz) = taken g)
     \<and> byte_reader (gz_read ge) content"

lemma gzip_write_all:
  assumes laws: "gzip_laws ge taken content"
  shows "\<exists>g'. write_all (gz_write ge) bs g = Inr g' \<and> taken g' = taken g @ bs"
proof (induction bs arbitrary: g rule: length_induct)
  case (1 bs)
  show ?case
  proof (cases "bs = []")
    case True
    then show ?thesis by (subst write_all.simps) simp
  next
    case False
    then obtain n g1 where w: "gz_write ge bs g = Inr (n, g1)" "0 < n" "n \<le> length bs" "taken g1 = taken g @ take n bs"
      using laws unfolding gzip_laws_def by blast
    moreover have "length (drop n bs) < length bs" using False w(2) by simp
    ultimately obtain g' where "write_all (gz_write ge) (drop n bs) g1 = Inr g'" "taken g' = taken g1 @ drop n bs"
      using 1 by blast
    with w False show ?thesis by (subst write_all.simps) simp
  qed
qed

lemma drain_content:
  assumes rd: "byte_reader rd content" and room: "\<And>n. 0 < room n"
  shows "drain rd room acc d = Some (Inr (acc @ content d))"
proof (induction "length (content d)" arbitrary: acc d rule: less_induct)
  case less
  obtain bs d' where r: "rd (room (length acc)) d = Inr (bs, d')" "content d = bs @ content d'" "bs = [] \<longrightarrow> content d = []"
    using byte_reader.read_prefix [OF rd room] by blast
  show ?case
  proof (cases "bs = []")
    case True
    with r show ?thesis by (subst drain.simps) simp
  next
    case False
    with r have "drain rd room (acc @ bs) d' = Some (Inr ((acc @ bs) @ content d'))" by (intro less) simp
    with False r show ?thesis by (subst drain.simps) simp
  qed
qed

text \<open>What was compressed comes back, however the codec splits its input and output: the law that
  \<open>cli_laws\<close> asks of the two functions.\<close>

lemma gzip_roundtrip:
  assumes "gzip_laws ge taken content" and "\<And>n. 0 < room n"
  shows "\<exists>gz. compress_bytes ge bs = Inr gz \<and> decompress_bytes ge room gz = Some (Inr bs)"
proof -
  obtain g where g: "write_all (gz_write ge) bs (gz_encoder ge) = Inr g" "taken g = bs"
    using gzip_write_all [OF assms(1), of bs "gz_encoder ge"] assms(1) by (auto simp: gzip_laws_def)
  obtain gz where gz: "gz_finish ge g = Inr gz" "content (gz_decoder ge gz) = bs" and rd: "byte_reader (gz_read ge) content"
    using assms(1) g(2) unfolding gzip_laws_def by metis
  have "drain (gz_read ge) room [] (gz_decoder ge gz) = Some (Inr ([] @ content (gz_decoder ge gz)))"
    by (rule drain_content [OF rd assms(2)])
  with g(1) gz show ?thesis
    by (simp add: compress_bytes_def decompress_bytes_def)
qed

text \<open>The laws can hold: an encoder that stores its input, two bytes at a time.\<close>

definition stored_codec :: "(bytes, bytes) gzip_env" where
  "stored_codec = \<lparr>gz_encoder = [], gz_write = (\<lambda>buf g. Inr (min 2 (length buf), g @ take 2 buf)), gz_finish = Inr,
     gz_decoder = (\<lambda>gz. gz), gz_read = slice_read\<rparr>"

lemma stored_codec_laws: "gzip_laws stored_codec (\<lambda>g. g) (\<lambda>d. d)"
  by (auto simp: gzip_laws_def stored_codec_def min_def intro: sl.byte_reader_axioms)

end
