(* ===== verification/Cli_Proof.thy ===== *)
theory Cli_Proof
  imports Kernel_Proof Cli Gzip "HOL-Library.Countable"
begin

text \<open>
  The programs together: what \<open>load-elf\<close> writes is what \<open>witness\<close> hashes and what \<open>run\<close> starts from, and
  a run with a stop pattern returns. The laws of the parameters are those that the crates document:
  decompression inverts compression, the text format and the hexadecimal codec round trip, a hash map
  iterates over each of its keys once, and a file holds what was written to it after its creation.
\<close>

definition cli_laws :: "'f cli_env \<Rightarrow> bool" where
  "cli_laws ce \<longleftrightarrow> hash32 (cl_keccak ce) \<and> hex_inverse (cl_encode ce) (cl_decode ce)
     \<and> (\<forall>m. finite (dom (pages m)) \<longrightarrow> enumerates (cl_iter ce m) m)
     \<and> (\<forall>j. cl_unjson ce (cl_json ce j) = Inr j)
     \<and> (\<forall>bs. \<exists>gz. cl_compress ce bs = Inr gz \<and> cl_decompress ce gz = Inr bs)
     \<and> (\<forall>p bs f f1 f2. cl_create ce p f = Inr f1 \<longrightarrow> cl_write ce p bs f1 = Inr f2 \<longrightarrow> cl_read ce p f2 = Inr bs)"

text \<open>The law about compression, from the functions of \<open>gz.rs\<close>.\<close>

lemma compression_law:
  assumes "gzip_laws ge taken content" and "\<And>n. 0 < room n"
    and "\<And>bs. cl_compress ce bs = compress_bytes ge bs" and "\<And>gz. decompress_bytes ge room gz = Some (cl_decompress ce gz)"
  shows "\<exists>gz. cl_compress ce bs = Inr gz \<and> cl_decompress ce gz = Inr bs"
  using gzip_roundtrip [where ge = ge and room = room and bs = bs, OF assms(1,2)] assms(3,4) by auto

section \<open>States in files\<close>

text \<open>The file at a path holds a compressed state.\<close>

definition holds_state :: "'f cli_env \<Rightarrow> string \<Rightarrow> 'f \<Rightarrow> state \<Rightarrow> bool" where
  "holds_state ce path f s \<longleftrightarrow> (\<exists>gz. cl_read ce path f = Inr gz \<and> cl_decompress ce gz = Inr (ser_state ce s))"

lemma mem_ok_finite: "mem_ok k m \<Longrightarrow> finite (dom (pages m))"
  by (rule finite_subset [of _ "{..<1048576}"]) (auto dest: mem_okD(1) simp: pages_ok_def)

lemma de_ser_state:
  assumes laws: "cli_laws ce" and ok: "state_ok (cl_keccak ce) s"
  obtains m' where "de_state ce (ser_state ce s) = Inr (s\<lparr>memory := m'\<rparr>)" and "state_ok (cl_keccak ce) (s\<lparr>memory := m'\<rparr>)"
    and "mem_byte m' = mem_byte (memory s)"
proof -
  have "hex_inverse (cl_encode ce) (cl_decode ce)" "enumerates (cl_iter ce (memory s)) (memory s)" "\<And>j. cl_unjson ce (cl_json ce j) = Inr j"
    using laws mem_ok_finite [OF state_okD(1) [OF ok]] by (simp_all add: cli_laws_def)
  with that show ?thesis by (auto simp: de_state_def ser_state_def intro: state_serde_ok [OF _ ok])
qed

lemma encode_recached:
  assumes k: "hash32 k" and ok: "state_ok k (s\<lparr>memory := m'\<rparr>)" and b: "mem_byte m' = mem_byte (memory s)"
  shows "\<exists>s1. encode_witness k (s\<lparr>memory := m'\<rparr>) = Inr (witness_of (mem_root k (memory s)) s, s1)"
proof (rule encode_witness_ok [OF ok k])
  fix m1
  assume "encode_witness k (s\<lparr>memory := m'\<rparr>) = Inr (witness_of (mem_root k (memory (s\<lparr>memory := m'\<rparr>))) (s\<lparr>memory := m'\<rparr>),
      s\<lparr>memory := m', memory := m1\<rparr>)"
  moreover have "mem_root k (memory (s\<lparr>memory := m'\<rparr>)) = mem_root k (memory s)" by (rule mem_root_cong) (simp add: b)
  moreover have "witness_of root (s\<lparr>memory := m'\<rparr>) = witness_of root s" for root by (simp add: witness_of_def)
  ultimately show ?thesis by (simp del: subtree.simps)
qed

lemma witness_dispatch_ok:
  assumes laws: "cli_laws ce" and ok: "state_ok (cl_keccak ce) s" and h: "holds_state ce path f s"
  shows "witness_dispatch ce path None f
    = Inr (cl_print ce (cl_show_hash ce (state_hash (cl_keccak ce) (witness_of (mem_root (cl_keccak ce) (memory s)) s))) f)"
proof -
  obtain m' where m': "de_state ce (ser_state ce s) = Inr (s\<lparr>memory := m'\<rparr>)" "state_ok (cl_keccak ce) (s\<lparr>memory := m'\<rparr>)"
      "mem_byte m' = mem_byte (memory s)"
    by (rule de_ser_state [OF laws ok])
  have k: "hash32 (cl_keccak ce)" using laws by (simp add: cli_laws_def)
  obtain s1 where "encode_witness (cl_keccak ce) (s\<lparr>memory := m'\<rparr>) = Inr (witness_of (mem_root (cl_keccak ce) (memory s)) s, s1)"
    using encode_recached [OF k m'(2,3)] by blast
  with h m'(1) show ?thesis by (auto simp: witness_dispatch_def holds_state_def Let_def simp del: subtree.simps)
qed

section \<open>Loading\<close>

text \<open>The state that the default patches leave.\<close>

definition loaded_state :: "elf_file \<Rightarrow> memory \<Rightarrow> state" where
  "loaded_state elf m = state_default\<lparr>pc := ucast (e_entry elf), next_pc := ucast (e_entry elf) + 4, heap := 0x20000000,
     registers := (replicate 32 0)[29 := 0x7FFFD000], memory := m\<rparr>"

definition loaded_image :: "elf_file \<Rightarrow> elf_segment list \<Rightarrow> (nat \<Rightarrow> string res) \<Rightarrow> elf_symbol list \<Rightarrow> nat \<Rightarrow> u8" where
  "loaded_image elf hs string_table ys =
     overwrite 0x7FFF9000 stack_image (foldl (apply_symbol string_table) (foldl (apply_segment elf) (\<lambda>_. 0) hs) ys)"

definition loadable_file :: "elf_file \<Rightarrow> elf_segment list \<Rightarrow> (nat \<Rightarrow> string res) \<Rightarrow> elf_symbol list \<Rightarrow> bool" where
  "loadable_file elf hs string_table ys \<longleftrightarrow> elf_segments elf = Some hs
     \<and> (\<forall>h \<in> set hs. p_type h = 0x70000003 \<or> segment_ok elf h)
     \<and> elf_symbol_table elf = Inr (Some (ys, string_table)) \<and> (\<forall>y \<in> set ys. symbol_ok string_table y)"

lemma loaded_state_ok: "loadable k m \<Longrightarrow> state_ok k (loaded_state elf m)"
  by (simp add: loaded_state_def state_ok_def loadable_def state_default_def)

lemma load_and_patch:
  assumes p: "cl_parse ce raw = Inr elf" and l: "loadable_file elf hs string_table ys"
  obtains s m where "load_elf (cl_keccak ce) (cl_parse ce) raw = Some (Inr s)"
    and "apply_patches ce raw [Go, Stack] s = Some (Inr (loaded_state elf m))"
    and "loadable (cl_keccak ce) m" and "mem_byte m = loaded_image elf hs string_table ys"
proof -
  let ?k = "cl_keccak ce"
  let ?s = "\<lambda>m. state_default\<lparr>pc := ucast (e_entry elf), next_pc := ucast (e_entry elf) + 4, heap := 0x20000000, memory := m\<rparr>"
  have d: "elf_segments elf = Some hs" "\<forall>h \<in> set hs. p_type h = 0x70000003 \<or> segment_ok elf h"
    "elf_symbol_table elf = Inr (Some (ys, string_table))" "\<forall>y \<in> set ys. symbol_ok string_table y"
    using l by (simp_all add: loadable_file_def)
  obtain m1 where 1: "load_elf ?k (cl_parse ce) raw = Some (Inr (?s m1))" "loadable ?k m1"
      "mem_byte m1 = foldl (apply_segment elf) (\<lambda>_. 0) hs"
    by (rule load_elf_ok [where minimal_parse = "cl_parse ce" and raw = raw, OF p d(1,2)])
  have "loadable ?k (memory (?s m1))" using 1(2) by simp
  from patch_go_ok [where minimal_parse = "cl_parse ce" and raw = raw, OF this p d(3,4)] obtain m2 where 2: "patch_go ?k (cl_parse ce) raw (?s m1) = Some (Inr (?s m2))" "loadable ?k m2"
      "mem_byte m2 = foldl (apply_symbol string_table) (mem_byte m1) ys" by auto
  have "loadable ?k (memory (?s m2))" using 2(2) by simp
  then obtain m3 where 3: "patch_stack ?k (?s m2) = Some (Inr ((?s m2)\<lparr>registers := (registers (?s m2))[29 := 0x7FFFD000], memory := m3\<rparr>))"
      "loadable ?k m3" "mem_byte m3 = overwrite 0x7FFF9000 stack_image (mem_byte (memory (?s m2)))"
    by (rule patch_stack_ok)
  have "(?s m2)\<lparr>registers := (registers (?s m2))[29 := 0x7FFFD000], memory := m3\<rparr> = loaded_state elf m3"
    by (simp add: loaded_state_def state_default_def)
  with 1 2 3 show ?thesis by (intro that [of "?s m1" m3]) (simp_all add: loaded_image_def)
qed

lemma usage_returns: "\<exists>u. usage m = Inr u"
  using usage_unit [of m] by (auto split: if_splits)

lemma load_elf_dispatch_ok:
  assumes laws: "cli_laws ce" and p: "cl_read ce (elf_path args) f = Inr raw" "cl_parse ce raw = Inr elf"
    and l: "loadable_file elf hs string_table ys" and a: "patch_kind args = [Go, Stack]" "elf_output args = Some path" "path \<noteq> ''-''"
    and fs: "cl_create ce path f = Inr f1" "\<And>bs. \<exists>f2. cl_write ce path bs f1 = Inr f2"
  obtains m f2 where "load_elf_dispatch ce args f = Some (Inr f2)" and "loadable (cl_keccak ce) m"
    and "mem_byte m = loaded_image elf hs string_table ys" and "holds_state ce path f2 (loaded_state elf m)"
proof -
  let ?k = "cl_keccak ce"
  have k: "hash32 ?k" using laws by (simp add: cli_laws_def)
  obtain s m where m: "load_elf ?k (cl_parse ce) raw = Some (Inr s)" "apply_patches ce raw [Go, Stack] s = Some (Inr (loaded_state elf m))"
      "loadable ?k m" "mem_byte m = loaded_image elf hs string_table ys"
    by (rule load_and_patch [OF p(2) l])
  obtain gz where gz: "cl_compress ce (ser_state ce (loaded_state elf m)) = Inr gz" "cl_decompress ce gz = Inr (ser_state ce (loaded_state elf m))"
    using laws unfolding cli_laws_def by metis
  obtain f2 where f2: "cl_write ce path gz f1 = Inr f2" using fs(2) by blast
  obtain m1 where "encode_witness ?k (loaded_state elf m) = Inr (witness_of (mem_root ?k (memory (loaded_state elf m))) (loaded_state elf m),
      (loaded_state elf m)\<lparr>memory := m1\<rparr>)"
    by (rule encode_witness_ok [OF loaded_state_ok [OF m(3)] k])
  moreover obtain u where "usage m1 = Inr u" using usage_returns by blast
  ultimately have "load_elf_dispatch ce args f = Some (Inr f2)"
    using p(1) m(1,2) a gz(1) fs(1) f2 by (simp add: load_elf_dispatch_def buf_write_def del: subtree.simps)
  moreover have "cl_read ce path f2 = Inr gz" using laws fs(1) f2 unfolding cli_laws_def by blast
  ultimately show ?thesis using m(3,4) gz(2) by (intro that [of f2 m]) (auto simp: holds_state_def)
qed

section \<open>Building and running\<close>

text \<open>The descriptors of the two channels: each end reads from the pipe that the other end writes to.\<close>

definition four_pipes :: "('f, 'c) server_env \<Rightarrow> 'f \<Rightarrow> (int \<times> int) list \<Rightarrow> 'f \<Rightarrow> bool" where
  "four_pipes se f ps f4 \<longleftrightarrow> (\<exists>p0 p1 p2 p3 f1 f2 f3. ps = [p0, p1, p2, p3] \<and> sv_pipe se f = Inr (p0, f1) \<and> sv_pipe se f1 = Inr (p1, f2)
     \<and> sv_pipe se f2 = Inr (p2, f3) \<and> sv_pipe se f3 = Inr (p3, f4))"

lemma two_channels:
  assumes "four_pipes se f [(ar, bw), (br, aw), (cr, dw), (dr, cw)] f4"
  shows "\<exists>f2. create_bidirectional_channel se f = Inr ((\<lparr>fd_reader = ar, fd_writer = aw\<rparr>, \<lparr>fd_reader = br, fd_writer = bw\<rparr>), f2)
    \<and> create_bidirectional_channel se f2 = Inr ((\<lparr>fd_reader = cr, fd_writer = cw\<rparr>, \<lparr>fd_reader = dr, fd_writer = dw\<rparr>), f4)"
  using assms by (auto simp: four_pipes_def create_bidirectional_channel_def)

lemma split_on_nonempty: "split_on c xs \<noteq> []"
  by (induction xs) (auto split: list.splits)

lemma run_builder_simps [simp]:
  "kb_input (run_builder args) = ra_input args" "kb_stop_at (run_builder args) = ra_stop_at args"
  "kb_proof_at (run_builder args) = ra_proof_at args" "kb_snapshot_at (run_builder args) = ra_snapshot_at args"
  "kb_output (run_builder args) = ra_output args" "kb_proof_format (run_builder args) = ra_proof_format args"
  "kb_snapshot_format (run_builder args) = ra_snapshot_format args" "kb_info_at (run_builder args) = ra_info_at args"
  "kb_preimage_server (run_builder args) = filter (\<lambda>c. c \<noteq> CHR 0x22) (ra_preimage_server args)"
  by (simp_all add: run_builder_def builder_defs)

text \<open>A kernel that is built from a file starts in the state of the file.\<close>

lemma build_state:
  assumes laws: "cli_laws ce" and ok: "state_ok (cl_keccak ce) s" and h: "holds_state ce (kb_input b) f s"
    and bd: "build ce se out err b f = Inr (kn, f')"
  obtains m' where "vm_state (ins_state kn) = s\<lparr>memory := m'\<rparr>" and "mem_byte m' = mem_byte (memory s)"
    and "machine_ok (cl_keccak ce) (ins_state kn)" and "stop_at kn = kb_stop_at b" and "proof_at kn = kb_proof_at b"
    and "snapshot_at kn = kb_snapshot_at b"
proof -
  obtain m' where m': "de_state ce (ser_state ce s) = Inr (s\<lparr>memory := m'\<rparr>)" "state_ok (cl_keccak ce) (s\<lparr>memory := m'\<rparr>)"
      "mem_byte m' = mem_byte (memory s)"
    by (rule de_ser_state [OF laws ok])
  obtain gz where gz: "cl_read ce (kb_input b) f = Inr gz" "cl_decompress ce gz = Inr (ser_state ce s)"
    using h by (auto simp: holds_state_def)
  obtain cmd cargs where c: "split_on CHR '' '' (kb_preimage_server b) = cmd # cargs" using split_on_nonempty by (metis list.exhaust)
  have i: "(\<exists>orc. ins_state kn = instrumented_new (s\<lparr>memory := m'\<rparr>) orc out err) \<and> stop_at kn = kb_stop_at b \<and> proof_at kn = kb_proof_at b
    \<and> snapshot_at kn = kb_snapshot_at b"
    using bd gz m'(1) c by (auto simp: build_def)
  with m' show ?thesis by (intro that [of m']) (auto simp: instrumented_new_def machine_ok_def)
qed


section \<open>Properties\<close>

text \<open>C18. From an ELF file to a state hash. On a file whose segments and symbols are well formed,
  \<open>cannon load-elf\<close> with its default patches ends, succeeds and writes a state that starts at the entry
  point with the stack pointer at \<open>0x7FFFD000\<close>. Its memory holds the segments, over them the patched
  symbols, and over these the stack page. \<open>cannon witness\<close> on the file that was written prints the state
  hash over the reference tree of this memory.\<close>

theorem load_elf_command:
  assumes "cli_laws ce" and "cl_read ce (elf_path args) f = Inr raw" and "cl_parse ce raw = Inr elf"
    and "loadable_file elf hs string_table ys" and "patch_kind args = [Go, Stack]" and "elf_output args = Some path" and "path \<noteq> ''-''"
    and "cl_create ce path f = Inr f1" and "\<And>bs. \<exists>f2. cl_write ce path bs f1 = Inr f2"
  shows "\<exists>m f2. load_elf_dispatch ce args f = Some (Inr f2) \<and> mem_ok (cl_keccak ce) m
    \<and> mem_byte m = overwrite 0x7FFF9000 stack_image (foldl (apply_symbol string_table) (foldl (apply_segment elf) (\<lambda>_. 0) hs) ys)
    \<and> witness_dispatch ce path None f2 = Inr (cl_print ce (cl_show_hash ce (state_hash (cl_keccak ce)
        (witness_of (subtree (cl_keccak ce) (mem_leaf m) 27 0) (state_default\<lparr>pc := ucast (e_entry elf), next_pc := ucast (e_entry elf) + 4,
           heap := 0x20000000, registers := (replicate 32 0)[29 := 0x7FFFD000]\<rparr>)))) f2)"
proof (rule load_elf_dispatch_ok [OF assms])
  fix m f2
  assume d: "load_elf_dispatch ce args f = Some (Inr f2)" and m: "loadable (cl_keccak ce) m" "mem_byte m = loaded_image elf hs string_table ys"
    and h: "holds_state ce path f2 (loaded_state elf m)"
  have "witness_of root (loaded_state elf m) = witness_of root (state_default\<lparr>pc := ucast (e_entry elf), next_pc := ucast (e_entry elf) + 4,
      heap := 0x20000000, registers := (replicate 32 0)[29 := 0x7FFFD000]\<rparr>)" for root
    by (simp add: loaded_state_def witness_of_def)
  moreover have "memory (loaded_state elf m) = m" by (simp add: loaded_state_def)
  ultimately show ?thesis
    using d m witness_dispatch_ok [OF assms(1) loaded_state_ok [OF m(1)] h]
    by (intro exI [of _ m] exI [of _ f2]) (simp only: loadable_def loaded_image_def simp_thms)
qed

text \<open>C20. \<open>cannon run\<close> on a file with a well-formed state starts the server with the words of the command,
  without its quotation marks, and with the four descriptors under the numbers that the
  client side of the channels expects; each end of a channel reads from the pipe that the other end
  writes to. The machine starts in the state of the file, and the patterns are those of the command line.\<close>

theorem run_command_builds:
  assumes "cli_laws ce" and "state_ok (cl_keccak ce) s" and "holds_state ce (ra_input args) f s"
    and "four_pipes se f [(ar, bw), (br, aw), (cr, dw), (dr, cw)] f4"
    and "split_on CHR '' '' (filter (\<lambda>c. c \<noteq> CHR 0x22) (ra_preimage_server args)) = cmd # cargs" and "cmd \<noteq> []"
    and "sv_spawn se cmd cargs [(br, fd_reader client_hinter_channel), (bw, fd_writer client_hinter_channel),
           (dr, fd_reader client_preimage_channel), (dw, fd_writer client_preimage_channel)] f4 = Inr (child, f5)"
  shows "\<exists>kn m'. build ce se out err (run_builder args) f = Inr (kn, f5)
    \<and> vm_state (ins_state kn) = s\<lparr>memory := m'\<rparr> \<and> mem_byte m' = mem_byte (memory s) \<and> machine_ok (cl_keccak ce) (ins_state kn)
    \<and> preimage_oracle (ins_state kn) = \<lparr>preimage_client = \<lparr>fd_reader = cr, fd_writer = cw\<rparr>, hint_writer_client = \<lparr>fd_reader = ar, fd_writer = aw\<rparr>\<rparr>
    \<and> map_option child_inner (server_proc kn) = Some child
    \<and> stop_at kn = ra_stop_at args \<and> proof_at kn = ra_proof_at args \<and> snapshot_at kn = ra_snapshot_at args"
proof -
  have fds: "fd_mappings \<lparr>fd_reader = br, fd_writer = bw\<rparr> \<lparr>fd_reader = dr, fd_writer = dw\<rparr>
      = [(br, fd_reader client_hinter_channel), (bw, fd_writer client_hinter_channel),
         (dr, fd_reader client_preimage_channel), (dw, fd_writer client_preimage_channel)]"
    by (simp add: fd_mappings_def client_hinter_channel_def client_preimage_channel_def)
  obtain f2 where ch: "create_bidirectional_channel se f = Inr ((\<lparr>fd_reader = ar, fd_writer = aw\<rparr>, \<lparr>fd_reader = br, fd_writer = bw\<rparr>), f2)"
      "create_bidirectional_channel se f2 = Inr ((\<lparr>fd_reader = cr, fd_writer = cw\<rparr>, \<lparr>fd_reader = dr, fd_writer = dw\<rparr>), f4)"
    using two_channels [OF assms(4)] by blast
  obtain m' where m': "de_state ce (ser_state ce s) = Inr (s\<lparr>memory := m'\<rparr>)"
    by (rule de_ser_state [OF assms(1,2)])
  obtain kn where kn: "build ce se out err (run_builder args) f = Inr (kn, f5)"
      "preimage_oracle (ins_state kn) = \<lparr>preimage_client = \<lparr>fd_reader = cr, fd_writer = cw\<rparr>, hint_writer_client = \<lparr>fd_reader = ar, fd_writer = aw\<rparr>\<rparr>"
      "map_option child_inner (server_proc kn) = Some child"
    using assms(3,5-7) ch m' fds by (auto simp: build_def holds_state_def process_start_def instrumented_new_def)
  have h: "holds_state ce (kb_input (run_builder args)) f s" using assms(3) by simp
  show ?thesis by (rule build_state [OF assms(1,2) h kn(1)]) (use kn in auto)
qed


section \<open>A concrete environment\<close>

text \<open>Files as a map from paths, no compression, and a text format by counting.\<close>

definition json_tuple where
  "json_tuple j = (json_memory j, json_preimage_key j, json_preimage_offset j, json_pc j, json_next_pc j, json_lo j, json_hi j,
     json_heap j, json_exit_code j, json_exited j, json_step j, json_registers j, json_last_hint j)"

definition tuple_json where
  "tuple_json t = (case t of (m, key, off, p, np, l, h, hp, ec, ex, st, rs, lh) \<Rightarrow>
     \<lparr>json_memory = m, json_preimage_key = key, json_preimage_offset = off, json_pc = p, json_next_pc = np, json_lo = l, json_hi = h,
      json_heap = hp, json_exit_code = ec, json_exited = ex, json_step = st, json_registers = rs, json_last_hint = lh\<rparr>)"

lemma tuple_json_inverse: "tuple_json (json_tuple j) = j"
  by (simp add: tuple_json_def json_tuple_def)

definition demo_cli :: "(string \<rightharpoonup> bytes) cli_env" where
  "demo_cli = \<lparr>cl_keccak = demo_hash, cl_parse = (\<lambda>_. Inr demo_elf),
     cl_read = (\<lambda>p f. case f p of None \<Rightarrow> Inl IoError | Some bs \<Rightarrow> Inr bs), cl_create = (\<lambda>p f. Inr (f(p \<mapsto> []))),
     cl_write = (\<lambda>p bs f. Inr (f(p \<mapsto> bs))), cl_print = (\<lambda>bs f. f(''stdout'' \<mapsto> bs)),
     cl_json = (\<lambda>j. replicate (to_nat (json_tuple j)) 0), cl_unjson = (\<lambda>bs. Inr (tuple_json (from_nat (length bs)))),
     cl_compress = Inr, cl_decompress = Inr, cl_encode = demo_encode, cl_decode = demo_decode,
     cl_iter = (\<lambda>m. sorted_list_of_set (dom (pages m))), cl_show_hash = (\<lambda>h. h), cl_logs = True\<rparr>"

lemma demo_cli_laws: "cli_laws demo_cli"
  using demo_hash32 demo_hex by (auto simp: cli_laws_def demo_cli_def tuple_json_inverse enumerates_def)

lemma demo_loadable:
  "loadable_file demo_elf [demo_segment] (\<lambda>_. Inr ''runtime.check'') [\<lparr>st_name = 1, st_value = 0x2000\<rparr>]"
  by (simp add: loadable_file_def demo_elf_def demo_segment_def segment_ok_def symbol_ok_def)

text \<open>A file that holds the default state.\<close>

definition demo_files :: "string \<rightharpoonup> bytes" where
  "demo_files = [''in.json'' \<mapsto> ser_state demo_cli demo_state]"

lemma demo_holds: "holds_state demo_cli ''in.json'' demo_files demo_state"
  by (simp add: holds_state_def demo_files_def demo_cli_def)

definition demo_server :: "(string \<rightharpoonup> bytes, unit) server_env" where
  "demo_server = \<lparr>sv_pipe = (\<lambda>f. Inr ((10, 11), f)), sv_spawn = (\<lambda>cmd args fds f. Inr ((), f))\<rparr>"

definition demo_args :: run_args where
  "demo_args = \<lparr>ra_preimage_server = ''server -v'', ra_input = ''in.json'', ra_output = None, ra_proof_at = Some ''never'', ra_proof_format = None,
     ra_snapshot_at = None, ra_snapshot_format = None, ra_stop_at = Some (CHR ''='' # show_nat (unat (5 :: u64))), ra_info_at = None\<rparr>"

theorem load_elf_command_witness:
  "\<exists>f2 h. load_elf_dispatch demo_cli \<lparr>elf_path = ''a.elf'', patch_kind = [Go, Stack], elf_output = Some ''out.json''\<rparr> [''a.elf'' \<mapsto> []] = Some (Inr f2)
    \<and> witness_dispatch demo_cli ''out.json'' None f2 = Inr (f2(''stdout'' \<mapsto> h))"
proof -
  have 1: "cl_read demo_cli (elf_path \<lparr>elf_path = ''a.elf'', patch_kind = [Go, Stack], elf_output = Some ''out.json''\<rparr>) [''a.elf'' \<mapsto> []] = Inr []"
    "cl_parse demo_cli [] = Inr demo_elf" "cl_create demo_cli ''out.json'' [''a.elf'' \<mapsto> []] = Inr [''a.elf'' \<mapsto> [], ''out.json'' \<mapsto> []]"
    "\<And>bs. \<exists>f2. cl_write demo_cli ''out.json'' bs [''a.elf'' \<mapsto> [], ''out.json'' \<mapsto> []] = Inr f2"
    by (simp_all add: demo_cli_def)
  have "cl_print demo_cli bs f = f(''stdout'' \<mapsto> bs)" for bs f by (simp add: demo_cli_def)
  with load_elf_command [OF demo_cli_laws 1(1,2) demo_loadable _ _ _ 1(3,4)] show ?thesis by auto
qed

theorem run_command_builds_witness:
  "\<exists>kn f5 m'. build demo_cli demo_server () () (run_builder demo_args) demo_files = Inr (kn, f5) \<and> vm_state (ins_state kn) = demo_state\<lparr>memory := m'\<rparr>
    \<and> map_option child_inner (server_proc kn) = Some ()"
proof -
  have st: "state_ok (cl_keccak demo_cli) demo_state" using demo_state_ok by (simp add: demo_cli_def)
  have h: "holds_state demo_cli (ra_input demo_args) demo_files demo_state" using demo_holds by (simp add: demo_args_def)
  have p: "four_pipes demo_server demo_files [(10, 11), (10, 11), (10, 11), (10, 11)] demo_files"
    by (simp add: four_pipes_def demo_server_def)
  have c: "split_on CHR '' '' (filter (\<lambda>c. c \<noteq> CHR 0x22) (ra_preimage_server demo_args)) = ''server'' # [''-v'']"
    by (simp add: demo_args_def)
  have s: "sv_spawn demo_server ''server'' [''-v''] fds demo_files = Inr ((), demo_files)" for fds by (simp add: demo_server_def)
  from run_command_builds [OF demo_cli_laws st h p c _ s, of "()" "()"] show ?thesis by blast
qed


end
