(* ===== verification/Session.thy ===== *)
theory Session
  imports Channel
begin

text \<open>
  The two ends of the preimage channel running at the same time. An operation is a \<^emph>\<open>session\<close>: what it
  still has to send and to receive, and how it goes on. The sessions of \<open>OracleClient::get\<close> and of
  \<open>OracleServer::new_preimage_request\<close> are the functions of \<open>Channel\<close>, run on one end. Two sessions are
  connected by two pipes of bounded capacity; in every step one of the ends transfers some bytes, as
  many as the system decides, and an end that finds its pipe empty or full waits. The steps have the
  diamond property, so the end of a conversation does not depend on the schedule: if one schedule
  completes it, all do.
\<close>

section \<open>Sessions\<close>

datatype 'a session = Done 'a | Fail error | Recv nat "bytes \<Rightarrow> 'a session" | Send bytes "'a session"

text \<open>Sending no bytes and receiving none make no call.\<close>

definition send :: "bytes \<Rightarrow> 'a session \<Rightarrow> 'a session" where
  "send bs k = (if bs = [] then k else Send bs k)"

definition recv :: "nat \<Rightarrow> (bytes \<Rightarrow> 'a session) \<Rightarrow> 'a session" where
  "recv n k = (if n = 0 then k [] else Recv n k)"

primrec session_bind :: "'a session \<Rightarrow> ('a \<Rightarrow> 'b session) \<Rightarrow> 'b session" where
  "session_bind (Done x) f = f x"
| "session_bind (Fail e) f = Fail e"
| "session_bind (Recv n k) f = Recv n (\<lambda>bs. session_bind (k bs) f)"
| "session_bind (Send bs k) f = Send bs (session_bind k f)"

text \<open>A session on one end of a channel.\<close>

primrec run_session :: "'p chan_read \<Rightarrow> 'p chan_write \<Rightarrow> 'a session \<Rightarrow> 'p \<Rightarrow> ('a \<times> 'p) res" where
  "run_session rd wr (Done x) p = Inr (x, p)"
| "run_session rd wr (Fail e) p = Inl e"
| "run_session rd wr (Recv n k) p = rbind (read_exact rd n p) (\<lambda>(bs, p'). run_session rd wr (k bs) p')"
| "run_session rd wr (Send bs k) p = rbind (write_all wr bs p) (run_session rd wr k)"

text \<open>The two ends of a request.\<close>

definition get_session :: "bytes \<Rightarrow> bytes session" where
  "get_session key = send key (recv 8 (\<lambda>len.
     let n = unat (from_be len :: u64) in if n = 0 then Done [] else recv n Done))"

definition request_session :: "(bytes \<Rightarrow> bytes res) \<Rightarrow> unit session" where
  "request_session getter = recv 32 (\<lambda>key.
     case getter key of
       Inl e \<Rightarrow> Fail e
     | Inr value \<Rightarrow> send (u64_be (of_nat (length value))) (if value \<noteq> [] then send value (Done ()) else Done ()))"

text \<open>A client that asks for several keys, and a server that answers as many requests.\<close>

primrec client_session :: "bytes list \<Rightarrow> bytes list session" where
  "client_session [] = Done []"
| "client_session (key # keys) =
     session_bind (get_session key) (\<lambda>v. session_bind (client_session keys) (\<lambda>vs. Done (v # vs)))"

primrec server_session :: "(bytes \<Rightarrow> bytes res) \<Rightarrow> nat \<Rightarrow> unit session" where
  "server_session getter 0 = Done ()"
| "server_session getter (Suc n) = session_bind (request_session getter) (\<lambda>_. server_session getter n)"

text \<open>The tests of the channel: a table of the preimages by their keys, and for each preimage a client
  task and a server task. The tasks panic when an entry is missing, an operation fails or the
  preimage received is not the expected one.\<close>

definition preimage_by_hash :: "(bytes \<Rightarrow> bytes) \<Rightarrow> bytes list \<Rightarrow> (bytes \<rightharpoonup> bytes)" where
  "preimage_by_hash keccak256 preimages =
     foldl (\<lambda>m preimage. m(keccak_preimage_key (keccak256 preimage) \<mapsto> preimage)) Map.empty preimages"

definition client_task :: "(bytes \<rightharpoonup> bytes) \<Rightarrow> bytes \<Rightarrow> unit session" where
  "client_task table k =
     session_bind (get_session (keccak_preimage_key k)) (\<lambda>result.
       case table (keccak_preimage_key k) of
         None \<Rightarrow> Fail PanicUnwrap
       | Some expected \<Rightarrow> if expected = result then Done () else Fail PanicAssert)"

definition server_task :: "(bytes \<rightharpoonup> bytes) \<Rightarrow> unit session" where
  "server_task table = request_session (\<lambda>key. case table key of None \<Rightarrow> Inl PanicUnwrap | Some dat \<Rightarrow> Inr dat)"

definition test_preimage :: "(bytes \<Rightarrow> bytes) \<Rightarrow> bytes list \<Rightarrow> (unit session \<times> unit session) list" where
  "test_preimage keccak256 preimages =
     map (\<lambda>preimage. (client_task (preimage_by_hash keccak256 preimages) (keccak256 preimage), server_task (preimage_by_hash keccak256 preimages)))
       preimages"

section \<open>Two sessions over two pipes\<close>

text \<open>One call of an end: the session, the pipe it reads from and the pipe it writes to. A write sends a
  non-empty part of the buffer that still fits, a read takes a non-empty part of what has arrived.\<close>

inductive end_step :: "nat \<Rightarrow> 'a session \<times> bytes \<times> bytes \<Rightarrow> 'a session \<times> bytes \<times> bytes \<Rightarrow> bool" for cap where
  write_some: "0 < n \<Longrightarrow> n \<le> length bs \<Longrightarrow> length out + n \<le> cap \<Longrightarrow>
    end_step cap (Send bs k, inp, out) (send (drop n bs) k, inp, out @ take n bs)"
| read_some: "0 < n \<Longrightarrow> n \<le> m \<Longrightarrow> n \<le> length inp \<Longrightarrow>
    end_step cap (Recv m k, inp, out) (recv (m - n) (\<lambda>cs. k (take n inp @ cs)), drop n inp, out)"

record ('a, 'b) net =
  client :: "'a session"
  server :: "'b session"
  to_server :: bytes
  to_client :: bytes

inductive net_step :: "nat \<Rightarrow> ('a, 'b) net \<Rightarrow> ('a, 'b) net \<Rightarrow> bool" for cap where
  client_moves: "end_step cap (c, tc, ts) (c', tc', ts') \<Longrightarrow>
    net_step cap \<lparr>client = c, server = s, to_server = ts, to_client = tc\<rparr> \<lparr>client = c', server = s, to_server = ts', to_client = tc'\<rparr>"
| server_moves: "end_step cap (s, ts, tc) (s', ts', tc') \<Longrightarrow>
    net_step cap \<lparr>client = c, server = s, to_server = ts, to_client = tc\<rparr> \<lparr>client = c, server = s', to_server = ts', to_client = tc'\<rparr>"

definition connect :: "'a session \<Rightarrow> 'b session \<Rightarrow> ('a, 'b) net" where
  "connect c s = \<lparr>client = c, server = s, to_server = [], to_client = []\<rparr>"

inductive_cases end_stepE: "end_step cap (s, inp, out) t"

inductive_simps end_step_finished [simp]: "end_step cap (Done x, inp, out) t" "end_step cap (Fail e, inp, out) t"

section \<open>Sessions are the operations of the two ends\<close>

lemma run_send: "run_session rd wr (send bs k) p = rbind (write_all wr bs p) (run_session rd wr k)"
  by (simp add: send_def) (subst write_all.simps, simp)

lemma run_recv: "run_session rd wr (recv n k) p = rbind (read_exact rd n p) (\<lambda>(bs, p'). run_session rd wr (k bs) p')"
  by (simp add: recv_def) (subst read_exact.simps, simp)

lemma run_get: "run_session rd wr (get_session key) p = client_get rd wr key p"
  unfolding get_session_def client_get_def run_send run_recv Let_def
  by (intro arg_cong [of _ _ "rbind (write_all wr key p)"] ext arg_cong2 [of _ _ _ _ rbind] refl)
    (auto simp: run_recv rbind_Inr_id split: prod.split)

lemma run_request:
  "run_session rd wr (request_session getter) p = rbind (new_preimage_request rd wr getter p) (\<lambda>p'. Inr ((), p'))"
  unfolding request_session_def new_preimage_request_def run_recv rbind_assoc
  by (intro arg_cong2 [of _ _ _ _ rbind] ext refl)
    (auto simp: run_send rbind_assoc rbind_def split: prod.split sum.split)

lemma bind_send: "session_bind (send bs k) f = send bs (session_bind k f)"
  by (simp add: send_def)

lemma bind_recv: "session_bind (recv n k) f = recv n (\<lambda>bs. session_bind (k bs) f)"
  by (simp add: recv_def)

section \<open>The order of the steps does not matter\<close>

text \<open>Two calls of the same end differ in how much they transfer; the smaller one can catch up.\<close>

lemma end_step_catch_up:
  assumes "end_step cap x y" and "end_step cap x z"
  shows "y = z \<or> end_step cap y z \<or> end_step cap z y"
proof -
  have send_more: "end_step cap (send (drop n bs) k, inp, out @ take n bs) (send (drop n' bs) k, inp, out @ take n' bs)"
    if "n < n'" "n' \<le> length bs" "length out + n' \<le> cap" for n n' bs and k :: "'a session" and inp out
  proof -
    have s: "send (drop n bs) k = Send (drop n bs) k" using that by (simp add: send_def)
    have "take n' bs = take n bs @ take (n' - n) (drop n bs)" using that by (metis le_add_diff_inverse less_imp_le take_add)
    moreover have "drop n' bs = drop (n' - n) (drop n bs)" using that by simp
    ultimately show ?thesis unfolding s
      using end_step.write_some [of "n' - n" "drop n bs" "out @ take n bs" cap k inp] that by simp
  qed
  have recv_more: "end_step cap (recv (m - n) (\<lambda>cs. k (take n inp @ cs)), drop n inp, out) (recv (m - n') (\<lambda>cs. k (take n' inp @ cs)), drop n' inp, out)"
    if "n < n'" "n' \<le> m" "n' \<le> length inp" for n n' m and k :: "bytes \<Rightarrow> 'a session" and inp out
  proof -
    have r: "recv (m - n) (\<lambda>cs. k (take n inp @ cs)) = Recv (m - n) (\<lambda>cs. k (take n inp @ cs))" using that by (simp add: recv_def)
    have "take n' inp = take n inp @ take (n' - n) (drop n inp)" using that by (metis le_add_diff_inverse less_imp_le take_add)
    moreover have "drop n' inp = drop (n' - n) (drop n inp)" using that by simp
    ultimately show ?thesis unfolding r
      using end_step.read_some [of "n' - n" "m - n" "drop n inp" cap "\<lambda>cs. k (take n inp @ cs)" out] that by simp
  qed
  from assms show ?thesis
  proof (cases rule: end_step.cases)
    case (write_some n bs out k inp)
    from assms(2) show ?thesis unfolding write_some(1)
    proof (cases rule: end_step.cases)
      case (write_some n')
      with \<open>n \<le> length bs\<close> \<open>length out + n \<le> cap\<close> show ?thesis
        using send_more [of n n' bs out k inp] send_more [of n' n bs out k inp] \<open>y = _\<close> by (cases n n' rule: linorder_cases) auto
    qed
  next
    case (read_some n m inp k out)
    from assms(2) show ?thesis unfolding read_some(1)
    proof (cases rule: end_step.cases)
      case (read_some n')
      with \<open>n \<le> m\<close> \<open>n \<le> length inp\<close> show ?thesis
        using recv_more [of n n' m inp k out] recv_more [of n' n m inp k out] \<open>y = _\<close> by (cases n n' rule: linorder_cases) auto
    qed
  qed
qed

text \<open>A call takes bytes from the front of one pipe and puts bytes at the end of the other, whatever
  else is in the pipes.\<close>

lemma end_step_local:
  assumes "end_step cap (s, inp, out) (s', inp', out')"
  obtains tk gv where "inp = tk @ inp'" and "out' = out @ gv" and "gv = [] \<or> length out + length gv \<le> cap"
    and "\<And>x y. gv = [] \<or> length y + length gv \<le> cap \<Longrightarrow> end_step cap (s, tk @ x, y) (s', x, y @ gv)"
  using assms
proof (cases rule: end_step.cases)
  case (write_some n bs k)
  show ?thesis
  proof (rule that [of "[]" "take n bs"])
    show "end_step cap (s, [] @ x, y) (s', x, y @ take n bs)" if "take n bs = [] \<or> length y + length (take n bs) \<le> cap" for x y
      using end_step.write_some [of n bs y cap k x] that write_some by auto
  qed (use write_some in auto)
next
  case (read_some n m k)
  show ?thesis
  proof (rule that [of "take n inp" "[]"])
    show "end_step cap (s, take n inp @ x, y) (s', x, y @ [])" for x y
      using end_step.read_some [of n m "take n inp @ x" cap k y] read_some by simp
  qed (use read_some in auto)
qed

lemma net_join:
  assumes "end_step cap (c, tc, ts) (c', tc', ts')" and "end_step cap (s, ts, tc) (s', ts'', tc'')"
  shows "\<exists>V. net_step cap \<lparr>client = c', server = s, to_server = ts', to_client = tc'\<rparr> V
      \<and> net_step cap \<lparr>client = c, server = s', to_server = ts'', to_client = tc''\<rparr> V"
proof -
  from end_step_local [OF assms(1)] obtain tk1 gv1 where l1: "tc = tk1 @ tc'" "ts' = ts @ gv1" "gv1 = [] \<or> length ts + length gv1 \<le> cap"
    and m1: "\<And>x y. gv1 = [] \<or> length y + length gv1 \<le> cap \<Longrightarrow> end_step cap (c, tk1 @ x, y) (c', x, y @ gv1)"
    by blast
  from end_step_local [OF assms(2)] obtain tk2 gv2 where l2: "ts = tk2 @ ts''" "tc'' = tc @ gv2" "gv2 = [] \<or> length tc + length gv2 \<le> cap"
    and m2: "\<And>x y. gv2 = [] \<or> length y + length gv2 \<le> cap \<Longrightarrow> end_step cap (s, tk2 @ x, y) (s', x, y @ gv2)"
    by blast
  have "end_step cap (s, ts', tc') (s', ts'' @ gv1, tc' @ gv2)" using m2 [of tc' "ts'' @ gv1"] l1 l2 by auto
  moreover have "end_step cap (c, tc'', ts'') (c', tc' @ gv2, ts'' @ gv1)" using m1 [of ts'' "tc' @ gv2"] l1 l2 by auto
  ultimately show ?thesis using net_step.intros by blast
qed

lemma net_diamond:
  assumes "net_step cap S T" and "net_step cap S U"
  shows "T = U \<or> net_step cap T U \<or> net_step cap U T \<or> (\<exists>V. net_step cap T V \<and> net_step cap U V)"
proof -
  from assms show ?thesis
  proof (cases rule: net_step.cases)
    case (client_moves c tc ts c' tc' ts' s)
    from assms(2) show ?thesis unfolding client_moves(1)
    proof (cases rule: net_step.cases)
      case (client_moves c2 tc2 ts2 c3 tc3 ts3)
      then have "end_step cap (c, tc, ts) (c3, tc3, ts3)" by simp
      from end_step_catch_up [OF \<open>end_step cap (c, tc, ts) (c', tc', ts')\<close> this] show ?thesis
        using client_moves \<open>T = _\<close> by (auto intro: net_step.client_moves)
    next
      case (server_moves s2 ts2 tc2)
      with net_join [OF \<open>end_step cap (c, tc, ts) (c', tc', ts')\<close>] show ?thesis unfolding \<open>T = _\<close> by blast
    qed
  next
    case (server_moves s ts tc s' ts' tc' c)
    from assms(2) show ?thesis unfolding server_moves(1)
    proof (cases rule: net_step.cases)
      case (server_moves s2 ts2 tc2 s3 ts3 tc3)
      then have "end_step cap (s, ts, tc) (s3, ts3, tc3)" by simp
      from end_step_catch_up [OF \<open>end_step cap (s, ts, tc) (s', ts', tc')\<close> this] show ?thesis
        using server_moves \<open>T = _\<close> by (auto intro: net_step.server_moves)
    next
      case (client_moves c2 tc2 ts2)
      with net_join [OF _ \<open>end_step cap (s, ts, tc) (s', ts', tc')\<close>] show ?thesis unfolding \<open>T = _\<close> by blast
    qed
  qed
qed

text \<open>A state that some schedule reaches and in which no end can move is reached by every schedule.\<close>

lemma net_final_step:
  assumes "(net_step cap)\<^sup>*\<^sup>* S F" and "\<And>T. \<not> net_step cap F T" and "net_step cap S U"
  shows "(net_step cap)\<^sup>*\<^sup>* U F"
  using assms(1,3)
proof (induction arbitrary: U rule: converse_rtranclp_induct)
  case base
  then show ?case using assms(2) by blast
next
  case (step S S1)
  from net_diamond [OF step.hyps(1) step.prems] show ?case
    using step.hyps(2) step.IH by (blast intro: converse_rtranclp_into_rtranclp)
qed

lemma net_final:
  assumes "(net_step cap)\<^sup>*\<^sup>* S F" and "\<And>T. \<not> net_step cap F T" and "(net_step cap)\<^sup>*\<^sup>* S U"
  shows "(net_step cap)\<^sup>*\<^sup>* U F"
  using assms(3,1) by (induction rule: rtranclp_induct) (auto dest: net_final_step [OF _ assms(2)])

section \<open>Every schedule ends\<close>

definition session_after :: "nat \<Rightarrow> 'a session \<Rightarrow> 'a session \<Rightarrow> bool" where
  "session_after cap s' s \<longleftrightarrow> (\<exists>inp out inp' out'. end_step cap (s, inp, out) (s', inp', out'))"

lemma after_Send:
  assumes "Wellfounded.accp (session_after cap) k"
  shows "Wellfounded.accp (session_after cap) (Send bs k)"
proof (induction bs rule: length_induct)
  case (1 bs)
  show ?case
  proof (rule accp.intros)
    fix s' assume "session_after cap s' (Send bs k)"
    then obtain n where "s' = send (drop n bs) k" "0 < n" "n \<le> length bs"
      unfolding session_after_def by (auto elim: end_stepE)
    with 1 assms show "Wellfounded.accp (session_after cap) s'" by (auto simp: send_def)
  qed
qed

lemma after_Recv:
  assumes "\<And>bs. Wellfounded.accp (session_after cap) (k bs)"
  shows "Wellfounded.accp (session_after cap) (Recv m k)"
  using assms
proof (induction m arbitrary: k rule: less_induct)
  case (less m)
  show ?case
  proof (rule accp.intros)
    fix s' assume "session_after cap s' (Recv m k)"
    then obtain n inp where "s' = recv (m - n) (\<lambda>cs. k (take n inp @ cs))" "0 < n" "n \<le> m"
      unfolding session_after_def by (auto elim: end_stepE)
    with less show "Wellfounded.accp (session_after cap) s'" by (auto simp: recv_def)
  qed
qed

lemma session_after_wf: "wfP (session_after cap)"
proof (rule accp_wfpI, rule allI)
  fix s :: "'a session"
  show "Wellfounded.accp (session_after cap) s"
  proof (induction s)
    case (Done x)
    show ?case by (rule accp.intros) (auto simp: session_after_def elim: end_stepE)
  next
    case (Fail e)
    show ?case by (rule accp.intros) (auto simp: session_after_def elim: end_stepE)
  next
    case (Recv m k)
    then show ?case by (intro after_Recv) auto
  next
    case (Send bs k)
    then show ?case by (rule after_Send)
  qed
qed

lemma net_step_wf: "wfP (\<lambda>T S. net_step cap S T)"
proof -
  let ?R = "inv_image ({(s', s). session_after cap s' s} <*lex*> {(s', s). session_after cap s' s}) (\<lambda>S. (client S, server S))"
  have "wf ?R" by (intro wf_inv_image wf_lex_prod session_after_wf [unfolded wfp_def])
  moreover have "(T, S) \<in> ?R" if "net_step cap S T" for S T :: "('a, 'b) net"
    using that by cases (auto simp: session_after_def)
  then have "{(T, S :: ('a, 'b) net). net_step cap S T} \<subseteq> ?R" by blast
  ultimately show ?thesis unfolding wfp_def by (rule wf_subset)
qed

section \<open>A request completes\<close>

lemma bind_assoc_session: "session_bind (session_bind s f) g = session_bind s (\<lambda>x. session_bind (f x) g)"
  by (induction s) simp_all

lemma bind_Done: "session_bind s Done = s"
  by (induction s) simp_all

text \<open>The bytes of one end pass to the other, one at a time.\<close>

lemma pass_to_server:
  assumes "0 < cap"
  shows "(net_step cap)\<^sup>*\<^sup>* (connect (send (bs @ rest) k) (recv (length bs) j)) (connect (send rest k) (j bs))"
proof (induction bs arbitrary: j)
  case Nil
  then show ?case by (simp add: recv_def)
next
  case (Cons b bs)
  let ?mid = "\<lparr>client = send (bs @ rest) k, server = recv (length (b # bs)) j, to_server = [b], to_client = []\<rparr>"
  have "net_step cap (connect (send ((b # bs) @ rest) k) (recv (length (b # bs)) j)) ?mid"
    unfolding connect_def using end_step.write_some [of 1 "b # bs @ rest" "[]" cap k "[]"] assms
    by (auto simp: send_def intro: net_step.client_moves)
  moreover have "net_step cap ?mid (connect (send (bs @ rest) k) (recv (length bs) (\<lambda>cs. j (b # cs))))"
    unfolding connect_def using end_step.read_some [of 1 "length (b # bs)" "[b]" cap j "[]"]
    by (auto simp: recv_def intro: net_step.server_moves)
  ultimately show ?case using Cons.IH [of "\<lambda>cs. j (b # cs)"] by (metis converse_rtranclp_into_rtranclp)
qed

lemma pass_to_client:
  assumes "0 < cap"
  shows "(net_step cap)\<^sup>*\<^sup>* (connect (recv (length bs) j) (send (bs @ rest) k)) (connect (j bs) (send rest k))"
proof (induction bs arbitrary: j)
  case Nil
  then show ?case by (simp add: recv_def)
next
  case (Cons b bs)
  let ?mid = "\<lparr>client = recv (length (b # bs)) j, server = send (bs @ rest) k, to_server = [], to_client = [b]\<rparr>"
  have "net_step cap (connect (recv (length (b # bs)) j) (send ((b # bs) @ rest) k)) ?mid"
    unfolding connect_def using end_step.write_some [of 1 "b # bs @ rest" "[]" cap k "[]"] assms
    by (auto simp: send_def intro: net_step.server_moves)
  moreover have "net_step cap ?mid (connect (recv (length bs) (\<lambda>cs. j (b # cs))) (send (bs @ rest) k))"
    unfolding connect_def using end_step.read_some [of 1 "length (b # bs)" "[b]" cap j "[]"]
    by (auto simp: recv_def intro: net_step.client_moves)
  ultimately show ?case using Cons.IH [of "\<lambda>cs. j (b # cs)"] by (metis converse_rtranclp_into_rtranclp)
qed

lemma pass_exact:
  assumes "0 < cap" and "n = length bs"
  shows "(net_step cap)\<^sup>*\<^sup>* (connect (send bs k) (recv n j)) (connect k (j bs))"
    and "(net_step cap)\<^sup>*\<^sup>* (connect (recv n j) (send bs k)) (connect (j bs) k)"
  using pass_to_server [of cap bs "[]" k j] pass_to_client [of cap bs j "[]" k] assms by (simp_all add: send_def [of "[]"])

lemma request_exchange:
  assumes "0 < cap" and "length key = 32" and "getter key = Inr v" and "length v < 2 ^ 64"
  shows "(net_step cap)\<^sup>*\<^sup>* (connect (session_bind (get_session key) f) (session_bind (request_session getter) g))
    (connect (f v) (g ()))"
proof -
  let ?len = "u64_be (of_nat (length v))"
  have n: "unat (of_nat (length v) :: u64) = length v" using assms(4) by (simp add: unat_of_nat)
  define F where "F len = session_bind (let n = unat (from_be len :: u64) in if n = 0 then Done [] else recv n Done) f" for len
  define G where "G key = session_bind (case getter key of Inl e \<Rightarrow> Fail e
     | Inr value \<Rightarrow> send (u64_be (of_nat (length value))) (if value \<noteq> [] then send value (Done ()) else Done ())) g" for key
  have F: "F ?len = recv (length v) f" using n by (auto simp: F_def Let_def bind_recv recv_def simp del: be_bytes.simps)
  have G: "G key = send ?len (send v (g ()))" using assms(3) by (simp add: G_def bind_send) (simp add: send_def)
  have "(net_step cap)\<^sup>*\<^sup>* (connect (send key (recv 8 F)) (recv 32 G)) (connect (recv 8 F) (G key))"
    using assms(1,2) by (intro pass_exact) simp_all
  also have "(net_step cap)\<^sup>*\<^sup>* (connect (recv 8 F) (G key)) (connect (F ?len) (send v (g ())))"
    unfolding G using assms(1) by (intro pass_exact) (simp_all del: be_bytes.simps)
  also have "(net_step cap)\<^sup>*\<^sup>* (connect (F ?len) (send v (g ()))) (connect (f v) (g ()))"
    unfolding F using assms(1) by (intro pass_exact) simp_all
  finally show ?thesis unfolding get_session_def request_session_def bind_send bind_recv F_def [symmetric] G_def [symmetric] .
qed

lemma requests_exchange:
  assumes "0 < cap" and "\<And>key. key \<in> set keys \<Longrightarrow> length key = 32 \<and> getter key = Inr (answer key) \<and> length (answer key) < 2 ^ 64"
  shows "(net_step cap)\<^sup>*\<^sup>* (connect (session_bind (client_session keys) f) (server_session getter (length keys)))
    (connect (f (map answer keys)) (Done ()))"
  using assms(2)
proof (induction keys arbitrary: f)
  case Nil
  then show ?case by simp
next
  case (Cons key keys)
  have "(net_step cap)\<^sup>*\<^sup>* (connect (session_bind (client_session (key # keys)) f) (server_session getter (length (key # keys))))
      (connect (session_bind (client_session keys) (\<lambda>vs. f (answer key # vs))) (server_session getter (length keys)))"
    using request_exchange [OF assms(1), where key = key and getter = getter and v = "answer key"] Cons.prems [of key]
    by (simp add: bind_assoc_session)
  also have "(net_step cap)\<^sup>*\<^sup>* \<dots> (connect (f (answer key # map answer keys)) (Done ()))" using Cons by simp
  finally show ?case by simp
qed

lemma connect_stuck:
  assumes "s \<in> range Done \<union> range Fail" and "t \<in> range Done \<union> range Fail"
  shows "\<not> net_step cap (connect s t) T"
proof
  assume "net_step cap (connect s t) T"
  then show False unfolding connect_def using assms by cases auto
qed

text \<open>What one schedule completes, every schedule completes.\<close>

lemma completes_always:
  assumes "(net_step cap)\<^sup>*\<^sup>* (connect c s) (connect (Done x) (Done y))" and "(net_step cap)\<^sup>*\<^sup>* (connect c s) T"
  shows "(net_step cap)\<^sup>*\<^sup>* T (connect (Done x) (Done y)) \<and> (T = connect (Done x) (Done y) \<or> (\<exists>U. net_step cap T U))"
proof -
  have stuck: "\<not> net_step cap (connect (Done x) (Done y)) U" for U by (rule connect_stuck) auto
  have "(net_step cap)\<^sup>*\<^sup>* T (connect (Done x) (Done y))" by (rule net_final [OF assms(1) stuck assms(2)])
  then show ?thesis by (blast elim: converse_rtranclpE)
qed

section \<open>The tests of the channel\<close>

lemma preimage_by_hash_some:
  assumes "p \<in> set ps"
  shows "\<exists>q \<in> set ps. preimage_by_hash keccak256 ps (keccak_preimage_key (keccak256 p)) = Some q"
  using assms unfolding preimage_by_hash_def by (induction ps rule: rev_induct) auto

text \<open>Every round of the test ends in every schedule, and without a panic, whatever the digests are.\<close>

lemma test_preimage_passes:
  assumes "0 < cap" and "\<And>p. length (keccak256 p) = 32" and "\<And>p. p \<in> set preimages \<Longrightarrow> length p < 2 ^ 64"
    and "(c, s) \<in> set (test_preimage keccak256 preimages)" and "(net_step cap)\<^sup>*\<^sup>* (connect c s) T"
  shows "(net_step cap)\<^sup>*\<^sup>* T (connect (Done ()) (Done ())) \<and> (T = connect (Done ()) (Done ()) \<or> (\<exists>U. net_step cap T U))"
proof (rule completes_always)
  let ?t = "preimage_by_hash keccak256 preimages"
  obtain p where p: "p \<in> set preimages" "c = client_task ?t (keccak256 p)" "s = server_task ?t"
    using assms(4) by (auto simp: test_preimage_def)
  obtain q where q: "q \<in> set preimages" "?t (keccak_preimage_key (keccak256 p)) = Some q"
    using preimage_by_hash_some [OF p(1)] by blast
  have "length (keccak_preimage_key (keccak256 p)) = 32" using keccak_key_type assms(2) by blast
  then show "(net_step cap)\<^sup>*\<^sup>* (connect c s) (connect (Done ()) (Done ()))"
    using request_exchange [OF assms(1), where v = q and g = Done
        and f = "\<lambda>result. case ?t (keccak_preimage_key (keccak256 p)) of None \<Rightarrow> Fail PanicUnwrap
          | Some expected \<Rightarrow> if expected = result then Done () else Fail PanicAssert"
        and key = "keccak_preimage_key (keccak256 p)" and getter = "\<lambda>key. case ?t key of None \<Rightarrow> Inl PanicUnwrap | Some dat \<Rightarrow> Inr dat"]
      q assms(3)
    by (simp add: p client_task_def server_task_def bind_Done)
qed (rule assms(5))

section \<open>Properties\<close>

text \<open>C27. Conversations over the preimage channel. A client that asks for keys one after the other and a
  server that answers as many requests run at the same time, over two pipes that hold at least one
  byte. However the system schedules the two and splits the transfers, there is no deadlock, no
  schedule goes on for ever, and from every state the conversation ends with the answers of the
  server's getter, in the order of the keys, with both pipes empty.\<close>

theorem preimage_sessions:
  assumes "0 < cap"
    and "\<And>key. key \<in> set keys \<Longrightarrow> length key = 32 \<and> getter key = Inr (answer key) \<and> length (answer key) < 2 ^ 64"
  shows "wfP (\<lambda>T S :: (bytes list, unit) net. net_step cap S T)
    \<and> (\<forall>T. (net_step cap)\<^sup>*\<^sup>* (connect (client_session keys) (server_session getter (length keys))) T \<longrightarrow>
        (net_step cap)\<^sup>*\<^sup>* T (connect (Done (map answer keys)) (Done ()))
        \<and> (T = connect (Done (map answer keys)) (Done ()) \<or> (\<exists>U. net_step cap T U)))"
proof -
  have "(net_step cap)\<^sup>*\<^sup>* (connect (client_session keys) (server_session getter (length keys))) (connect (Done (map answer keys)) (Done ()))"
    using requests_exchange [OF assms, where f = Done] by (simp add: bind_Done)
  from completes_always [OF this] show ?thesis by (simp add: net_step_wf)
qed

definition demo_getter :: "bytes \<Rightarrow> bytes res" where
  "demo_getter key = Inr (take 3 key)"

theorem preimage_sessions_witness:
  "(net_step 1)\<^sup>*\<^sup>* (connect (client_session [replicate 32 5, replicate 32 7]) (server_session demo_getter 2))
     (connect (Done [[5, 5, 5], [7, 7, 7]]) (Done ()))"
proof -
  let ?keys = "[replicate 32 5, replicate 32 7] :: bytes list"
  have keys: "length key = 32 \<and> demo_getter key = Inr (take 3 key) \<and> length (take 3 key) < 2 ^ 64" if "key \<in> set ?keys" for key
    using that by (auto simp: demo_getter_def)
  have "(net_step 1)\<^sup>*\<^sup>* (connect (client_session ?keys) (server_session demo_getter (length ?keys)))
      (connect (Done (map (take 3) ?keys)) (Done ()))"
    by (rule preimage_sessions [OF zero_less_one keys, THEN conjunct2, rule_format, THEN conjunct1, OF _ rtranclp.rtrancl_refl])
  then show ?thesis by (simp add: numeral_2_eq_2 numeral_3_eq_3)
qed

end
