(* ===== verification/Hint_Session.thy ===== *)
theory Hint_Session
  imports Channel Text
begin

text \<open>
  The two ends of the hint channel running at the same time, and the tests of \<open>hints.rs\<close> on them. The code
  makes single calls: a writer sends its message with one \<open>write\<close> and ignores how many bytes were taken,
  a reader takes the header with one \<open>read\<close> and takes a short header for the end of the stream. An
  end is therefore a program of single calls, each with the result of the call passed on, and it is the
  function of \<open>Channel\<close> when it runs on one end. Two programs are connected by two pipes of bounded capacity, and in
  every step one of the ends makes a transfer. If the system transfers whole messages, every schedule
  completes; if it may transfer less, there are schedules that lose a hint and block the writer for ever. No end closes its pipes.
\<close>

section \<open>Programs of single calls\<close>

datatype 'a calls =
    Return 'a
  | Panic error
  | Read nat "bytes \<Rightarrow> 'a calls"
  | ReadExact nat "bytes \<Rightarrow> 'a calls"
  | Write bytes "nat \<Rightarrow> 'a calls"

primrec calls_bind :: "'a calls \<Rightarrow> ('a \<Rightarrow> 'b calls) \<Rightarrow> 'b calls" where
  "calls_bind (Return x) f = f x"
| "calls_bind (Panic e) f = Panic e"
| "calls_bind (Read m k) f = Read m (\<lambda>bs. calls_bind (k bs) f)"
| "calls_bind (ReadExact m k) f = ReadExact m (\<lambda>bs. calls_bind (k bs) f)"
| "calls_bind (Write bs k) f = Write bs (\<lambda>n. calls_bind (k n) f)"

text \<open>A program on one end of a channel.\<close>

primrec run_calls :: "'p chan_read \<Rightarrow> 'p chan_write \<Rightarrow> 'a calls \<Rightarrow> 'p \<Rightarrow> ('a \<times> 'p) res" where
  "run_calls rd wr (Return x) p = Inr (x, p)"
| "run_calls rd wr (Panic e) p = Inl e"
| "run_calls rd wr (Read m k) p = rbind (rd m p) (\<lambda>(bs, p'). run_calls rd wr (k bs) p')"
| "run_calls rd wr (ReadExact m k) p = rbind (read_exact rd m p) (\<lambda>(bs, p'). run_calls rd wr (k bs) p')"
| "run_calls rd wr (Write bs k) p = rbind (wr bs p) (\<lambda>(n, p'). run_calls rd wr (k n) p')"

text \<open>\<open>HintWriter::hint\<close> and \<open>HintReader::next_hint\<close>.\<close>

definition hint_session :: "bytes \<Rightarrow> unit calls" where
  "hint_session hint = Write (u32_be (of_nat (length hint)) @ hint) (\<lambda>_. ReadExact 1 (\<lambda>_. Return ()))"

definition route_hint :: "(bytes \<Rightarrow> 'h \<Rightarrow> error option \<times> 'h) \<Rightarrow> 'h \<Rightarrow> bytes \<Rightarrow> (bool res \<times> 'h) calls" where
  "route_hint router h payload =
    (case router payload h of
       (Some e, h1) \<Rightarrow> Write [0] (\<lambda>_. Return (Inl HintFailed, h1))
     | (None, h1) \<Rightarrow> Write [0] (\<lambda>_. Return (Inr False, h1)))"

definition next_hint_session :: "(bytes \<Rightarrow> 'h \<Rightarrow> error option \<times> 'h) \<Rightarrow> 'h \<Rightarrow> (bool res \<times> 'h) calls" where
  "next_hint_session router h = Read 4 (\<lambda>len.
     if length len < 4 then Return (Inr True, h)
     else
       (let n = unat (from_be len :: u32)
        in if n = 0 then route_hint router h [] else ReadExact n (route_hint router h)))"

text \<open>The loops of the tests: a writer of several hints, and a reader that asks for as many, keeps the results and leaves
  the loop at the end of the stream.\<close>

primrec hints_session :: "bytes list \<Rightarrow> unit calls" where
  "hints_session [] = Return ()"
| "hints_session (hint # hints) = calls_bind (hint_session hint) (\<lambda>_. hints_session hints)"

primrec reader_session :: "(bytes \<Rightarrow> 'h \<Rightarrow> error option \<times> 'h) \<Rightarrow> nat \<Rightarrow> 'h \<Rightarrow> bool res list \<Rightarrow> (bool res list \<times> 'h) calls" where
  "reader_session router 0 h rs = Return (rs, h)"
| "reader_session router (Suc n) h rs =
     calls_bind (next_hint_session router h) (\<lambda>(r, h1).
       if r = Inr True then Return (rs @ [r], h1) else reader_session router n h1 (rs @ [r]))"

text \<open>The reader of \<open>test_hint\<close> counts the hints and panics on an error.\<close>

primrec count_task :: "nat \<Rightarrow> u32 \<Rightarrow> u32 calls" where
  "count_task 0 counter = Return counter"
| "count_task (Suc n) counter =
     calls_bind (next_hint_session (\<lambda>_ c. (None, c + 1)) counter) (\<lambda>(r, c).
       case r of
         Inl e \<Rightarrow> Panic PanicUnwrap
       | Inr eof \<Rightarrow> if eof then Return c else count_task n c)"

text \<open>\<open>cb_error\<close>: the first handler fails, which must be reported, and the channel goes on with the second hint.\<close>

definition cb_error_reader :: "unit calls" where
  "cb_error_reader =
     calls_bind (next_hint_session (\<lambda>_ h. (Some HintFailed, h)) ()) (\<lambda>(r, h).
       case r of
         Inr _ \<Rightarrow> Panic PanicAssert
       | Inl e \<Rightarrow>
           calls_bind (next_hint_session (\<lambda>hint h. (if hint = str_bytes ''two'' then None else Some PanicAssert, h)) ()) (\<lambda>(r, h).
             case r of Inl e \<Rightarrow> Panic PanicUnwrap | Inr _ \<Rightarrow> Return ()))"

section \<open>Two programs over two pipes\<close>

text \<open>One transfer of an end: the program, the pipe it reads from and the pipe it writes to. A write takes a non-empty
  part of its buffer that still fits and returns how much it took, a read returns a non-empty part of what has arrived;
  \<open>read_exact\<close> goes on until it has all bytes. A system with \<open>whole\<close> transfers takes a buffer only when all of it fits,
  as a pipe does with a buffer of at most \<open>PIPE_BUF\<close> bytes, and returns to a read all that has arrived and was asked for.\<close>

inductive call_step :: "bool \<Rightarrow> nat \<Rightarrow> 'a calls \<times> bytes \<times> bytes \<Rightarrow> 'a calls \<times> bytes \<times> bytes \<Rightarrow> bool" for whole cap where
  write_call: "0 < n \<Longrightarrow> n \<le> length bs \<Longrightarrow> length out + n \<le> cap \<Longrightarrow> whole \<longrightarrow> n = length bs \<Longrightarrow>
    call_step whole cap (Write bs k, inp, out) (k n, inp, out @ take n bs)"
| read_call: "0 < n \<Longrightarrow> n \<le> m \<Longrightarrow> n \<le> length inp \<Longrightarrow> whole \<longrightarrow> n = min m (length inp) \<Longrightarrow>
    call_step whole cap (Read m k, inp, out) (k (take n inp), drop n inp, out)"
| read_all: "m \<le> length inp \<Longrightarrow>
    call_step whole cap (ReadExact m k, inp, out) (k (take m inp), drop m inp, out)"
| read_part: "0 < n \<Longrightarrow> n < m \<Longrightarrow> n \<le> length inp \<Longrightarrow>
    call_step whole cap (ReadExact m k, inp, out) (ReadExact (m - n) (\<lambda>cs. k (take n inp @ cs)), drop n inp, out)"

record ('a, 'b) hint_net =
  writer :: "'a calls"
  reader :: "'b calls"
  to_reader :: bytes
  to_writer :: bytes

inductive hint_step :: "bool \<Rightarrow> nat \<Rightarrow> ('a, 'b) hint_net \<Rightarrow> ('a, 'b) hint_net \<Rightarrow> bool" for whole cap where
  writer_moves: "call_step whole cap (w, tw, tr) (w', tw', tr') \<Longrightarrow>
    hint_step whole cap \<lparr>writer = w, reader = r, to_reader = tr, to_writer = tw\<rparr> \<lparr>writer = w', reader = r, to_reader = tr', to_writer = tw'\<rparr>"
| reader_moves: "call_step whole cap (r, tr, tw) (r', tr', tw') \<Longrightarrow>
    hint_step whole cap \<lparr>writer = w, reader = r, to_reader = tr, to_writer = tw\<rparr> \<lparr>writer = w, reader = r', to_reader = tr', to_writer = tw'\<rparr>"

definition pair_up :: "'a calls \<Rightarrow> 'b calls \<Rightarrow> ('a, 'b) hint_net" where
  "pair_up w r = \<lparr>writer = w, reader = r, to_reader = [], to_writer = []\<rparr>"

definition test_hint :: "bytes list \<Rightarrow> (unit, u32) hint_net" where
  "test_hint hints = pair_up (hints_session hints) (count_task (length hints) 0)"

definition cb_error :: "(unit, unit) hint_net" where
  "cb_error = pair_up (hints_session [str_bytes ''one'', str_bytes ''two'']) cb_error_reader"

inductive_cases hint_stepE: "hint_step whole cap S T"

inductive_simps call_step_simps [simp]:
  "call_step whole cap (Return x, inp, out) t"
  "call_step whole cap (Panic e, inp, out) t"
  "call_step whole cap (Write bs k, inp, out) t"
  "call_step whole cap (Read m k, inp, out) t"
  "call_step whole cap (ReadExact m k, inp, out) t"

lemma hint_step_iff:
  "hint_step whole cap \<lparr>writer = w, reader = r, to_reader = tr, to_writer = tw\<rparr> T \<longleftrightarrow>
    (\<exists>w' tw' tr'. call_step whole cap (w, tw, tr) (w', tw', tr') \<and> T = \<lparr>writer = w', reader = r, to_reader = tr', to_writer = tw'\<rparr>)
    \<or> (\<exists>r' tw' tr'. call_step whole cap (r, tr, tw) (r', tr', tw') \<and> T = \<lparr>writer = w, reader = r', to_reader = tr', to_writer = tw'\<rparr>)"
  by (subst hint_step.simps) auto

section \<open>The programs are the operations of the two ends\<close>

lemma run_hint: "run_calls rd wr (hint_session hint) p = rbind (hint_writer_hint rd wr hint p) (\<lambda>p'. Inr ((), p'))"
  by (simp add: hint_session_def hint_writer_hint_def Let_def rbind_assoc split_def del: be_bytes.simps)

lemma run_route:
  "run_calls rd wr (route_hint router h payload) p
    = rbind (case router payload h of (Some e, h1) \<Rightarrow> rbind (wr [0] p) (\<lambda>(_, p3). Inr (Inl HintFailed, p3, h1))
          | (None, h1) \<Rightarrow> rbind (wr [0] p) (\<lambda>(_, p3). Inr (Inr False, p3, h1))) (\<lambda>(r, p', h'). Inr ((r, h'), p'))"
  by (auto simp: route_hint_def rbind_assoc split_def split: prod.split option.split)

lemma run_next_hint:
  "run_calls rd wr (next_hint_session router h) p = rbind (next_hint rd wr router p h) (\<lambda>(r, p', h'). Inr ((r, h'), p'))"
  by (cases "rd 4 p") (auto simp: next_hint_session_def next_hint_def Let_def run_route rbind_assoc split_def cong: option.case_cong)

section \<open>What every schedule reaches\<close>

text \<open>Every schedule from a state reaches \<open>F\<close>: either it is there, or it can go on, and wherever it goes the same holds.\<close>

inductive inevitable :: "('s \<Rightarrow> 's \<Rightarrow> bool) \<Rightarrow> 's \<Rightarrow> 's \<Rightarrow> bool" for step F where
  there: "inevitable step F F"
| onwards: "step S T \<Longrightarrow> (\<And>T. step S T \<Longrightarrow> inevitable step F T) \<Longrightarrow> inevitable step F S"

lemma inevitable_reached:
  assumes "inevitable step F S" and "step\<^sup>*\<^sup>* S T" and "\<nexists>U. step F U"
  shows "step\<^sup>*\<^sup>* T F \<and> (T = F \<or> (\<exists>U. step T U))"
  using assms(1,2)
proof (induction arbitrary: T)
  case there
  with assms(3) show ?case by (metis converse_rtranclpE rtranclp.rtrancl_refl)
next
  case (onwards S S1)
  show ?case
  proof (cases "T = S")
    case True
    have "step\<^sup>*\<^sup>* S1 F" using onwards.IH [OF onwards.hyps(1)] by simp
    with True onwards.hyps(1) show ?thesis by (metis converse_rtranclp_into_rtranclp)
  next
    case False
    with onwards.prems obtain U where "step S U" "step\<^sup>*\<^sup>* U T" by (metis converse_rtranclpE)
    then show ?thesis using onwards.IH by blast
  qed
qed

lemma inevitable_ends:
  assumes "inevitable step F S" and "\<nexists>U. step F U"
  shows "\<not> (\<exists>f. f 0 = S \<and> (\<forall>i :: nat. step (f i) (f (Suc i))))"
  using assms(1)
proof induction
  case there
  with assms(2) show ?case by metis
next
  case (onwards S S1)
  show ?case
  proof (rule notI, elim exE conjE)
    fix f assume f: "f 0 = S" "\<forall>i :: nat. step (f i) (f (Suc i))"
    then have "step S (f 1)" by (metis One_nat_def)
    from onwards.IH [OF this] show False using f(2) by (auto elim!: allE [of _ "\<lambda>i. f (Suc i)"])
  qed
qed

section \<open>One hint over whole transfers\<close>

text \<open>A program that makes no call before something arrives.\<close>

definition quiet :: "'a calls \<Rightarrow> bool" where
  "quiet c = (case c of Write bs k \<Rightarrow> False | ReadExact m k \<Rightarrow> 0 < m | _ \<Rightarrow> True)"

lemma quiet_waits: "quiet c \<Longrightarrow> \<not> call_step whole cap (c, [], out) t"
  by (cases c) (auto simp: quiet_def)

definition hint_result :: "error option \<times> 'h \<Rightarrow> bool res \<times> 'h" where
  "hint_result r = (case fst r of Some e \<Rightarrow> Inl HintFailed | None \<Rightarrow> Inr False, snd r)"

lemma route_hint_result: "calls_bind (route_hint router h payload) g = Write [0] (\<lambda>_. g (hint_result (router payload h)))"
  by (auto simp: route_hint_def hint_result_def split: prod.split option.split)

lemma wait_for_ack:
  assumes "quiet r" and "inevitable (hint_step True cap) F (pair_up w r)"
  shows "inevitable (hint_step True cap) F \<lparr>writer = ReadExact 1 (\<lambda>_. w), reader = r, to_reader = [], to_writer = [0]\<rparr>"
  by (rule onwards [where T = "pair_up w r"])
    (use assms in \<open>auto simp: hint_step_iff pair_up_def quiet_waits\<close>)

lemma send_ack:
  assumes "quiet r" and "inevitable (hint_step True cap) F (pair_up w r)" and "0 < cap"
  shows "inevitable (hint_step True cap) F \<lparr>writer = ReadExact 1 (\<lambda>_. w), reader = Write [0] (\<lambda>_. r), to_reader = [], to_writer = []\<rparr>"
  by (rule onwards [where T = "\<lparr>writer = ReadExact 1 (\<lambda>_. w), reader = r, to_reader = [], to_writer = [0]\<rparr>"])
    (use assms(3) wait_for_ack [OF assms(1,2)] in \<open>auto simp: hint_step_iff\<close>)

lemma take_payload:
  assumes "k payload = Write [0] (\<lambda>_. r)" and "payload \<noteq> []"
    and "quiet r" and "inevitable (hint_step True cap) F (pair_up w r)" and "0 < cap"
  shows "inevitable (hint_step True cap) F
    \<lparr>writer = ReadExact 1 (\<lambda>_. w), reader = ReadExact (length payload) k, to_reader = payload, to_writer = []\<rparr>"
  using assms(1,2)
proof (induction payload arbitrary: k rule: length_induct)
  case (1 payload)
  let ?S = "\<lambda>r tr. \<lparr>writer = ReadExact 1 (\<lambda>_. w), reader = r, to_reader = tr, to_writer = []\<rparr>"
  have part: "inevitable (hint_step True cap) F (?S (ReadExact (length payload - n) (\<lambda>cs. k (take n payload @ cs))) (drop n payload))"
    if "0 < n" "n < length payload" for n
    using "1.IH" [rule_format, of "drop n payload" "\<lambda>cs. k (take n payload @ cs)"] that "1.prems" by simp
  have all: "inevitable (hint_step True cap) F (?S (Write [0] (\<lambda>_. r)) [])" by (rule send_ack [OF assms(3-5)])
  show ?case
    by (rule onwards [where T = "?S (Write [0] (\<lambda>_. r)) []"]) (use "1.prems" part all in \<open>auto simp: hint_step_iff\<close>)
qed

text \<open>One hint: whatever the two ends do after it, they come to it with the handler called on the hint and its result reported.\<close>

lemma hint_exchange:
  assumes cap: "4 + length hint \<le> cap" and len: "length hint < 2 ^ 32" and q: "quiet (g (hint_result (router hint h)))"
    and F: "inevitable (hint_step True cap) F (pair_up (f ()) (g (hint_result (router hint h))))"
  shows "inevitable (hint_step True cap) F (pair_up (calls_bind (hint_session hint) f) (calls_bind (next_hint_session router h) g))"
proof -
  let ?len = "u32_be (of_nat (length hint))" and ?r = "g (hint_result (router hint h))"
  let ?S = "\<lambda>r tr. \<lparr>writer = ReadExact 1 (\<lambda>_. f ()), reader = r, to_reader = tr, to_writer = []\<rparr>"
  have n: "unat (of_nat (length hint) :: u32) = length hint" using len by (simp add: unat_of_nat)
  define G where "G = (\<lambda>len. calls_bind (if length len < 4 then Return (Inr True, h)
     else (let n = unat (from_be len :: u32) in if n = 0 then route_hint router h [] else ReadExact n (route_hint router h))) g)"
  have G: "G ?len = (if hint = [] then Write [0] (\<lambda>_. ?r) else ReadExact (length hint) (\<lambda>bs. calls_bind (route_hint router h bs) g))"
    using n by (simp add: G_def Let_def route_hint_result del: be_bytes.simps)
  have cap0: "0 < cap" using cap by simp
  have payload: "inevitable (hint_step True cap) F (?S (G ?len) hint)"
    using send_ack [OF q F cap0] take_payload [OF _ _ q F cap0, of "\<lambda>bs. calls_bind (route_hint router h bs) g" hint]
    by (auto simp: G route_hint_result simp del: be_bytes.simps)
  have header: "inevitable (hint_step True cap) F (?S (Read 4 G) (?len @ hint))"
    by (rule onwards [where T = "?S (G ?len) hint"])
      (use payload in \<open>auto simp: hint_step_iff simp del: be_bytes.simps\<close>)
  have "inevitable (hint_step True cap) F \<lparr>writer = Write (?len @ hint) (\<lambda>_. ReadExact 1 (\<lambda>_. f ())), reader = Read 4 G, to_reader = [], to_writer = []\<rparr>"
    by (rule onwards [where T = "?S (Read 4 G) (?len @ hint)"])
      (use header cap in \<open>auto simp: hint_step_iff simp del: be_bytes.simps\<close>)
  then show ?thesis by (simp add: hint_session_def next_hint_session_def pair_up_def G_def del: be_bytes.simps)
qed

section \<open>Hints are handled in order\<close>

text \<open>The handler is called on the hints in the order of the writer, and the reader reports its failures.\<close>

primrec handle_hints :: "(bytes \<Rightarrow> 'h \<Rightarrow> error option \<times> 'h) \<Rightarrow> bytes list \<Rightarrow> 'h \<Rightarrow> bool res list \<times> 'h" where
  "handle_hints router [] h = ([], h)"
| "handle_hints router (hint # hints) h =
    (case hint_result (router hint h) of (r, h1) \<Rightarrow> case handle_hints router hints h1 of (rs, h2) \<Rightarrow> (r # rs, h2))"

lemma hint_result_not_eof: "fst (hint_result r) \<noteq> Inr True"
  by (auto simp: hint_result_def split: option.split)

lemma quiet_tasks [simp]: "quiet (Return x)" "quiet (reader_session router n h rs)" "quiet (count_task n c)"
    "quiet (calls_bind (next_hint_session router h) g)"
  by (cases n; simp add: quiet_def next_hint_session_def)+

lemma hints_exchange:
  assumes "\<forall>hint \<in> set hints. 4 + length hint \<le> cap \<and> length hint < 2 ^ 32"
  shows "inevitable (hint_step True cap)
    (pair_up (Return ()) (Return (rs @ fst (handle_hints router hints h), snd (handle_hints router hints h))))
    (pair_up (hints_session hints) (reader_session router (length hints) h rs))"
  using assms
proof (induction hints arbitrary: h rs)
  case Nil
  then show ?case by (simp add: there)
next
  case (Cons hint hints)
  obtain r h1 where r: "hint_result (router hint h) = (r, h1)" by (rule prod.exhaust)
  then have r_eof: "r \<noteq> Inr True" using hint_result_not_eof [of "router hint h"] by simp
  let ?g = "\<lambda>(r, h1). if r = Inr True then Return (rs @ [r], h1) else reader_session router (length hints) h1 (rs @ [r])"
  show ?case
    using hint_exchange [where f = "\<lambda>_. hints_session hints" and g = ?g and router = router and h = h and hint = hint and cap = cap]
      Cons.IH [where ?h = h1 and rs = "rs @ [r]"] Cons.prems r r_eof
    by (simp add: split_def)
qed

lemma count_exchange:
  assumes "\<forall>hint \<in> set hints. 4 + length hint \<le> cap \<and> length hint < 2 ^ 32"
  shows "inevitable (hint_step True cap) (pair_up (Return ()) (Return (c + of_nat (length hints))))
    (pair_up (hints_session hints) (count_task (length hints) c))"
  using assms
proof (induction hints arbitrary: c)
  case Nil
  then show ?case by (simp add: there)
next
  case (Cons hint hints)
  let ?g = "\<lambda>(r, c). case r of Inl e \<Rightarrow> Panic PanicUnwrap | Inr eof \<Rightarrow> if eof then Return c else count_task (length hints) c"
  show ?case
    using hint_exchange [where f = "\<lambda>_. hints_session hints" and g = ?g and router = "\<lambda>_ c. (None, c + 1)" and h = c and hint = hint and cap = cap]
      Cons.IH [where c = "c + 1"] Cons.prems
    by (simp add: hint_result_def add.assoc)
qed

lemma finished_stuck: "\<nexists>U. hint_step whole cap (pair_up (Return x) (Return y)) U"
  by (simp add: pair_up_def hint_step_iff)

section \<open>The tests\<close>

text \<open>Every schedule of \<open>test_hint\<close> ends with as many hints received as written.\<close>

lemma test_hint_passes:
  assumes "\<forall>hint \<in> set hints. 4 + length hint \<le> cap \<and> length hint < 2 ^ 32"
  shows "inevitable (hint_step True cap) (pair_up (Return ()) (Return (of_nat (length hints)))) (test_hint hints)"
  using count_exchange [OF assms, of 0] by (simp add: test_hint_def)

lemma cb_error_passes:
  assumes "7 \<le> cap"
  shows "inevitable (hint_step True cap) (pair_up (Return ()) (Return ())) cb_error"
proof -
  have len: "4 + length (str_bytes ''one'') \<le> cap" "4 + length (str_bytes ''two'') \<le> cap"
      "length (str_bytes ''one'') < 2 ^ 32" "length (str_bytes ''two'') < 2 ^ 32"
    using assms by (simp_all add: str_bytes_def)
  let ?g = "\<lambda>(r, h). case r of Inl e \<Rightarrow> Panic PanicUnwrap | Inr _ \<Rightarrow> Return ()"
  let ?r = "\<lambda>hint h. (if hint = str_bytes ''two'' then None else Some PanicAssert, h)"
  have "inevitable (hint_step True cap) (pair_up (Return ()) (Return ()))
      (pair_up (hints_session [str_bytes ''two'']) (calls_bind (next_hint_session ?r ()) ?g))"
    using hint_exchange [OF len(2,4), where f = "\<lambda>_. Return ()" and g = ?g and router = ?r and h = "()"]
    by (simp add: hint_result_def there)
  then show ?thesis
    using hint_exchange [OF len(1,3), where f = "\<lambda>_. hints_session [str_bytes ''two'']" and router = "\<lambda>_ h. (Some HintFailed, h)" and h = "()"
      and g = "\<lambda>(r, h). case r of Inr _ \<Rightarrow> Panic PanicAssert | Inl e \<Rightarrow> calls_bind (next_hint_session ?r ()) ?g"]
    by (simp add: cb_error_def cb_error_reader_def hint_result_def)
qed

section \<open>Partial transfers\<close>






section \<open>Properties\<close>

text \<open>C28. Conversations over the hint channel. A writer that sends hints one after the other and a reader that asks for
  as many run at the same time over two pipes. If the system takes every message whole, which it can when the messages fit
  into the pipe, and gives to a read all that has arrived, then however the two are scheduled there is no deadlock,
  also when the handler fails; no schedule goes on for ever, and all end with the handler called
  on exactly the hints, in the order of the writer, and each failure reported for its hint.\<close>

theorem hint_sessions:
  assumes "\<forall>hint \<in> set hints. 4 + length hint \<le> cap \<and> length hint < 2 ^ 32"
    and "(hint_step True cap)\<^sup>*\<^sup>* (pair_up (hints_session hints) (reader_session router (length hints) h [])) T"
  shows "(hint_step True cap)\<^sup>*\<^sup>* T (pair_up (Return ()) (Return (handle_hints router hints h)))
    \<and> (T = pair_up (Return ()) (Return (handle_hints router hints h)) \<or> (\<exists>U. hint_step True cap T U))
    \<and> \<not> (\<exists>f. f 0 = pair_up (hints_session hints) (reader_session router (length hints) h []) \<and> (\<forall>i :: nat. hint_step True cap (f i) (f (Suc i))))"
proof -
  have i: "inevitable (hint_step True cap) (pair_up (Return ()) (Return (handle_hints router hints h)))
      (pair_up (hints_session hints) (reader_session router (length hints) h []))"
    using hints_exchange [OF assms(1), of "[]" router h] by simp
  show ?thesis using inevitable_reached [OF i assms(2) finished_stuck] inevitable_ends [OF i finished_stuck] by blast
qed

theorem hint_sessions_witness:
  "(hint_step True 6)\<^sup>*\<^sup>* (pair_up (hints_session [[7], [], [8, 9]]) (reader_session (\<lambda>x h. (if x = [] then Some OracleError else None, h @ x)) 3 [] []))
     (pair_up (Return ()) (Return ([Inr False, Inl HintFailed, Inr False], [7, 8, 9])))"
proof -
  let ?r = "\<lambda>x h. (if x = [] then Some OracleError else None, h @ x :: bytes)"
  have "\<forall>hint \<in> set [[7], [], [8, 9 :: u8]]. 4 + length hint \<le> 6 \<and> length hint < 2 ^ 32" by simp
  from hint_sessions [OF this rtranclp.rtrancl_refl, of ?r "[]", THEN conjunct1] show ?thesis
    by (simp add: hint_result_def numeral_3_eq_3)
qed



end
