(* ===== verification/Memory_Tests.thy ===== *)
theory Memory_Tests
  imports Merkle_Binding Patch
begin

text \<open>
  The tests of \<open>memory.rs\<close>. A test is the sequence of its calls and assertions on the model; \<open>unwrap\<close>
  and \<open>assert\<close> panic, and a test passes if it returns. The tests are run by rules for the operations
  in the style of a Hoare logic: \<open>passes r P\<close> holds if \<open>r\<close> returns a value that satisfies \<open>P\<close>.
  Tests that only compare hashes for equality pass for every digest.
\<close>

section \<open>The tests\<close>

primrec for_each :: "('a \<Rightarrow> unit res) \<Rightarrow> 'a list \<Rightarrow> unit res" where
  "for_each f [] = Inr ()"
| "for_each f (x # xs) = rbind (f x) (\<lambda>_. for_each f xs)"

primrec for_each_with :: "('a \<Rightarrow> 's \<Rightarrow> 's res) \<Rightarrow> 'a list \<Rightarrow> 's \<Rightarrow> 's res" where
  "for_each_with f [] s = Inr s"
| "for_each_with f (x # xs) s = rbind (f x s) (for_each_with f xs)"

definition is_err :: "'a res \<Rightarrow> bool" where
  "is_err r = (case r of Inl _ \<Rightarrow> True | Inr _ \<Rightarrow> False)"

subsection \<open>Branches\<close>

definition small_tree :: "hash_fn \<Rightarrow> unit res" where
  "small_tree k =
     rbind (unwrap_res (set_memory k 0x10000 0xaabbccdd memory_default)) (\<lambda>m1.
     rbind (unwrap_res (merkle_proof k 0x10000 m1)) (\<lambda>(pf, m2).
     rbind (assert_that ([0xaa, 0xbb, 0xcc, 0xdd] = take 4 pf)) (\<lambda>_.
       for_each (\<lambda>i. let start = 32 + i * 32 in assert_that (ZERO_HASHES k ! i = slice_at start (start + 32) pf)) [0..<32 - 5])))"

definition fold_proof :: "hash_fn \<Rightarrow> bytes \<Rightarrow> nat \<Rightarrow> bytes" where
  "fold_proof k pf path =
     fst (foldl (\<lambda>(node, path) i.
         let sib = slice_at i (i + 32) pf
         in (if path AND 1 \<noteq> 0 then keccak_concat_hashes k sib node else keccak_concat_hashes k node sib, drop_bit 1 path))
       (take 32 pf, path) (map (\<lambda>i. 32 + 32 * i) [0..<(length pf - 32 + 31) div 32]))"

definition larger_tree :: "hash_fn \<Rightarrow> unit res" where
  "larger_tree k =
     rbind (unwrap_res (set_memory k 0x10000 0xaabbccdd memory_default)) (\<lambda>m1.
     rbind (unwrap_res (set_memory k 0x80004 42 m1)) (\<lambda>m2.
     rbind (unwrap_res (set_memory k 0x13370000 123 m2)) (\<lambda>m3.
     rbind (unwrap_res (merkle_root k m3)) (\<lambda>(root, m4).
     rbind (unwrap_res (merkle_proof k 0x80004 m4)) (\<lambda>(pf, m5).
     rbind (assert_that ([0x00, 0x00, 0x00, 0x2a] = slice_at 4 8 pf)) (\<lambda>_.
       assert_that (root = fold_proof k pf (drop_bit 5 0x80004))))))))"

subsection \<open>Roots\<close>

definition empty_root :: "hash_fn \<Rightarrow> unit res" where
  "empty_root k =
     rbind (unwrap_res (merkle_root k memory_default)) (\<lambda>(root, m1). assert_that (ZERO_HASHES k ! (32 - 5) = root))"

definition empty_page :: "hash_fn \<Rightarrow> unit res" where
  "empty_page k =
     rbind (unwrap_res (set_memory k 0xF000 0 memory_default)) (\<lambda>m1.
     rbind (unwrap_res (merkle_root k m1)) (\<lambda>(root, m2). assert_that (ZERO_HASHES k ! (32 - 5) = root)))"

definition single_page :: "hash_fn \<Rightarrow> unit res" where
  "single_page k =
     rbind (unwrap_res (set_memory k 0xF000 1 memory_default)) (\<lambda>m1.
     rbind (unwrap_res (merkle_root k m1)) (\<lambda>(root, m2). assert_that (ZERO_HASHES k ! (32 - 5) \<noteq> root)))"

definition repeat_zero :: "hash_fn \<Rightarrow> unit res" where
  "repeat_zero k =
     rbind (unwrap_res (set_memory k 0xF000 0 memory_default)) (\<lambda>m1.
     rbind (unwrap_res (set_memory k 0xF004 0 m1)) (\<lambda>m2.
     rbind (unwrap_res (merkle_root k m2)) (\<lambda>(root, m3). assert_that (ZERO_HASHES k ! (32 - 5) = root))))"

definition random_few_pages :: "hash_fn \<Rightarrow> unit res" where
  "random_few_pages k =
     rbind (unwrap_res (set_memory k (of_nat PAGE_SIZE * 3) 1 memory_default)) (\<lambda>m1.
     rbind (unwrap_res (set_memory k (of_nat PAGE_SIZE * 5) 42 m1)) (\<lambda>m2.
     rbind (unwrap_res (set_memory k (of_nat PAGE_SIZE * 6) 123 m2)) (\<lambda>m3.
     rbind (unwrap_res (mem_merkleize_subtree k (push_bit PAGE_KEY_SIZE 1 OR 3) m3)) (\<lambda>(p3, m4).
     rbind (unwrap_res (mem_merkleize_subtree k (push_bit PAGE_KEY_SIZE 1 OR 5) m4)) (\<lambda>(p5, m5).
     rbind (unwrap_res (mem_merkleize_subtree k (push_bit PAGE_KEY_SIZE 1 OR 6) m5)) (\<lambda>(p6, m6).
       let z = ZERO_HASHES k ! (PAGE_ADDRESS_SIZE - 5);
           r1 = keccak_concat_hashes k
             (keccak_concat_hashes k (keccak_concat_hashes k z z) (keccak_concat_hashes k z p3))
             (keccak_concat_hashes k (keccak_concat_hashes k z p5) (keccak_concat_hashes k p6 z))
       in rbind (unwrap_res (mem_merkleize_subtree k (push_bit (PAGE_KEY_SIZE - 3) 1) m6)) (\<lambda>(r2, m7).
            assert_that (r1 = r2))))))))"

definition invalidate_page :: "hash_fn \<Rightarrow> unit res" where
  "invalidate_page k =
     rbind (unwrap_res (set_memory k 0xF000 0 memory_default)) (\<lambda>m1.
     rbind (unwrap_res (merkle_root k m1)) (\<lambda>(root1, m2).
     rbind (assert_that (ZERO_HASHES k ! (32 - 5) = root1)) (\<lambda>_.
     rbind (unwrap_res (set_memory k 0xF004 1 m2)) (\<lambda>m3.
     rbind (unwrap_res (merkle_root k m3)) (\<lambda>(root2, m4).
     rbind (assert_that (ZERO_HASHES k ! (32 - 5) \<noteq> root2)) (\<lambda>_.
     rbind (unwrap_res (set_memory k 0xF004 0 m4)) (\<lambda>m5.
     rbind (unwrap_res (merkle_root k m5)) (\<lambda>(root3, m6). assert_that (ZERO_HASHES k ! (32 - 5) = root3)))))))))"

subsection \<open>Words and ranges\<close>

definition check_word :: "bytes \<Rightarrow> nat \<Rightarrow> memory \<Rightarrow> memory res" where
  "check_word bs i m =
     rbind (unwrap_res (get_memory (of_nat i) m)) (\<lambda>(value, m1).
     rbind (assert_that (from_be (slice_at i (i + 4) bs) = value)) (\<lambda>_. Inr m1))"

definition large_random :: "hash_fn \<Rightarrow> bytes \<Rightarrow> unit res option" where
  "large_random k bs =
     obind (map_option unwrap_res (set_memory_range k slice_read 0 bs memory_default)) (\<lambda>m.
       Some (rbind (for_each_with (check_word bs) [0, 4, 1000, 20000 - 4] m) (\<lambda>_. Inr ())))"

definition yellow_sun :: bytes where
  "yellow_sun = concat (replicate 40 (str_bytes ''under the big bright yellow sun''))"

definition repeat_range :: "hash_fn \<Rightarrow> unit res option" where
  "repeat_range k =
     obind (map_option unwrap_res (set_memory_range k slice_read 0x1337 yellow_sun memory_default)) (\<lambda>m.
       let reader = reader_new m (0x1337 - 10) (of_nat (length yellow_sun) + 20)
       in Some (rbind (unwrap_res (read_to_end 1260 [] reader)) (\<lambda>(buf, reader').
          rbind (assert_that (replicate 10 0 = take 10 buf)) (\<lambda>_.
          rbind (assert_that (yellow_sun = slice_at 10 (length buf - 10) buf)) (\<lambda>_.
            assert_that (replicate 10 0 = drop (length buf - 10) buf))))))"

definition read_write :: "hash_fn \<Rightarrow> unit res" where
  "read_write k =
     rbind (unwrap_res (set_memory k 12 0xaabbccdd memory_default)) (\<lambda>m1.
     rbind (unwrap_res (get_memory 12 m1)) (\<lambda>(x, m2).
     rbind (assert_that (0xaabbccdd = x)) (\<lambda>_.
     rbind (unwrap_res (set_memory k 12 0xaabbc1dd m2)) (\<lambda>m3.
     rbind (unwrap_res (get_memory 12 m3)) (\<lambda>(y, m4). assert_that (0xaabbc1dd = y))))))"

definition unaligned_read :: "hash_fn \<Rightarrow> unit res" where
  "unaligned_read k =
     rbind (unwrap_res (set_memory k 12 0xaabbccdd memory_default)) (\<lambda>m1.
     rbind (unwrap_res (set_memory k 16 0x11223344 m1)) (\<lambda>m2.
     rbind (assert_that (is_err (get_memory 13 m2))) (\<lambda>_.
     rbind (assert_that (is_err (get_memory 14 m2))) (\<lambda>_.
     rbind (assert_that (is_err (get_memory 15 m2))) (\<lambda>_.
     rbind (unwrap_res (get_memory 16 m2)) (\<lambda>(x, m3).
     rbind (assert_that (0x11223344 = x)) (\<lambda>_.
     rbind (unwrap_res (get_memory 20 m3)) (\<lambda>(y, m4).
     rbind (assert_that (0 = y)) (\<lambda>_.
     rbind (unwrap_res (get_memory 12 m4)) (\<lambda>(z, m5). assert_that (0xaabbccdd = z)))))))))))"

definition unaligned_write :: "hash_fn \<Rightarrow> unit res" where
  "unaligned_write k =
     rbind (unwrap_res (set_memory k 12 0xaabbccdd memory_default)) (\<lambda>m1.
     rbind (assert_that (is_err (set_memory k 13 0x11223344 m1))) (\<lambda>_.
     rbind (assert_that (is_err (set_memory k 14 0x11223344 m1))) (\<lambda>_.
     rbind (assert_that (is_err (set_memory k 15 0x11223344 m1))) (\<lambda>_.
     rbind (unwrap_res (get_memory 12 m1)) (\<lambda>(x, m2). assert_that (0xaabbccdd = x))))))"

subsection \<open>Serialization\<close>

text \<open>
  The test over generated memories; \<open>iter\<close> is the order in which the map of pages is traversed, and the
  text around the entries is left out. The generator chooses cached nodes and pages independently.
\<close>

definition serialize_roundtrip_test :: "hash_fn \<Rightarrow> hex_encode \<Rightarrow> hex_decode \<Rightarrow> nat list \<Rightarrow> memory \<Rightarrow> unit res" where
  "serialize_roundtrip_test k enc dec iter m =
     rbind (unwrap_res (merkle_root k m)) (\<lambda>(root_pre, m1).
     rbind (unwrap_res (mem_deserialize k dec (mem_serialize enc iter m1))) (\<lambda>d.
     rbind (unwrap_res (merkle_root k d)) (\<lambda>(root_post, d1).
     rbind (assert_that (root_pre = root_post)) (\<lambda>_.
       for_each (\<lambda>i. case pages d1 i of
           None \<Rightarrow> Inl PanicUnwrap
         | Some r \<Rightarrow> assert_that (data (cell m1 (the (pages m1 i))) = data (cell d1 r))) iter))))"

definition arbitrary_memory :: "hash_fn \<Rightarrow> (nat \<rightharpoonup> bytes option) \<Rightarrow> nat list \<Rightarrow> nat \<Rightarrow> nat \<Rightarrow> memory" where
  "arbitrary_memory k ns ps lp_a lp_b =
    \<lparr>nodes = ns, pages = (\<lambda>i. if i \<in> set ps then Some 0 else None), last_page = [(lp_a, Some 0), (lp_b, Some 0)],
     page_heap = [default_page k]\<rparr>"

section \<open>Running tests\<close>

definition passes :: "'a res \<Rightarrow> ('a \<Rightarrow> bool) \<Rightarrow> bool" where
  "passes r P = (case r of Inl _ \<Rightarrow> False | Inr x \<Rightarrow> P x)"

named_theorems test_intros \<open>rules that run the operations of a test\<close>

text \<open>What a store and what any other operation does to the bytes.\<close>

definition stored :: "memory \<Rightarrow> u32 \<Rightarrow> u32 \<Rightarrow> memory \<Rightarrow> bool" where
  "stored m a v m' \<longleftrightarrow> unat a mod 4 = 0 \<and> mem_byte m' = overwrite (unat a) (u32_be v) (mem_byte m)"

definition same_bytes :: "memory \<Rightarrow> memory \<Rightarrow> bool" where
  "same_bytes m m' \<longleftrightarrow> mem_byte m' = mem_byte m"

lemma passesD: "passes r (\<lambda>_. True) \<Longrightarrow> r = Inr ()" for r :: "unit res"
  by (cases r) (simp_all add: passes_def)

lemma same_bytesI: "mem_byte m' = mem_byte m \<Longrightarrow> same_bytes m m'"
  by (simp add: same_bytes_def)

lemma passes_rbind [test_intros]: "passes r (\<lambda>x. passes (f x) P) \<Longrightarrow> passes (rbind r f) P"
  by (cases r) (simp_all add: passes_def)

lemma passes_pair [test_intros]: "passes (f x y) P \<Longrightarrow> passes (case (x, y) of (x, y) \<Rightarrow> f x y) P"
  by simp

lemma passes_assert [test_intros]: "b \<Longrightarrow> P () \<Longrightarrow> passes (assert_that b) P"
  by (simp add: passes_def assert_that_def)

lemma passes_set_memory [test_intros]:
  assumes "mem_ok k m" and "unat a mod 4 = 0"
    and "\<And>m'. mem_ok k m' \<Longrightarrow> stored m a v m' \<Longrightarrow> P m'"
  shows "passes (unwrap_res (set_memory k a v m)) P"
proof -
  obtain m' where "set_memory k a v m = Inr m'" "mem_ok k m'" "mem_byte m' = overwrite (unat a) (u32_be v) (mem_byte m)"
    by (rule set_memory_ok [OF assms(1,2)])
  with assms(2,3) show ?thesis by (simp add: passes_def unwrap_res_def stored_def)
qed

lemma passes_get_memory [test_intros]:
  assumes "mem_ok k m" and "unat a mod 4 = 0" and "\<And>m'. mem_ok k m' \<Longrightarrow> same_bytes m m' \<Longrightarrow> P (mem_word m a, m')"
  shows "passes (unwrap_res (get_memory a m)) P"
proof -
  obtain lp where "get_memory a m = Inr (mem_word m a, m\<lparr>last_page := lp\<rparr>)" "mem_ok k (m\<lparr>last_page := lp\<rparr>)"
    by (rule get_memory_ok [OF assms(1,2)])
  with assms(3) [of "m\<lparr>last_page := lp\<rparr>"] show ?thesis by (simp add: passes_def unwrap_res_def same_bytes_def mem_simps)
qed

lemma passes_merkle_root [test_intros]:
  assumes "mem_ok k m" and "\<And>m'. mem_ok k m' \<Longrightarrow> same_bytes m m' \<Longrightarrow> P (subtree k (mem_leaf m) 27 0, m')"
  shows "passes (unwrap_res (merkle_root k m)) P"
proof -
  obtain m' where "merkle_root k m = Inr (subtree k (mem_leaf m) 27 0, m')" "mem_ok k m'" "mem_extends m m'"
    by (rule merkle_root_ok [OF assms(1)])
  from this(1) assms(2) [OF this(2) same_bytesI [OF mem_extends_byte [OF mem_okD(1) [OF assms(1)] this(3)]]] show ?thesis
    by (simp add: passes_def unwrap_res_def del: subtree.simps)
qed

lemma passes_merkle_proof [test_intros]:
  assumes "mem_ok k m" and "hash32 k" and "\<And>m'. mem_ok k m' \<Longrightarrow> same_bytes m m' \<Longrightarrow> P (branch_of k m a, m')"
  shows "passes (unwrap_res (merkle_proof k a m)) P"
proof -
  obtain m' where "merkle_proof k a m = Inr (branch_of k m a, m')" "mem_ok k m'" "mem_extends m m'"
    unfolding branch_of_def by (rule merkle_proof_ok [OF assms(1,2)])
  from this(1) assms(3) [OF this(2) same_bytesI [OF mem_extends_byte [OF mem_okD(1) [OF assms(1)] this(3)]]] show ?thesis
    by (simp add: passes_def unwrap_res_def)
qed

lemma passes_merkleize [test_intros]:
  assumes "mem_ok k m" and "0 < g" and "g < 268435456"
    and "\<And>m'. mem_ok k m' \<Longrightarrow> same_bytes m m' \<Longrightarrow> P (ghash k (mem_leaf m) 27 g, m')"
  shows "passes (unwrap_res (mem_merkleize_subtree k g m)) P"
proof -
  obtain m' where "mem_merkleize_subtree k g m = Inr (ghash k (mem_leaf m) 27 g, m')" "mem_ok k m'" "mem_extends m m'"
    by (rule mem_merkleize_node [OF assms(1-3)])
  from this(1) assms(4) [OF this(2) same_bytesI [OF mem_extends_byte [OF mem_okD(1) [OF assms(1)] this(3)]]] show ?thesis
    by (simp add: passes_def unwrap_res_def)
qed

lemma passes_for_each [test_intros]: "(\<And>x. x \<in> set xs \<Longrightarrow> passes (f x) (\<lambda>_. True)) \<Longrightarrow> P () \<Longrightarrow> passes (for_each f xs) P"
proof (induction xs)
  case (Cons x xs)
  then show ?case by (cases "f x") (force simp: passes_def)+
qed (simp add: passes_def)

text \<open>Words and hashes after the operations.\<close>

named_theorems test_simps \<open>words and hashes of a memory after operations\<close>

lemma word_default [test_simps]: "mem_word memory_default a = 0"
  by (simp add: mem_word_def from_be_def upt_rec)

lemma word_stored [test_simps]:
  "stored m a v m' \<Longrightarrow> unat b mod 4 = 0 \<Longrightarrow> mem_word m' b = (if b = a then v else mem_word m b)"
  using word_at_overwrite_same [of a v "mem_byte m"] word_at_overwrite_other [of a b v "mem_byte m"]
  by (auto simp: stored_def mem_word_def)

lemma word_same [test_simps]: "same_bytes m m' \<Longrightarrow> mem_word m' a = mem_word m a"
  by (simp add: same_bytes_def mem_word_def)

text \<open>A memory without any byte.\<close>

definition all_zero :: "memory \<Rightarrow> bool" where
  "all_zero m \<longleftrightarrow> mem_byte m = (\<lambda>_. 0)"

lemma zero_default [test_simps]: "all_zero memory_default"
  by (simp add: all_zero_def fun_eq_iff)

lemma overwrite_zero: "overwrite a (u32_be 0) (\<lambda>_. 0) = (\<lambda>_. 0)"
  by (auto simp: overwrite_def fun_eq_iff numeral_eq_Suc nth_Cons split: nat.split)

lemma overwrite_zero_bytes: "i < 4 \<Longrightarrow> u32_be 0 ! i = 0"
  by (auto simp: numeral_eq_Suc nth_Cons split: nat.split)

lemma zero_stored [test_simps]: "stored m a 0 m' \<Longrightarrow> all_zero m \<Longrightarrow> all_zero m'"
  by (simp add: stored_def all_zero_def overwrite_zero del: be_bytes.simps)

lemma zero_same [test_simps]: "same_bytes m m' \<Longrightarrow> all_zero m' \<longleftrightarrow> all_zero m"
  by (simp add: same_bytes_def all_zero_def)

lemma zero_leaf:
  assumes "\<And>b. 32 * j \<le> b \<Longrightarrow> b < 32 * j + 32 \<Longrightarrow> mem_byte m b = 0"
  shows "mem_leaf m j = zero32"
  using assms by (intro nth_equalityI) (simp_all add: nth_mem_leaf zero32_def)

lemma zero_root [test_simps]: "all_zero m \<Longrightarrow> subtree k (mem_leaf m) 27 0 = ZERO_HASHES k ! 27"
  using subtree_zero [of 0 27 "mem_leaf m" k] zero_leaf [of _ m] by (simp add: all_zero_def ZERO_HASHES_nth del: subtree.simps)

section \<open>Branches\<close>

lemma test_words: "u32_be 0xaabbccdd = [0xaa, 0xbb, 0xcc, 0xdd]" "u32_be 42 = [0, 0, 0, 42]"
  by code_simp+

lemma branch_slice:
  assumes "hash32 k" and "i < 27"
  shows "slice_at (32 + i * 32) (32 + i * 32 + 32) (branch_of k m a)
    = subtree k (mem_leaf m) i (sibling (unat a div 32 div 2 ^ i))"
proof -
  have "take 32 (drop (32 * Suc i) (branch_of k m a)) = proof_nodes (branch_of k m a) ! Suc i"
    using assms(2) by (simp add: proof_nodes_def del: upt_rec_numeral)
  also have "\<dots> = subtree k (mem_leaf m) i (sibling (unat a div 32 div 2 ^ i))"
    unfolding proof_nodes_branch [OF assms(1)] using assms(2) by (simp add: siblings_def del: upt_rec_numeral)
  finally show ?thesis by (simp add: slice_at_def mult.commute)
qed

lemma branch_leaf: "j \<le> 32 \<Longrightarrow> slice_at i j (branch_of k m a) = slice_at i j (mem_leaf m (unat a div 32))"
  by (simp add: branch_of_def slice_at_def)

lemma branch_take: "j \<le> 32 \<Longrightarrow> take j (branch_of k m a) = take j (mem_leaf m (unat a div 32))"
  by (simp add: branch_of_def)

lemma fold_proof_verify:
  "fst (foldl (\<lambda>(node, path) i. (if path AND 1 \<noteq> 0 then keccak_concat_hashes k (f i) node
      else keccak_concat_hashes k node (f i), drop_bit 1 path)) (node, path) xs) = verify_branch k node path (map f xs)"
  by (induction xs arbitrary: node path) (simp_all add: and_one_eq odd_iff_mod_2_eq_one drop_bit_eq_div)

lemma fold_proof_root:
  assumes "length pf = 896"
  shows "fold_proof k pf (unat a div 32) = proof_root k a pf"
proof -
  have "tl (proof_nodes pf) = map (\<lambda>i. slice_at i (i + 32) pf) (map (\<lambda>i. 32 + 32 * i) [0..<27])"
    by (intro nth_equalityI) (simp_all add: proof_nodes_def slice_at_def nth_tl del: upt_rec_numeral)
  moreover have "hd (proof_nodes pf) = take 32 pf" by (simp add: proof_nodes_def hd_map del: upt_rec_numeral)
  ultimately show ?thesis
    using fold_proof_verify [of k "\<lambda>i. slice_at i (i + 32) pf" "take 32 pf" "unat a div 32"] assms
    unfolding fold_proof_def proof_root_def Let_def by simp
qed

lemma small_tree_passes:
  assumes k: "hash32 k"
  shows "small_tree k = Inr ()"
  unfolding small_tree_def
proof (rule passesD, intro test_intros k memory_default_ok)
  fix m i assume "stored memory_default 0x10000 0xaabbccdd m"
  then have m: "mem_byte m = overwrite (unat (0x10000 :: u32)) (u32_be 0xaabbccdd) (mem_byte memory_default)" by (simp only: stored_def)
  show "[0xaa, 0xbb, 0xcc, 0xdd] = take 4 (branch_of k m 0x10000)"
    by (simp add: branch_take mem_leaf_def m overwrite_def upt_rec test_words del: be_bytes.simps)
  assume i: "i \<in> set [0..<32 - 5]"
  then have i27: "i < 27" by simp
  have "mem_leaf m j = mem_leaf memory_default j" if "j \<noteq> 2048" for j
    using that by (intro mem_leaf_eqI) (auto simp: m overwrite_def)
  from siblings_other [of 2048 "mem_leaf m", OF this, of k 27]
  have "siblings k (mem_leaf m) 0 27 2048 ! i = zero_hash k i"
    using i27 demo_default_leaf by (simp add: siblings_def subtree_zero del: upt_rec_numeral)
  then show "passes (let start = 32 + i * 32 in assert_that (ZERO_HASHES k ! i = slice_at start (start + 32) (branch_of k m 0x10000))) (\<lambda>_. True)"
    using i27 branch_slice [OF k i27, where m = m and a = "0x10000"] by (auto simp: Let_def siblings_def ZERO_HASHES_nth passes_def assert_that_def simp del: upt_rec_numeral)
qed simp_all

lemma larger_tree_passes:
  assumes k: "hash32 k"
  shows "larger_tree k = Inr ()"
  unfolding larger_tree_def
proof (rule passesD, intro test_intros k memory_default_ok)
  fix m1 m2 m m'
  assume st: "stored memory_default 0x10000 0xaabbccdd m1" "stored m1 0x80004 42 m2" "stored m2 0x13370000 123 m" and "same_bytes m m'"
  then have m': "mem_byte m' = mem_byte m" by (simp only: same_bytes_def)
  show "[0x00, 0x00, 0x00, 0x2a] = slice_at 4 8 (branch_of k m' 0x80004)"
    using st by (simp add: branch_leaf mem_leaf_def m' stored_def overwrite_def upt_rec test_words del: be_bytes.simps)
      (simp add: slice_at_def)
  have "fold_proof k (branch_of k m 0x80004) (unat (0x80004 :: u32) div 32) = subtree k (mem_leaf m) 27 0"
    unfolding fold_proof_root [OF length_branch_of [OF k]] unfolding branch_of_def by (rule proof_root_ok [OF k])
  then show "subtree k (mem_leaf m) 27 0 = fold_proof k (branch_of k m' 0x80004) (drop_bit 5 0x80004)"
    by (simp add: branch_of_cong [OF m'] drop_bit_eq_div del: subtree.simps)
qed simp_all

section \<open>Roots, words and ranges\<close>

lemma empty_root_passes: "empty_root k = Inr ()"
  unfolding empty_root_def by (rule passesD, intro test_intros memory_default_ok) (simp_all add: test_simps del: subtree.simps)

lemma empty_page_passes: "empty_page k = Inr ()"
  unfolding empty_page_def by (rule passesD, intro test_intros memory_default_ok) (simp_all add: test_simps del: subtree.simps)

lemma repeat_zero_passes: "repeat_zero k = Inr ()"
  unfolding repeat_zero_def by (rule passesD, intro test_intros memory_default_ok) (simp_all add: test_simps del: subtree.simps)

lemma read_write_passes: "read_write k = Inr ()"
  unfolding read_write_def by (rule passesD, intro test_intros memory_default_ok) (simp_all add: test_simps)

lemma unaligned_write_passes: "unaligned_write k = Inr ()"
  unfolding unaligned_write_def
  by (rule passesD, intro test_intros memory_default_ok) (simp_all add: test_simps is_err_def set_memory_unaligned)

lemma unaligned_read_passes: "unaligned_read k = Inr ()"
  unfolding unaligned_read_def
  by (rule passesD, intro test_intros memory_default_ok) (simp_all add: test_simps is_err_def get_memory_unaligned)

lemma random_few_pages_passes:
  shows "random_few_pages k = Inr ()"
  unfolding random_few_pages_def Let_def
proof (rule passesD, intro test_intros memory_default_ok)
  fix m1 m2 m m4 m5 m6
  assume st: "stored memory_default (of_nat PAGE_SIZE * 3) 1 m1" "stored m1 (of_nat PAGE_SIZE * 5) 42 m2" "stored m2 (of_nat PAGE_SIZE * 6) 123 m"
    and "same_bytes m m4" "same_bytes m4 m5" "same_bytes m5 m6"
  then have same: "mem_leaf m4 = mem_leaf m" "mem_leaf m5 = mem_leaf m" "mem_leaf m6 = mem_leaf m"
    by (auto simp: same_bytes_def intro: mem_leaf_cong)
  have g: "push_bit PAGE_KEY_SIZE 1 OR i = 2 ^ 20 + (i :: nat)" if "i < 1048576" for i using key_ancestor [OF that] by simp
  have page: "ghash k (mem_leaf m) 27 (2 ^ 20 + i) = subtree k (mem_leaf m) 7 i" if "i < 1048576" for i
    using ghash_at_depth [of i 20 k "mem_leaf m"] that by (simp del: subtree.simps)
  have z: "subtree k (mem_leaf m) 7 i = ZERO_HASHES k ! 7" if "i \<notin> {3, 5, 6}" for i
  proof -
    have "mem_leaf m l = zero32" if "i * 2 ^ 7 \<le> l" "l < Suc i * 2 ^ 7" for l
    proof (rule zero_leaf)
      fix b assume "32 * l \<le> b" "b < 32 * l + 32"
      with that have "b div 4096 = i" by (intro div_nat_eqI) simp_all
      with \<open>i \<notin> {3, 5, 6}\<close> show "mem_byte m b = 0" using st by (auto simp: stored_def overwrite_def)
    qed
    then show ?thesis using subtree_zero [of i 7 "mem_leaf m" k] by (simp add: ZERO_HASHES_nth)
  qed
  have "ghash k (mem_leaf m) 27 (push_bit (PAGE_KEY_SIZE - 3) 1) = subtree k (mem_leaf m) (Suc (Suc (Suc 7))) 0"
    using ghash_at_depth [of 0 17 k "mem_leaf m"] by (simp del: subtree.simps)
  also have "\<dots> = keccak_concat_hashes k
      (keccak_concat_hashes k (keccak_concat_hashes k (ZERO_HASHES k ! 7) (ZERO_HASHES k ! 7)) (keccak_concat_hashes k (ZERO_HASHES k ! 7) (subtree k (mem_leaf m) 7 3)))
      (keccak_concat_hashes k (keccak_concat_hashes k (ZERO_HASHES k ! 7) (subtree k (mem_leaf m) 7 5)) (keccak_concat_hashes k (subtree k (mem_leaf m) 7 6) (ZERO_HASHES k ! 7)))"
    unfolding subtree.simps(2) using z [of 0] z [of 1] z [of 2] z [of 4] z [of 7] by (simp add: keccak_concat_hashes_def concat_fixed_def del: subtree.simps)
  finally show "keccak_concat_hashes k
      (keccak_concat_hashes k (keccak_concat_hashes k (ZERO_HASHES k ! (PAGE_ADDRESS_SIZE - 5)) (ZERO_HASHES k ! (PAGE_ADDRESS_SIZE - 5)))
        (keccak_concat_hashes k (ZERO_HASHES k ! (PAGE_ADDRESS_SIZE - 5)) (ghash k (mem_leaf m) 27 (push_bit PAGE_KEY_SIZE 1 OR 3))))
      (keccak_concat_hashes k (keccak_concat_hashes k (ZERO_HASHES k ! (PAGE_ADDRESS_SIZE - 5)) (ghash k (mem_leaf m4) 27 (push_bit PAGE_KEY_SIZE 1 OR 5)))
        (keccak_concat_hashes k (ghash k (mem_leaf m5) 27 (push_bit PAGE_KEY_SIZE 1 OR 6)) (ZERO_HASHES k ! (PAGE_ADDRESS_SIZE - 5))))
    = ghash k (mem_leaf m6) 27 (push_bit (PAGE_KEY_SIZE - 3) 1)"
    using g [of 3] g [of 5] g [of 6] page [of 3] page [of 5] page [of 6] by (simp add: same del: subtree.simps)
qed simp_all

text \<open>The two tests that compare roots for inequality pass unless the digest collides on the nodes of the two trees.\<close>

definition word_leaf :: "u32 \<Rightarrow> u32 \<Rightarrow> nat \<Rightarrow> bytes" where
  "word_leaf a v j = map (overwrite (unat a) (u32_be v) (\<lambda>_. 0)) [32 * j..<32 * j + 32]"

definition distinguishes_word :: "hash_fn \<Rightarrow> u32 \<Rightarrow> u32 \<Rightarrow> bool" where
  "distinguishes_word k a v \<longleftrightarrow> inj_on k (tree_inputs k (word_leaf a v) 27 0 \<union> tree_inputs k (\<lambda>_. zero32) 27 0)"

lemma nonzero_root:
  assumes "hash32 k" and "distinguishes_word k a v" and "stored m a v m'" and "all_zero m" and "v \<noteq> 0"
  shows "subtree k (mem_leaf m') 27 0 \<noteq> ZERO_HASHES k ! 27"
proof
  assume "subtree k (mem_leaf m') 27 0 = ZERO_HASHES k ! 27"
  then have eq: "subtree k (mem_leaf m') 27 0 = subtree k (mem_leaf memory_default) 27 0"
    using zero_root [OF zero_default] by simp
  have "mem_leaf m' = word_leaf a v"
    unfolding mem_leaf_def [abs_def] word_leaf_def [abs_def] using assms(3,4) by (simp only: stored_def all_zero_def)
  then have inj: "inj_on k (memory_inputs k m' \<union> memory_inputs k memory_default)"
    using assms(2) demo_default_leaf by (simp add: distinguishes_word_def memory_inputs_def)
  have al: "unat a mod 4 = 0" using assms(3) by (simp add: stored_def)
  have "mem_byte m' (unat a + i) = 0" if "i < 4" for i
  proof -
    have "unat a < 2 ^ LENGTH(32)" by (rule unsigned_less)
    then have "unat a < 4294967296" by simp
    with al that have "unat a + i < 4294967296" by presburger
    from root_determines_bytes [OF eq assms(1) inj this] show ?thesis by simp
  qed
  then have "map (\<lambda>i. mem_byte m' (unat a + i)) [0..<4] = map (\<lambda>i. mem_byte memory_default (unat a + i)) [0..<4]"
    by (intro map_cong) simp_all
  then have "mem_word m' a = mem_word memory_default a" unfolding mem_word_def by (rule arg_cong)
  then show False using word_stored [OF assms(3) al] assms(5) by (simp add: word_default)
qed

lemma single_page_passes:
  assumes "hash32 k" and "distinguishes_word k 0xF000 1"
  shows "single_page k = Inr ()"
  unfolding single_page_def
proof (rule passesD, intro test_intros memory_default_ok)
  fix m1 assume "stored memory_default 0xF000 1 m1"
  from nonzero_root [OF assms this zero_default] show "ZERO_HASHES k ! (32 - 5) \<noteq> subtree k (mem_leaf m1) 27 0" by simp
qed simp_all

lemma invalidate_page_passes:
  assumes "hash32 k" and "distinguishes_word k 0xF004 1"
  shows "invalidate_page k = Inr ()"
  unfolding invalidate_page_def
proof (rule passesD, intro test_intros memory_default_ok)
  fix m1 m2 m3 m4 m5
  assume m1: "stored memory_default 0xF000 0 m1"
  then show "ZERO_HASHES k ! (32 - 5) = subtree k (mem_leaf m1) 27 0" by (simp add: test_simps del: subtree.simps)
  assume "same_bytes m1 m2"
  with m1 have z: "all_zero m2" by (simp add: test_simps)
  assume m3: "stored m2 0xF004 1 m3"
  from nonzero_root [OF assms m3 z] show "ZERO_HASHES k ! (32 - 5) \<noteq> subtree k (mem_leaf m3) 27 0" by simp
  assume "same_bytes m3 m4" "stored m4 0xF004 0 m5"
  then have "all_zero m5" using m3 z by (auto simp: all_zero_def stored_def same_bytes_def overwrite_def overwrite_zero_bytes fun_eq_iff)
  then show "ZERO_HASHES k ! (32 - 5) = subtree k (mem_leaf m5) 27 0" by (simp add: test_simps del: subtree.simps)
qed simp_all

text \<open>Ranges.\<close>

lemma passes_for_each_with:
  assumes "I s" and "\<And>x s. x \<in> set xs \<Longrightarrow> I s \<Longrightarrow> passes (f x s) I" and "\<And>s. I s \<Longrightarrow> P s"
  shows "passes (for_each_with f xs s) P"
  using assms
proof (induction xs arbitrary: s)
  case (Cons x xs)
  then have "passes (f x s) I" by simp
  then obtain s' where "f x s = Inr s'" "I s'" by (cases "f x s") (auto simp: passes_def)
  with Cons show ?case by simp
qed (simp add: passes_def)

lemma default_bytes: "mem_byte memory_default = (\<lambda>_. 0)"
  by (simp add: fun_eq_iff)

lemma range_default:
  assumes "unat a + length bs \<le> 4294967296"
  obtains m where "set_memory_range k slice_read a bs memory_default = Some (Inr m)" and "mem_ok k m"
    and "mem_byte m = overwrite (unat a) bs (\<lambda>_. 0)"
  using sl.range_ok [OF pages_valid_default assms] cold_default cold_mem_ok that unfolding default_bytes by blast

lemma large_random_passes:
  assumes "length bs = 20000"
  shows "large_random k bs = Some (Inr ())"
proof -
  obtain m where m: "set_memory_range k slice_read 0 bs memory_default = Some (Inr m)" "mem_ok k m" "mem_byte m = overwrite 0 bs (\<lambda>_. 0)"
    using range_default [where a = 0 and bs = bs and k = k] assms by auto
  let ?I = "\<lambda>m'. mem_ok k m' \<and> same_bytes m m'"
  have step: "passes (check_word bs i m1) ?I" if "i \<in> {0, 4, 1000, 19996}" "?I m1" for i m1
    unfolding check_word_def
  proof (intro test_intros)
    have i: "unat (of_nat i :: u32) = i" "i mod 4 = 0" "i + 4 \<le> 20000" using that(1) by (auto simp: unat_of_nat)
    show "unat (of_nat i :: u32) mod 4 = 0" "mem_ok k m1" using i that(2) by simp_all
    have "slice_at i (i + 4) bs = map (\<lambda>j. mem_byte m (i + j)) [0..<4]"
      using i assms by (intro nth_equalityI) (simp_all add: m(3) overwrite_def nth_slice del: upt_rec_numeral)
    then show "from_be (slice_at i (i + 4) bs) = mem_word m1 (of_nat i)"
      using word_same [of m m1] that(2) i by (simp add: mem_word_def [of m])
    show "passes (Inr m2) ?I" if "mem_ok k m2" "same_bytes m1 m2" for m2
      using that \<open>?I m1\<close> by (simp add: passes_def same_bytes_def)
  qed
  have "passes (for_each_with (check_word bs) [0, 4, 1000, 20000 - 4] m) (\<lambda>_. True)"
    by (rule passes_for_each_with [where I = ?I]) (use m(2) step in \<open>auto simp: same_bytes_def\<close>)
  then obtain m' where "for_each_with (check_word bs) [0, 4, 1000, 20000 - 4] m = Inr m'"
    by (auto simp: passes_def split: sum.splits simp del: for_each_with.simps)
  then show ?thesis unfolding large_random_def m(1) by (simp add: unwrap_res_def del: for_each_with.simps)
qed

lemma length_yellow_sun: "length yellow_sun = 1240"
  by (simp add: yellow_sun_def length_concat str_bytes_def sum_list_replicate)

lemma repeat_range_passes: "repeat_range k = Some (Inr ())"
proof -
  obtain m where m: "set_memory_range k slice_read 0x1337 yellow_sun memory_default = Some (Inr m)" "mem_ok k m"
      "mem_byte m = overwrite 0x1337 yellow_sun (\<lambda>_. 0)"
    using range_default [where a = "0x1337" and bs = yellow_sun and k = k] length_yellow_sun by auto
  obtain lp a' where r: "read_to_end 1260 [] (reader_new m 0x132D 1260)
      = Inr ([] @ mem_range m 0x132D (unat (1260 :: u32)), reader_new (m\<lparr>last_page := lp\<rparr>) a' 0)"
    using read_to_end_ok [OF m(2), where c = 1260 and a = "0x132D" and buf = "[]" and cap = 1260] no_wrap [of "0x132D" 1260] by auto
  have u: "unat (0x132D + of_nat i :: u32) = 0x132D + i" if "i < 1260" for i
    using that unat_plus_of_nat [of "0x132D" i] by simp
  have buf: "mem_range m 0x132D 1260 = replicate 10 0 @ yellow_sun @ replicate 10 0"
    by (rule nth_equalityI)
      (auto simp: mem_range_def length_yellow_sun m(3) overwrite_def nth_append u simp del: upt_rec_numeral replicate.simps)
  show ?thesis unfolding repeat_range_def m(1)
    using r by (simp add: length_yellow_sun unwrap_res_def buf slice_at_def assert_that_def del: replicate.simps)
qed

text \<open>Serialization: the test passes for every memory that is well formed.\<close>

lemma page_bytes:
  assumes "pages_ok k m" and "pages m i = Some r"
  shows "data (cell m r) = map (\<lambda>j. mem_byte m (4096 * i + j)) [0..<4096]"
proof -
  have "length (data (cell m r)) = 4096" using pages_okD(3) [OF assms] by (simp add: page_okD(1))
  then show ?thesis using assms(2) by (intro nth_equalityI) (simp_all add: mem_byte_def del: upt_rec_numeral)
qed

lemma serialize_roundtrip_passes:
  assumes "hex_inverse enc dec" and ok: "mem_ok k m" and "enumerates iter m"
  shows "serialize_roundtrip_test k enc dec iter m = Inr ()"
proof -
  obtain m1 where m1: "merkle_root k m = Inr (subtree k (mem_leaf m) 27 0, m1)" "mem_ok k m1" "mem_extends m m1"
    by (rule merkle_root_ok [OF ok])
  have "enumerates iter m1" using assms(3) m1(3) by (simp add: enumerates_def mem_extends_def)
  from mem_serde_roundtrip [OF assms(1) m1(2) this] obtain d where
    d: "mem_deserialize k dec (mem_serialize enc iter m1) = Inr d" "mem_ok k d" "dom (pages d) = dom (pages m1)" "mem_byte d = mem_byte m1"
    by blast
  obtain d1 where d1: "merkle_root k d = Inr (subtree k (mem_leaf d) 27 0, d1)" "mem_ok k d1" "mem_extends d d1"
    by (rule merkle_root_ok [OF d(2)])
  note b = mem_extends_byte [OF mem_okD(1) [OF ok] m1(3)] mem_extends_byte [OF mem_okD(1) [OF d(2)] d1(3)] d(4)
  have root: "subtree k (mem_leaf m) 27 0 = subtree k (mem_leaf d) 27 0" using b mem_leaf_cong [of d m] by simp
  have page: "\<exists>r. pages d1 i = Some r \<and> data (cell m1 (the (pages m1 i))) = data (cell d1 r)" if "i \<in> set iter" for i
  proof -
    have "i \<in> dom (pages m1)" using that \<open>enumerates iter m1\<close> by (simp add: enumerates_def)
    moreover have "dom (pages d1) = dom (pages m1)" using d(3) d1(3) by (simp add: mem_extends_def)
    ultimately obtain q r where "pages m1 i = Some q" "pages d1 i = Some r" by blast
    with page_bytes [OF mem_okD(1) [OF m1(2)]] page_bytes [OF mem_okD(1) [OF d1(2)]] b show ?thesis by simp
  qed
  have "passes (for_each (\<lambda>i. case pages d1 i of None \<Rightarrow> Inl PanicUnwrap
      | Some r \<Rightarrow> assert_that (data (cell m1 (the (pages m1 i))) = data (cell d1 r))) iter) (\<lambda>_. True)"
    by (intro passes_for_each) (auto dest!: page simp: passes_def assert_that_def)
  with m1(1) d(1) d1(1) root show ?thesis
    by (simp add: serialize_roundtrip_test_def unwrap_res_def assert_that_def passesD del: subtree.simps)
qed

text \<open>
  The generator also produces memories whose cached nodes do not fit their pages. For them the test
  fails: this one has the root of the tree as its only cached node, and no pages.
\<close>

lemma serialize_roundtrip_fails:
  assumes "ZERO_HASHES k ! 27 \<noteq> h"
  shows "serialize_roundtrip_test k enc dec [] (arbitrary_memory k [1 \<mapsto> Some h] [] 0 0) = Inl PanicAssert"
proof -
  let ?m = "arbitrary_memory k [1 \<mapsto> Some h] [] 0 0"
  have "bit_len 1 = 1" by (simp add: bit_len.simps)
  then have pre: "merkle_root k ?m = Inr (h, ?m)"
    unfolding merkle_root_def by (subst mem_merkleize_subtree.simps) (simp add: arbitrary_memory_def)
  have d: "mem_deserialize k dec (mem_serialize enc [] ?m) = Inr memory_default"
    by (simp add: mem_deserialize_def mem_serialize_def mem_entries_def)
  obtain d1 where "merkle_root k memory_default = Inr (subtree k (mem_leaf memory_default) 27 0, d1)"
    by (rule merkle_root_ok [OF memory_default_ok])
  then have "merkle_root k memory_default = Inr (ZERO_HASHES k ! 27, d1)" by (simp add: test_simps del: subtree.simps)
  with pre d assms show ?thesis by (simp add: serialize_roundtrip_test_def unwrap_res_def assert_that_def)
qed

end
