(* ===== verification/Unit_Tests.thy ===== *)
theory Unit_Tests
  imports Memory_Tests
begin

text \<open>
  The tests of \<open>page.rs\<close> and the test of state hashes of \<open>instrumented.rs\<close>. The test of pages also reads roots
  from a cache that does not fit the data any more: merkleizing depends on the data below invalid
  entries only.
\<close>

section \<open>The tests\<close>

definition set_data :: "nat \<Rightarrow> u8 \<Rightarrow> cached_page \<Rightarrow> cached_page" where
  "set_data i x p = p\<lparr>data := (data p)[i := x]\<rparr>"

definition cached_page_static :: "hash_fn \<Rightarrow> unit res" where
  "cached_page_static k =
     rbind (unwrap_res (page_invalidate 42 (set_data 42 0xab (default_page k)))) (\<lambda>p1.
     let g_index = drop_bit 5 (push_bit PAGE_ADDRESS_SIZE 1 OR 42);
         expected_leaf = (replicate 32 0)[10 := 0xab];
         expected_parent = keccak_concat_hashes k (ZERO_HASHES k ! 0) expected_leaf;
         expected_grandparent = keccak_concat_hashes k expected_parent (ZERO_HASHES k ! 1)
     in
     rbind (unwrap_res (page_merkleize_subtree k g_index p1)) (\<lambda>(node, p2).
     rbind (assert_that (node = expected_leaf)) (\<lambda>_.
     rbind (unwrap_res (page_merkleize_subtree k (drop_bit 1 g_index) p2)) (\<lambda>(node, p3).
     rbind (assert_that (node = expected_parent)) (\<lambda>_.
     rbind (unwrap_res (page_merkleize_subtree k (drop_bit 2 g_index) p3)) (\<lambda>(node, p4).
     rbind (assert_that (node = expected_grandparent)) (\<lambda>_.
     rbind (unwrap_res (page_merkle_root k p4)) (\<lambda>(pre, p5).
     rbind (unwrap_res (page_merkle_root k (set_data 42 0xcd p5))) (\<lambda>(post, p6).
     rbind (assert_that (pre = post)) (\<lambda>_.
     rbind (unwrap_res (page_invalidate 42 p6)) (\<lambda>p7.
     rbind (unwrap_res (page_merkle_root k p7)) (\<lambda>(post_b, p8).
     rbind (assert_that (post \<noteq> post_b)) (\<lambda>_.
     rbind (unwrap_res (page_invalidate 42 (set_data 2000 0xef p8))) (\<lambda>p9.
     rbind (unwrap_res (page_merkle_root k p9)) (\<lambda>(post_c, p10).
     rbind (assert_that (post_b = post_c)) (\<lambda>_.
     rbind (unwrap_res (page_invalidate 2000 p10)) (\<lambda>p11.
     rbind (unwrap_res (page_merkle_root k p11)) (\<lambda>(post_d, p12).
     rbind (assert_that (post_c \<noteq> post_d)) (\<lambda>_.
     rbind (unwrap_res (page_merkle_root k (page_invalidate_full (set_data 1000 0xff p12)))) (\<lambda>(post_e, p13).
       assert_that (post_d \<noteq> post_e)))))))))))))))))))))"

definition state_hash_case :: "hash_fn \<Rightarrow> bool \<times> u8 \<Rightarrow> unit res" where
  "state_hash_case k c =
    (case c of (has_exited, code) \<Rightarrow>
       rbind (unwrap_res (encode_witness k (state_default\<lparr>exited := has_exited, exit_code := code\<rparr>))) (\<lambda>(actual_witness, s1).
       let actual_state_hash = state_hash k actual_witness
       in rbind (assert_that (length actual_witness = STATE_WITNESS_SIZE)) (\<lambda>_.
          rbind (unwrap_res (merkle_root k (memory s1))) (\<lambda>(mem_root, m2).
          let expected_witness = copy_from_slice 0 mem_root (replicate STATE_WITNESS_SIZE 0);
              expected_witness = expected_witness[32 * 2 + 4 * 6 := code];
              expected_witness = expected_witness[32 * 2 + 4 * 6 + 1 := of_bool has_exited];
              expected_state_hash = (k expected_witness)[0 := VMStatus_u8 (vm_status has_exited code)]
          in rbind (assert_that (actual_witness = expected_witness)) (\<lambda>_.
             assert_that (actual_state_hash = expected_state_hash))))))"

definition state_hash_test :: "hash_fn \<Rightarrow> unit res" where
  "state_hash_test k =
     for_each (state_hash_case k) [(False, 0), (False, 1), (False, 2), (False, 3), (True, 0), (True, 1), (True, 2), (True, 3)]"

section \<open>State hashes\<close>

lemma default_witness:
  assumes "length root = 32"
  shows "witness_of root (state_default\<lparr>exited := e, exit_code := c\<rparr>)
    = (copy_from_slice 0 root (replicate 226 0))[88 := c, 89 := of_bool e]"
proof -
  have z: "u32_be 0 = replicate 4 0" "u64_be 0 = replicate 8 0" by code_simp+
  have r: "concat (replicate n (replicate m (0 :: u8))) = replicate (n * m) 0" for n m by (induction n) (simp_all add: replicate_add)
  have "witness_of root (state_default\<lparr>exited := e, exit_code := c\<rparr>) = root @ replicate 56 0 @ [c, of_bool e] @ replicate 136 0"
    by (simp add: witness_of_def state_default_def z r map_replicate replicate_add [symmetric] append_assoc [symmetric]
      del: append_assoc replicate_Suc be_bytes.simps)
  also have "\<dots> = (root @ replicate 194 0)[88 := c, 89 := of_bool e]"
  proof -
    have "replicate 194 (0 :: u8) = replicate 56 0 @ [0, 0] @ replicate 136 0" by (simp add: replicate_add [symmetric] numeral_eq_Suc)
    then show ?thesis using assms by (simp add: list_update_append)
  qed
  finally show ?thesis using assms by (simp add: copy_from_slice_def)
qed

lemma state_hash_case_passes:
  assumes k: "hash32 k"
  shows "passes (state_hash_case k (e, c)) (\<lambda>_. True)"
proof -
  let ?s = "state_default\<lparr>exited := e, exit_code := c\<rparr>" and ?root = "subtree k (mem_leaf memory_default) 27 0"
  have ok: "state_ok k ?s" using state_default_ok [of k] by (simp add: state_ok_def)
  have mem: "memory ?s = memory_default" by (simp add: state_default_def)
  obtain m1 where m1: "encode_witness k ?s = Inr (witness_of ?root ?s, ?s\<lparr>memory := m1\<rparr>)" "mem_extends memory_default m1" "mem_ok k m1"
    using encode_witness_ok [OF ok k] unfolding mem by (metis state_okD(1) state.select_convs(1) state.surjective state.update_convs(1))
  obtain m2 where m2: "merkle_root k m1 = Inr (subtree k (mem_leaf m1) 27 0, m2)" by (rule merkle_root_ok [OF m1(3)])
  have "mem_leaf m1 = mem_leaf memory_default"
    by (rule mem_leaf_cong) (rule mem_extends_byte [OF mem_okD(1) [OF memory_default_ok] m1(2)])
  then have root2: "merkle_root k m1 = Inr (?root, m2)" using m2 by simp
  have len: "length ?root = 32" by (rule length_subtree [OF k]) simp
  have key: "length (preimage_key ?s) = 32" "length (registers ?s) = 32" by (simp_all add: state_default_def)
  note w = default_witness [OF len, where e = e and c = c]
  have hash: "state_hash k (witness_of ?root ?s) = (k (witness_of ?root ?s))[0 := VMStatus_u8 (vm_status e c)]"
    using state_hash_witness [OF len key(1) k] k by (cases "k (witness_of ?root ?s)") (auto simp: hash32_def dest: spec [of _ "witness_of ?root ?s"])
  have "length (witness_of ?root ?s) = STATE_WITNESS_SIZE" using length_witness_of [OF len key] by simp
  then show ?thesis
    unfolding state_hash_case_def passes_def using m1(1) root2 hash w
    by (simp add: unwrap_res_def assert_that_def Let_def del: subtree.simps)
qed

lemma state_hash_test_passes: "hash32 k \<Longrightarrow> state_hash_test k = Inr ()"
  unfolding state_hash_test_def
  by (rule passesD, rule passes_for_each) (auto intro: state_hash_case_passes)

section \<open>Pages with stale caches\<close>

text \<open>Merkleizing an inner node reads the data below invalid entries only.\<close>

definition agree_invalid :: "cached_page \<Rightarrow> bytes \<Rightarrow> bool" where
  "agree_invalid p d \<longleftrightarrow> (\<forall>g. 64 \<le> g \<longrightarrow> g < 128 \<longrightarrow> \<not> valid p ! g \<longrightarrow>
     slice_at (push_bit 6 (g - 64)) (push_bit 6 (g - 64) + 64) d = slice_at (push_bit 6 (g - 64)) (push_bit 6 (g - 64) + 64) (data p))"

lemma agree_extends: "agree_invalid p d \<Longrightarrow> page_extends p q \<Longrightarrow> agree_invalid q d"
  by (auto simp: agree_invalid_def page_extends_def)

lemma merkleize_stale:
  assumes "page_ok k p" and "0 < g" and "g < 128" and "agree_invalid p d" and "page_merkleize_subtree k g p = Inr (h, p')"
  shows "page_merkleize_subtree k g (p\<lparr>data := d\<rparr>) = Inr (h, p'\<lparr>data := d\<rparr>)"
  using assms
proof (induction "128 - g" arbitrary: g p h p' rule: less_induct)
  case less
  consider (hit) "valid p ! g" | (pair) "64 \<le> g" "\<not> valid p ! g" | (inner) "g < 64" "\<not> valid p ! g" by linarith
  then show ?case
  proof cases
    case hit
    with less.prems(3,5) show ?thesis by (subst page_merkleize_subtree.simps, subst (asm) page_merkleize_subtree.simps) auto
  next
    case pair
    then have "slice_at (push_bit 6 (g - 64)) (push_bit 6 (g - 64) + 64) d = slice_at (push_bit 6 (g - 64)) (push_bit 6 (g - 64) + 64) (data p)"
      using less.prems(3,4) by (simp add: agree_invalid_def)
    with pair less.prems(3,5) show ?thesis
      by (subst page_merkleize_subtree.simps, subst (asm) page_merkleize_subtree.simps) (auto simp: Let_def)
  next
    case inner
    obtain l p1 where p1: "page_merkleize_subtree k (2 * g) p = Inr (l, p1)" "page_ok k p1" "page_extends p p1"
      using page_merkleize_correct [OF less.prems(1), of "2 * g"] inner less.prems(2) by auto
    obtain r p2 where p2: "page_merkleize_subtree k (2 * g + 1) p1 = Inr (r, p2)"
      using page_merkleize_correct [OF p1(2), of "2 * g + 1"] inner by auto
    have e: "h = keccak_concat_hashes k l r" "p' = page_mark g (keccak_concat_hashes k l r) p2"
      using page_merkleize_inner [OF less.prems(2) inner p1(1) p2] less.prems(5) by simp_all
    have "page_merkleize_subtree k (2 * g) (p\<lparr>data := d\<rparr>) = Inr (l, p1\<lparr>data := d\<rparr>)"
      using less.hyps [OF _ less.prems(1) _ _ less.prems(4) p1(1)] inner less.prems(2) by simp
    moreover have "page_merkleize_subtree k (2 * g + 1) (p1\<lparr>data := d\<rparr>) = Inr (r, p2\<lparr>data := d\<rparr>)"
      using less.hyps [OF _ p1(2) _ _ agree_extends [OF less.prems(4) p1(3)] p2] inner less.prems(2) by simp
    ultimately show ?thesis
      using page_merkleize_inner [of g "p\<lparr>data := d\<rparr>" k l "p1\<lparr>data := d\<rparr>" r "p2\<lparr>data := d\<rparr>"] inner less.prems(2) e by simp
  qed
qed

text \<open>A page whose cache fits the contents \<open>d\<close>, with contents of its own below valid entries.\<close>

definition shows_data :: "hash_fn \<Rightarrow> bytes \<Rightarrow> cached_page \<Rightarrow> bool" where
  "shows_data k d p \<longleftrightarrow> page_ok k (p\<lparr>data := d\<rparr>) \<and> agree_invalid p d \<and> length (data p) = 4096"

definition page_root :: "hash_fn \<Rightarrow> bytes \<Rightarrow> bytes" where
  "page_root k d = subtree k (page_leaf d) 7 0"

lemma shows_data_ok: "page_ok k p \<Longrightarrow> shows_data k (data p) p"
  by (simp add: shows_data_def agree_invalid_def page_okD(1))

lemma passes_page_root [test_intros]:
  assumes "shows_data k d p"
    and "\<And>p'. shows_data k d p' \<Longrightarrow> data p' = data p \<Longrightarrow> (\<forall>g. 0 < g \<longrightarrow> g < 128 \<longrightarrow> valid p' ! g) \<Longrightarrow> P (page_root k d, p')"
  shows "passes (unwrap_res (page_merkle_root k p)) P"
proof -
  let ?q = "p\<lparr>data := d\<rparr>"
  have ok: "page_ok k ?q" using assms(1) by (simp add: shows_data_def)
  obtain q' where q': "page_merkleize_subtree k 1 ?q = Inr (ghash k (page_leaf d) 7 1, q')" "page_ok k q'" "page_extends ?q q'" "valid q' ! 1"
    using page_merkleize_correct [OF ok, of 1] by auto
  have "agree_invalid ?q (data p)" using assms(1) by (auto simp: shows_data_def agree_invalid_def)
  from merkleize_stale [OF ok _ _ this q'(1)] have r: "page_merkle_root k p = Inr (page_root k d, q'\<lparr>data := data p\<rparr>)"
    by (simp add: page_merkle_root_def page_root_def ghash_def bit_len.simps del: subtree.simps)
  have all: "valid q' ! g" if "0 < g" "g < 128" for g
    using valid_closed_all [of "valid q'" g] q'(2,4) that by (simp add: page_ok_def)
  have "q'\<lparr>data := data p, data := d\<rparr> = q'" using page_extends_data [OF q'(3)] by simp
  then have "shows_data k d (q'\<lparr>data := data p\<rparr>)" using q'(2) all assms(1) by (simp add: shows_data_def agree_invalid_def)
  from assms(2) [OF this] all show ?thesis by (simp add: passes_def unwrap_res_def r)
qed

lemma passes_page_node [test_intros]:
  assumes "shows_data k d p" and "0 < g" and "g < 256"
    and "\<And>p'. shows_data k d p' \<Longrightarrow> data p' = data p \<Longrightarrow> P (ghash k (page_leaf d) 7 g, p')" and "data p = d"
  shows "passes (unwrap_res (page_merkleize_subtree k g p)) P"
proof -
  have "page_ok k p" using assms(1,5) by (auto simp: shows_data_def)
  from page_merkleize_correct [OF this assms(2,3)] obtain p' where
    "page_merkleize_subtree k g p = Inr (ghash k (page_leaf (data p)) 7 g, p')" "page_ok k p'" "page_extends p p'" by blast
  with assms(4) [of p'] assms(5) shows_data_ok [of k p'] page_extends_data [of p p'] show ?thesis
    by (simp add: passes_def unwrap_res_def)
qed

text \<open>An invalidation makes the contents up to the block of its address visible.\<close>

definition visible :: "u32 \<Rightarrow> bytes \<Rightarrow> bytes \<Rightarrow> bytes" where
  "visible a e d = take (64 * Suc (unat a div 64)) e @ drop (64 * Suc (unat a div 64)) d"

lemma visible_update:
  "i < 64 * Suc (unat a div 64) \<Longrightarrow> visible a (d[i := x]) d = d[i := x]"
  "i < 64 * Suc (unat a div 64) \<Longrightarrow> visible a (d[i := x]) (d[i := y]) = d[i := x]"
  "64 * Suc (unat a div 64) \<le> i \<Longrightarrow> visible a (d[i := x]) d = d"
  using append_take_drop_id [of "64 * Suc (unat a div 64)" "d[i := x]"] append_take_drop_id [of "64 * Suc (unat a div 64)" d]
  by (simp_all only: visible_def drop_update_cancel take_update_cancel)

lemma passes_page_invalidate [test_intros]:
  assumes "shows_data k d p" and "unat a < 4096"
    and "\<And>p'. shows_data k (visible a (data p) d) p' \<Longrightarrow> data p' = data p \<Longrightarrow> P p'"
  shows "passes (unwrap_res (page_invalidate a p)) P"
proof -
  let ?a = "unat a" and ?n = "64 * Suc (unat a div 64)" and ?q = "p\<lparr>data := d\<rparr>"
  define d' where "d' = take ?n (data p) @ drop ?n d"
  note ok = assms(1) [unfolded shows_data_def]
  have len: "length d = 4096" "length (data p) = 4096" using ok page_okD(1) [of k ?q] by simp_all
  have n: "?n \<le> 4096" using assms(2) by simp
  have d': "length d' = 4096" "\<And>i. i < 4096 \<Longrightarrow> d' ! i = (if i < ?n then data p ! i else d ! i)"
    using len n by (simp_all add: d'_def nth_append)
  have v: "valid (page_invalidated ?a p) ! g \<longleftrightarrow> 64 + ?a div 64 < g \<and> valid p ! g" if "g < 128" for g
    using valid_page_invalidated [of p ?a g] page_okD(3) [of k ?q] ok assms(2) that by simp
  have "page_ok k (page_invalidated ?a ?q\<lparr>data := d'\<rparr>)"
    by (rule page_invalidated_up_to) (use ok assms(2) d' in \<open>auto simp: less_Suc_eq_le not_less dest: div_le_mono [of _ _ 64]\<close>)
  then have page: "page_ok k (page_invalidated ?a p\<lparr>data := d'\<rparr>)" by (simp add: page_invalidated_def)
  have agree: "agree_invalid (page_invalidated ?a p) d'"
    unfolding agree_invalid_def data_page_invalidated
  proof (intro allI impI)
    fix g :: nat
    let ?s = "push_bit 6 (g - 64)"
    assume g: "64 \<le> g" "g < 128" "\<not> valid (page_invalidated ?a p) ! g"
    have s: "?s = 64 * (g - 64)" by (simp add: push_bit_eq_mult)
    show "slice_at ?s (?s + 64) d' = slice_at ?s (?s + 64) (data p)"
    proof (cases "g - 64 \<le> ?a div 64")
      case True
      then show ?thesis unfolding s using g d' len by (intro slice_eqI) auto
    next
      case False
      then have "\<not> valid p ! g" using v [OF g(2)] g(3) by simp
      then have "slice_at ?s (?s + 64) d = slice_at ?s (?s + 64) (data p)" using ok g by (simp add: agree_invalid_def)
      moreover have "slice_at ?s (?s + 64) d' = slice_at ?s (?s + 64) d" unfolding s using False g d' len by (intro slice_eqI) auto
      ultimately show ?thesis by simp
    qed
  qed
  have "shows_data k d' (page_invalidated ?a p)" using page agree len by (simp add: shows_data_def)
  from assms(3) [unfolded visible_def, folded d'_def, OF this] show ?thesis
    by (simp add: passes_def unwrap_res_def page_invalidate_eq [OF assms(2)])
qed

lemma shows_invalidate_full:
  assumes "shows_data k d p"
  shows "shows_data k (data p) (page_invalidate_full p)"
proof -
  have "page_ok k (p\<lparr>data := d\<rparr>)" "length (data p) = 4096" using assms(1) by (simp_all add: shows_data_def)
  then have "page_ok k (page_invalidate_full p)" using page_invalidate_full_ok [of k "p\<lparr>data := d\<rparr>" "data p"]
    by (simp add: page_invalidate_full_def)
  from shows_data_ok [OF this] show ?thesis by (simp add: page_invalidate_full_def)
qed

lemma shows_set_data:
  assumes "shows_data k d p" and "\<forall>g. 0 < g \<longrightarrow> g < 128 \<longrightarrow> valid p ! g"
  shows "shows_data k d (set_data i x p)"
  using assms by (auto simp: shows_data_def set_data_def agree_invalid_def)

section \<open>The test of pages\<close>

definition zero_data :: bytes where
  "zero_data = replicate 4096 0"

lemma shows_default:
  "shows_data k zero_data (default_page k)" "\<forall>g. 0 < g \<longrightarrow> g < 128 \<longrightarrow> valid (default_page k) ! g"
  using shows_data_ok [OF default_page_ok, of k] by (simp_all add: default_page_def zero_data_def)

lemma default_data: "data (default_page k) = zero_data"
  by (simp add: default_page_def zero_data_def)

lemma passes_assert_last: "P () \<Longrightarrow> b \<Longrightarrow> passes (assert_that b) P"
  by (simp add: passes_def assert_that_def)

lemma page_test_addresses:
  "unat (42 :: u32) < 4096" "unat (2000 :: u32) < 4096"
  "0 < drop_bit 5 (push_bit PAGE_ADDRESS_SIZE 1 OR 42 :: nat)" "drop_bit 5 (push_bit PAGE_ADDRESS_SIZE 1 OR 42 :: nat) < 256"
  "0 < drop_bit 1 (drop_bit 5 (push_bit PAGE_ADDRESS_SIZE 1 OR 42 :: nat))" "drop_bit 1 (drop_bit 5 (push_bit PAGE_ADDRESS_SIZE 1 OR 42 :: nat)) < 256"
  "0 < drop_bit 2 (drop_bit 5 (push_bit PAGE_ADDRESS_SIZE 1 OR 42 :: nat))" "drop_bit 2 (drop_bit 5 (push_bit PAGE_ADDRESS_SIZE 1 OR 42 :: nat)) < 256"
  by simp_all

lemma test_leaf: "j < 128 \<Longrightarrow> page_leaf (zero_data[42 := x]) j = (if j = 1 then (replicate 32 0)[10 := x] else zero32)"
  by (intro nth_equalityI) (auto simp: page_leaf_def zero_data_def zero32_def nth_slice nth_list_update)

lemma test_nodes:
  fixes x k
  defines "h \<equiv> ghash k (page_leaf (zero_data[42 := x])) 7"
  shows "h 129 = (replicate 32 0)[10 := x]"
    and "h 64 = keccak_concat_hashes k (ZERO_HASHES k ! 0) ((replicate 32 0)[10 := x])"
    and "h 32 = keccak_concat_hashes k (keccak_concat_hashes k (ZERO_HASHES k ! 0) ((replicate 32 0)[10 := x])) (ZERO_HASHES k ! 1)"
proof -
  let ?n = "keccak_concat_hashes k"
  have l: "h (128 + j) = page_leaf (zero_data[42 := x]) j" if "j < 128" for j unfolding h_def using that by (subst ghash_leaf) simp_all
  have b: "bit_len 64 = 7" "bit_len 65 = 7" "bit_len 32 = 6" using bit_len_unique [of 6 64] bit_len_unique [of 6 65] bit_len_unique [of 5 32] by simp_all
  have n: "h 64 = ?n (h 128) (h 129)" "h 65 = ?n (h 130) (h 131)" "h 32 = ?n (h 64) (h 65)"
    unfolding h_def using ghash_node [of 64 7] ghash_node [of 65 7] ghash_node [of 32 7] b by simp_all
  show 1: "h 129 = (replicate 32 0)[10 := x]" using l [of 1] by (simp add: test_leaf)
  show 2: "h 64 = ?n (ZERO_HASHES k ! 0) ((replicate 32 0)[10 := x])" using n(1) 1 l [of 0] by (simp add: test_leaf ZERO_HASHES_nth)
  have "h 65 = ZERO_HASHES k ! 1" using n(2) l [of 2] l [of 3] by (simp add: test_leaf ZERO_HASHES_nth)
  with n(3) 2 show "h 32 = ?n (?n (ZERO_HASHES k ! 0) ((replicate 32 0)[10 := x])) (ZERO_HASHES k ! 1)" by simp
qed

text \<open>Pages with different contents have different roots unless the digest collides on the nodes of the two trees.\<close>

definition distinguishes_pages :: "hash_fn \<Rightarrow> bytes \<Rightarrow> bytes \<Rightarrow> bool" where
  "distinguishes_pages k d e \<longleftrightarrow>
     inj_on k (tree_inputs k (\<lambda>j. page_leaf d (j mod 128)) 7 0 \<union> tree_inputs k (\<lambda>j. page_leaf e (j mod 128)) 7 0)"

lemma page_roots_differ:
  assumes "hash32 k" and "distinguishes_pages k d e" and "length d = 4096" and "length e = 4096" and "i < 4096" and "d ! i \<noteq> e ! i"
  shows "page_root k d \<noteq> page_root k e"
proof
  assume eq: "page_root k d = page_root k e"
  have r: "page_root k c = subtree k (\<lambda>j. page_leaf c (j mod 128)) 7 0" for c
    unfolding page_root_def by (rule subtree_cong) simp
  have l: "length (page_leaf d (j mod 128)) = 32" "length (page_leaf e (j mod 128)) = 32" for j
    using assms(3,4) by (simp_all add: length_page_leaf)
  have "page_leaf d (i div 32 mod 128) = page_leaf e (i div 32 mod 128)"
    by (rule subtree_inject [OF eq [unfolded r] assms(2) [unfolded distinguishes_pages_def] assms(1) l]) (use assms(5) in auto)
  moreover have "i div 32 mod 128 = i div 32" "32 * (i div 32) + 32 \<le> 4096" using assms(5) by auto
  ultimately have "page_leaf d (i div 32) ! (i mod 32) = page_leaf e (i div 32) ! (i mod 32)" by simp
  then show False using assms(3-6) \<open>32 * (i div 32) + 32 \<le> 4096\<close> by (simp add: page_leaf_def nth_slice)
qed

lemma cached_page_static_passes:
  defines "ab \<equiv> zero_data[42 := 0xab]" and "cd \<equiv> zero_data[42 := 0xcd]"
    and "ef \<equiv> zero_data[42 := 0xcd, 2000 := 0xef]" and "ff \<equiv> zero_data[42 := 0xcd, 2000 := 0xef, 1000 := 0xff]"
  assumes "hash32 k" and "distinguishes_pages k ab cd" and "distinguishes_pages k cd ef" and "distinguishes_pages k ef ff"
  shows "cached_page_static k = Inr ()"
proof -
  have len: "length zero_data = 4096" "\<And>i. i < 4096 \<Longrightarrow> zero_data ! i = 0" by (simp_all add: zero_data_def)
  have roots: "page_root k ab \<noteq> page_root k cd" "page_root k cd \<noteq> page_root k ef" "page_root k ef \<noteq> page_root k ff"
    using page_roots_differ [OF assms(5,6), of 42] page_roots_differ [OF assms(5,7), of 2000] page_roots_differ [OF assms(5,8), of 1000] len
    by (simp_all add: ab_def cd_def ef_def ff_def)
  show ?thesis
    unfolding cached_page_static_def Let_def
    apply (rule passesD)
    apply (rule passes_rbind passes_pair passes_assert_last passes_page_root passes_page_node passes_page_invalidate shows_set_data
      shows_invalidate_full shows_default page_test_addresses TrueI | assumption)+
    using roots by (simp_all add: set_data_def default_data visible_update test_nodes ab_def cd_def ef_def ff_def)
qed

end
