(* ===== verification/Evm.thy ===== *)
theory Evm
  imports Replay_Proof
begin

text \<open>
  The harness that runs a step on the contracts (\<open>mipsevm/src/test_utils/evm.rs\<close>). The virtual machine
  \<open>revm\<close>, its database, the ABI encoders, the hexadecimal codec and the bytecode of the two contracts
  are parameters, the record \<open>evm_env\<close>. \<open>ev_transact\<close> is \<open>transact_ref\<close>, which does not change the
  database, and \<open>ev_commit\<close> is \<open>transact_commit\<close>; both yield \<open>None\<close> for an \<open>Err\<close>. As elsewhere, an
  operation that fails returns the error alone.
\<close>

section \<open>Data\<close>

definition MIPS_ADDR :: bytes where
  "MIPS_ADDR = replicate 18 0 @ [0xC0, 0xDE]"

definition PREIMAGE_ORACLE_ADDR :: bytes where
  "PREIMAGE_ORACLE_ADDR = replicate 16 0 @ [0x42, 0x4f, 0x4f, 0x4b]"

text \<open>What the harness uses of the types of \<open>revm\<close>; numbers of 256 bits are natural numbers.\<close>

record 'c account_info =
  acc_balance :: nat
  acc_nonce :: u64
  acc_code_hash :: bytes
  acc_code :: "'c option"

datatype transact_to = TxCall bytes | TxCreate

record tx_env =
  tx_caller :: bytes
  tx_gas_limit :: u64
  tx_gas_price :: nat
  tx_gas_priority_fee :: "nat option"
  tx_transact_to :: transact_to
  tx_value :: nat
  tx_data :: bytes
  tx_chain_id :: "u64 option"
  tx_nonce :: "u64 option"
  tx_access_list :: "(bytes \<times> nat list) list"
  tx_blob_hashes :: "bytes list"
  tx_max_fee_per_blob_gas :: "nat option"

record evm_log =
  log_address :: bytes
  log_topics :: "bytes list"
  log_data :: bytes

datatype evm_output = CallOutput bytes | CreateOutput bytes "bytes option"

datatype evm_result = Success "evm_log list" evm_output | Revert bytes | Halt

record ('db, 'c) evm_env =
  ev_keccak :: hash_fn
  ev_empty_db :: 'db
  ev_default_tx :: tx_env
  ev_new_raw :: "bytes \<Rightarrow> 'c"
  ev_insert_contract :: "'c account_info \<Rightarrow> 'db \<Rightarrow> 'c account_info \<times> 'db"
  ev_insert_info :: "bytes \<Rightarrow> 'c account_info \<Rightarrow> 'db \<Rightarrow> 'db"
  ev_transact :: "tx_env \<Rightarrow> 'db \<Rightarrow> evm_result option"
  ev_commit :: "tx_env \<Rightarrow> 'db \<Rightarrow> (evm_result \<times> 'db) option"
  ev_hex_decode :: "string \<Rightarrow> bytes option"
  ev_mips_creation_code :: string
  ev_oracle_deployed_code :: string
  ev_abi_local :: "bytes \<Rightarrow> bytes \<Rightarrow> nat \<Rightarrow> u32 \<Rightarrow> bytes"
  ev_abi_keccak :: "u32 \<Rightarrow> bytes \<Rightarrow> bytes"
  ev_abi_step :: "bytes \<Rightarrow> bytes \<Rightarrow> bytes"

text \<open>\<open>MipsEVM\<close>: the database, which an \<open>EVM\<close> need not have, and the transaction to run next.\<close>

record 'db mips_evm =
  inner_db :: "'db option"
  inner_tx :: tx_env

section \<open>Operations\<close>

definition mips_evm_new :: "('db, 'c) evm_env \<Rightarrow> 'db mips_evm" where
  "mips_evm_new env = \<lparr>inner_db = Some (ev_empty_db env), inner_tx = ev_default_tx env\<rparr>"

definition evm_tx :: "transact_to \<Rightarrow> bytes \<Rightarrow> tx_env" where
  "evm_tx to dat = \<lparr>tx_caller = replicate 20 0, tx_gas_limit = NOT 0, tx_gas_price = 0, tx_gas_priority_fee = None,
     tx_transact_to = to, tx_value = 0, tx_data = dat, tx_chain_id = None, tx_nonce = None, tx_access_list = [],
     tx_blob_hashes = [], tx_max_fee_per_blob_gas = None\<rparr>"

definition fill_tx_env :: "transact_to \<Rightarrow> bytes \<Rightarrow> 'db mips_evm \<Rightarrow> 'db mips_evm" where
  "fill_tx_env to dat e = e\<lparr>inner_tx := evm_tx to dat\<rparr>"

definition deploy_contract :: "('db, 'c) evm_env \<Rightarrow> bytes \<Rightarrow> bytes \<Rightarrow> 'db mips_evm \<Rightarrow> 'db mips_evm res" where
  "deploy_contract env addr code e =
    (let acc_info = \<lparr>acc_balance = 0, acc_nonce = 0, acc_code_hash = replicate 32 0, acc_code = Some (ev_new_raw env code)\<rparr>
     in case inner_db e of
          None \<Rightarrow> Inl MissingDatabase
        | Some db \<Rightarrow>
            (let (acc_info, db) = ev_insert_contract env acc_info db
             in Inr (e\<lparr>inner_db := Some (ev_insert_info env addr acc_info db)\<rparr>)))"

text \<open>Running the transaction; without a database \<open>revm\<close> panics.\<close>

definition transact_ref :: "('db, 'c) evm_env \<Rightarrow> 'db mips_evm \<Rightarrow> evm_result option res" where
  "transact_ref env e = (case inner_db e of None \<Rightarrow> Inl PanicDatabase | Some db \<Rightarrow> Inr (ev_transact env (inner_tx e) db))"

definition transact_commit :: "('db, 'c) evm_env \<Rightarrow> 'db mips_evm \<Rightarrow> ((evm_result \<times> 'db mips_evm) option) res" where
  "transact_commit env e =
    (case inner_db e of
       None \<Rightarrow> Inl PanicDatabase
     | Some db \<Rightarrow> Inr (map_option (\<lambda>(r, db1). (r, e\<lparr>inner_db := Some db1\<rparr>)) (ev_commit env (inner_tx e) db)))"

definition hex_decode :: "('db, 'c) evm_env \<Rightarrow> string \<Rightarrow> bytes res" where
  "hex_decode env s = (case ev_hex_decode env s of None \<Rightarrow> Inl HexError | Some bs \<Rightarrow> Inr bs)"

text \<open>\<open>into_word\<close>: an address as a word of 32 bytes.\<close>

definition into_word :: "bytes \<Rightarrow> bytes" where
  "into_word addr = replicate 12 0 @ addr"

definition try_init :: "('db, 'c) evm_env \<Rightarrow> 'db mips_evm \<Rightarrow> 'db mips_evm res" where
  "try_init env e =
    (case inner_db e of
       None \<Rightarrow> Inl MissingDatabase
     | Some db \<Rightarrow>
         (let funded = \<lparr>acc_balance = 2 ^ 128 - 1, acc_nonce = 0, acc_code_hash = replicate 32 0, acc_code = None\<rparr>;
              e1 = e\<lparr>inner_db := Some (ev_insert_info env (replicate 20 0) funded db)\<rparr>
          in rbind (hex_decode env (ev_oracle_deployed_code env)) (\<lambda>oracle_code.
             rbind (deploy_contract env PREIMAGE_ORACLE_ADDR oracle_code e1) (\<lambda>e2.
             rbind (hex_decode env (ev_mips_creation_code env)) (\<lambda>creation_code.
               let e3 = fill_tx_env TxCreate (creation_code @ into_word PREIMAGE_ORACLE_ADDR) e2
               in rbind (transact_ref env e3) (\<lambda>r.
                    case r of
                      Some (Success logs (CreateOutput code address)) \<Rightarrow> deploy_contract env MIPS_ADDR code e3
                    | _ \<Rightarrow> Inl DeployFailed))))))"

text \<open>The preimage of a witness goes to the oracle contract first. The result of that call is not looked at.\<close>

definition load_preimage :: "('db, 'c) evm_env \<Rightarrow> step_witness \<Rightarrow> 'db mips_evm \<Rightarrow> 'db mips_evm res" where
  "load_preimage env wit e =
    (if has_preimage wit then
       rbind (encode_preimage_oracle_input (ev_abi_local env) (ev_abi_keccak env) wit) (\<lambda>input.
         case input of
           None \<Rightarrow> Inl OracleInputMissing
         | Some preimage_oracle_input \<Rightarrow>
             rbind (transact_commit env (fill_tx_env (TxCall PREIMAGE_ORACLE_ADDR) preimage_oracle_input e)) (\<lambda>r.
               case r of None \<Rightarrow> Inl PreimageCommitFailed | Some (res, e1) \<Rightarrow> Inr e1))
     else Inr e)"

text \<open>The result of the step call: an output of 32 bytes, one log, the state in it, and its hash.\<close>

definition check_post_state :: "hash_fn \<Rightarrow> evm_result option \<Rightarrow> bytes res" where
  "check_post_state keccak r =
    (case r of
       Some (Success logs (CallOutput output)) \<Rightarrow>
         if length output \<noteq> 32 then Inl PanicSlice
         else if length logs \<noteq> 1 then Inl (UnexpectedLogs (length logs))
         else
           (let post_state = log_data (logs ! 0)
            in if length post_state \<noteq> STATE_WITNESS_SIZE then Inl PostStateLength
               else if state_hash keccak post_state \<noteq> output then Inl (PostStateMismatch output (state_hash keccak post_state))
               else Inr post_state)
     | _ \<Rightarrow> Inl EvmStepFailed)"

definition evm_step :: "('db, 'c) evm_env \<Rightarrow> step_witness \<Rightarrow> 'db mips_evm \<Rightarrow> (bytes \<times> 'db mips_evm) res" where
  "evm_step env wit e =
     rbind (load_preimage env wit e) (\<lambda>e1.
     let e2 = fill_tx_env (TxCall MIPS_ADDR) (encode_step_input (ev_abi_step env) wit) e1
     in rbind (transact_ref env e2) (\<lambda>r.
        rbind (check_post_state (ev_keccak env) r) (\<lambda>post_state. Inr (post_state, e2))))"

section \<open>The differential test\<close>

text \<open>
  The loop of the tests: both machines make a step, and the states after it must agree. Every
  thousandth round reads the instruction for a message, which may fill the memory's page cache;
  \<open>unwrap_res\<close> is \<open>unwrap\<close>.
\<close>

definition differential_step ::
  "('o, 'w) env \<Rightarrow> ('db, 'c) evm_env \<Rightarrow> 'db mips_evm \<times> ('o, 'w) instrumented \<Rightarrow> ('db mips_evm \<times> ('o, 'w) instrumented) res" where
  "differential_step env evm_env s =
    (case s of (e, v) \<Rightarrow>
       rbind (unwrap_res (vm_step env True v)) (\<lambda>(wit, v1).
         case wit of
           None \<Rightarrow> Inl PanicUnwrap
         | Some step_witness \<Rightarrow>
             rbind (unwrap_res (evm_step evm_env step_witness e)) (\<lambda>(evm_post, e1).
             rbind (unwrap_res (encode_witness (env_keccak env) (vm_state v1))) (\<lambda>(rust_post, s1).
               if evm_post = rust_post then Inr (e1, v1\<lparr>vm_state := s1\<rparr>) else Inl PanicAssert))))"

function differential_run ::
  "('o, 'w) env \<Rightarrow> ('db, 'c) evm_env \<Rightarrow> nat \<Rightarrow> nat \<Rightarrow> 'db mips_evm \<times> ('o, 'w) instrumented \<Rightarrow> ('db mips_evm \<times> ('o, 'w) instrumented) res" where
  "differential_run env evm_env i n s =
    (if n \<le> i \<or> exited (vm_state (snd s)) then Inr s
     else
       rbind (if i mod 1000 = 0 then
                rbind (unwrap_res (vm_get_memory (pc (vm_state (snd s))) (snd s))) (\<lambda>(instruction, v1). Inr (fst s, v1))
              else Inr s)
         (\<lambda>s1. rbind (differential_step env evm_env s1) (differential_run env evm_env (Suc i) n)))"
  by pat_completeness auto
termination
  by (relation "measure (\<lambda>(env, evm_env, i, n, s). n - i)") auto

declare differential_run.simps [simp del]

end
