(* ===== verification/Evm_Proof.thy ===== *)
theory Evm_Proof
  imports Evm Kernel_Proof
begin

text \<open>
  What the harness accepts, and what a passing differential test shows. Nothing is assumed of the contracts or of the
  virtual machine that runs them: the properties say which answers of theirs the code accepts, how
  they are compared with the machine, and that the comparison is with the machine as it runs outside the test.
\<close>

section \<open>What a step of the harness accepts\<close>

lemma load_preimage_cases:
  assumes "load_preimage env wit e = Inr e1"
  obtains "\<not> has_preimage wit" and "e1 = e"
  | input db r db1 where "has_preimage wit" and "encode_preimage_oracle_input (ev_abi_local env) (ev_abi_keccak env) wit = Inr (Some input)"
    and "inner_db e = Some db" and "ev_commit env (evm_tx (TxCall PREIMAGE_ORACLE_ADDR) input) db = Some (r, db1)" and "inner_db e1 = Some db1"
proof (cases "has_preimage wit")
  case True
  then obtain i where i: "encode_preimage_oracle_input (ev_abi_local env) (ev_abi_keccak env) wit = Inr i"
    and rest: "(case i of None \<Rightarrow> Inl OracleInputMissing
       | Some input \<Rightarrow> rbind (transact_commit env (fill_tx_env (TxCall PREIMAGE_ORACLE_ADDR) input e)) (\<lambda>r.
           case r of None \<Rightarrow> Inl PreimageCommitFailed | Some (res, e1) \<Rightarrow> Inr e1)) = Inr e1"
    using assms unfolding load_preimage_def by auto
  with True show thesis
    using i by (auto simp: transact_commit_def fill_tx_env_def split: option.split_asm intro: that(2))
next
  case False
  with assms that(1) show thesis by (simp add: load_preimage_def)
qed

lemma load_preimage_db:
  assumes "load_preimage env wit e = Inr e1" and "inner_db e = Some db"
  shows "\<exists>db1. inner_db e1 = Some db1"
  using assms by (auto elim: load_preimage_cases)

lemma check_post_state_Inr:
  "check_post_state k r = Inr post \<longleftrightarrow>
    (\<exists>log. r = Some (Success [log] (CallOutput (state_hash k post))) \<and> log_data log = post \<and> length post = 226 \<and> length (state_hash k post) = 32)"
proof
  assume "check_post_state k r = Inr post"
  then obtain logs where "r = Some (Success logs (CallOutput (state_hash k post)))" "length logs = 1" "log_data (logs ! 0) = post"
      "length post = 226" "length (state_hash k post) = 32"
    by (auto simp: check_post_state_def Let_def split: option.splits evm_result.splits evm_output.splits if_split_asm)
  then show "\<exists>log. r = Some (Success [log] (CallOutput (state_hash k post))) \<and> log_data log = post \<and> length post = 226 \<and> length (state_hash k post) = 32"
    by (auto simp: length_Suc_conv)
qed (auto simp: check_post_state_def)

lemma evm_step_Inr:
  "evm_step env wit e = Inr (post, e2) \<longleftrightarrow>
    (\<exists>e1 db1. load_preimage env wit e = Inr e1 \<and> inner_db e1 = Some db1
      \<and> e2 = fill_tx_env (TxCall MIPS_ADDR) (ev_abi_step env (wit_state wit) (wit_mem_proof wit)) e1
      \<and> check_post_state (ev_keccak env)
          (ev_transact env (evm_tx (TxCall MIPS_ADDR) (ev_abi_step env (wit_state wit) (wit_mem_proof wit))) db1) = Inr post)"
  unfolding evm_step_def Let_def transact_ref_def encode_step_input_def
  by (auto simp: fill_tx_env_def split: option.splits)

text \<open>
  A database that has the code at an address after it was inserted. Then the initialized harness has the
  bytecode of the oracle at its address, and at the address of the machine the code that the creation of
  the contract returned, which was run on a database with the oracle and got the oracle's address as its
  argument.
\<close>

definition code_laws :: "('db, 'c) evm_env \<Rightarrow> ('db \<Rightarrow> bytes \<Rightarrow> 'c option) \<Rightarrow> bool" where
  "code_laws env code_at \<longleftrightarrow>
    (\<forall>a acc db. code_at (ev_insert_info env a acc db) = (code_at db)(a := acc_code acc)) \<and>
    (\<forall>acc db. acc_code (fst (ev_insert_contract env acc db)) = acc_code acc \<and> code_at (snd (ev_insert_contract env acc db)) = code_at db)"

lemma deploy_code:
  assumes "code_laws env code_at" and "deploy_contract env a code e = Inr e1"
  obtains db db1 where "inner_db e = Some db" and "inner_db e1 = Some db1" and "code_at db1 = (code_at db)(a \<mapsto> ev_new_raw env code)"
    and "inner_tx e1 = inner_tx e"
  using assms unfolding code_laws_def deploy_contract_def Let_def
  by (auto split: option.splits prod.splits) (metis fst_conv snd_conv account_info.select_convs(4))

lemma harness_init:
  assumes laws: "code_laws env code_at" and init: "try_init env e = Inr e'"
  obtains db db1 oracle_code creation_code code logs address where "inner_db e' = Some db"
    and "code_at db PREIMAGE_ORACLE_ADDR = Some (ev_new_raw env oracle_code)" and "code_at db MIPS_ADDR = Some (ev_new_raw env code)"
    and "ev_hex_decode env (ev_oracle_deployed_code env) = Some oracle_code" and "ev_hex_decode env (ev_mips_creation_code env) = Some creation_code"
    and "code_at db1 PREIMAGE_ORACLE_ADDR = Some (ev_new_raw env oracle_code)"
    and "ev_transact env (evm_tx TxCreate (creation_code @ replicate 12 0 @ PREIMAGE_ORACLE_ADDR)) db1 = Some (Success logs (CreateOutput code address))"
proof -
  obtain db0 where db0: "inner_db e = Some db0" using init by (auto simp: try_init_def split: option.splits)
  obtain oracle_code creation_code e1 e2 r where
    hex: "hex_decode env (ev_oracle_deployed_code env) = Inr oracle_code" "hex_decode env (ev_mips_creation_code env) = Inr creation_code"
    and d: "deploy_contract env PREIMAGE_ORACLE_ADDR oracle_code e1 = Inr e2"
    and r: "transact_ref env (fill_tx_env TxCreate (creation_code @ into_word PREIMAGE_ORACLE_ADDR) e2) = Inr r"
    and rest: "(case r of Some (Success logs (CreateOutput code address)) \<Rightarrow>
        deploy_contract env MIPS_ADDR code (fill_tx_env TxCreate (creation_code @ into_word PREIMAGE_ORACLE_ADDR) e2) | _ \<Rightarrow> Inl DeployFailed) = Inr e'"
    using init unfolding try_init_def Let_def db0 option.case by (elim rbind_InrE) blast
  obtain logs code address where s: "r = Some (Success logs (CreateOutput code address))"
    and m: "deploy_contract env MIPS_ADDR code (fill_tx_env TxCreate (creation_code @ into_word PREIMAGE_ORACLE_ADDR) e2) = Inr e'"
    using rest by (auto split: option.splits evm_result.splits evm_output.splits)
  obtain db2 where db2: "inner_db e2 = Some db2" "code_at db2 PREIMAGE_ORACLE_ADDR = Some (ev_new_raw env oracle_code)"
    by (rule deploy_code [OF laws d]) simp
  obtain db where db: "inner_db e' = Some db" "code_at db = (code_at db2)(MIPS_ADDR \<mapsto> ev_new_raw env code)"
    by (rule deploy_code [OF laws m]) (use db2(1) in \<open>simp add: fill_tx_env_def\<close>)
  show thesis
  proof (rule that [OF db(1)])
    show "code_at db PREIMAGE_ORACLE_ADDR = Some (ev_new_raw env oracle_code)" "code_at db MIPS_ADDR = Some (ev_new_raw env code)"
      using db(2) db2(2) by (simp_all add: MIPS_ADDR_def PREIMAGE_ORACLE_ADDR_def)
    show "ev_transact env (evm_tx TxCreate (creation_code @ replicate 12 0 @ PREIMAGE_ORACLE_ADDR)) db2 = Some (Success logs (CreateOutput code address))"
      using r s db2(1) by (simp add: transact_ref_def fill_tx_env_def into_word_def)
  qed (use hex db2(2) in \<open>auto simp: hex_decode_def split: option.splits\<close>)
qed

section \<open>Rounds of the differential test\<close>

text \<open>The contracts answer a witness with the state \<open>post\<close>: once the preimage of the witness is loaded, the
  call of the step function with the state and the proof of the witness returns the hash of \<open>post\<close> and logs \<open>post\<close>.\<close>

definition answers :: "('db, 'c) evm_env \<Rightarrow> 'db mips_evm \<Rightarrow> step_witness \<Rightarrow> 'db mips_evm \<Rightarrow> bytes \<Rightarrow> bool" where
  "answers ev e wit e' post \<longleftrightarrow>
    (\<exists>e1 db log. load_preimage ev wit e = Inr e1 \<and> inner_db e1 = Some db \<and> inner_db e' = Some db
      \<and> ev_transact ev (evm_tx (TxCall MIPS_ADDR) (ev_abi_step ev (wit_state wit) (wit_mem_proof wit))) db
          = Some (Success [log] (CallOutput (state_hash (ev_keccak ev) post)))
      \<and> log_data log = post)"

abbreviation machine_witness :: "hash_fn \<Rightarrow> ('o, 'w) instrumented \<Rightarrow> bytes" where
  "machine_witness k v \<equiv> witness_of (mem_root k (vm_memory v)) (vm_state v)"

lemma evm_step_answers: "evm_step ev wit e = Inr (post, e2) \<Longrightarrow> answers ev e wit e2 post"
  unfolding evm_step_Inr answers_def check_post_state_Inr by (auto simp: fill_tx_env_def)

lemma vm_sim_refl: "mem_ok k (vm_memory v) \<Longrightarrow> vm_sim k v v"
  using vm_simI [of k v "vm_memory v"] retrack_id [of v] by (metis mem_sim_def)

text \<open>Hashing the state and reading an instruction leave the machine as it is, caches apart.\<close>

lemma vm_sim_memory: "mem_ok k (vm_memory v) \<Longrightarrow> mem_ok k m \<Longrightarrow> mem_byte m = mem_byte (vm_memory v) \<Longrightarrow> vm_sim k v (set_vm_memory m v)"
  using vm_simI [of k v m "last_mem_access v" "mem_proof_enabled v" "mem_proof v"] by (simp add: mem_sim_def retrack_def)

lemma unwrap_res_Inr [simp]: "unwrap_res r = Inr x \<longleftrightarrow> r = Inr x"
  by (simp add: unwrap_res_def split: sum.split)

text \<open>A round that passes: the contracts answer with the encoding of the state after the step.\<close>

lemma differential_step_Inr:
  assumes k: "hash32 k" and env: "env_keccak env = k" and ok: "machine_ok k v" and run: "\<not> exited (vm_state v)"
    and d: "differential_step env ev (e, v) = Inr (e', v')"
  obtains wit v1 where "vm_step env True v = Inr (Some wit, v1)" and "answers ev e wit e' (machine_witness k v1)"
    and "vm_sim k v1 v'" and "machine_ok k v'" and "wit_state wit = machine_witness k v"
proof -
  obtain wit v1 post w' s1 where st: "vm_step env True v = Inr (Some wit, v1)" and evm: "evm_step ev wit e = Inr (post, e')"
    and enc: "encode_witness k (vm_state v1) = Inr (w', s1)" and eq: "post = w'" and v': "v' = v1\<lparr>vm_state := s1\<rparr>"
    using d env unfolding differential_step_def prod.case by (elim rbind_InrE) (auto elim!: rbind_InrE split: option.splits if_splits)
  have v: "state_ok k (vm_state v)" "length (mem_proof v) = 896" using ok by (simp_all add: machine_ok_def)
  note ok1 = vm_step_ok(1,2) [OF k env v st]
  note s1 = encode_witness_value [OF ok1(1) k enc]
  have "v' = set_vm_memory (memory s1) v1" unfolding v' by (subst s1(3)) simp
  then have "vm_sim k v1 v'" using vm_sim_memory [of k v1 "memory s1"] s1(2,4) state_okD(1) ok1(1) by metis
  moreover have "machine_ok k v'" using v' s1(2) ok1(2) by (simp add: machine_ok_def)
  moreover have "wit_state wit = machine_witness k v" using vm_step_proof [OF k env v(1) run v(2) st] by auto
  moreover have "answers ev e wit e' (machine_witness k v1)" using evm_step_answers [OF evm] eq s1(1) by simp
  ultimately show thesis using that st by blast
qed

lemma length_state_hash: "hash32 k \<Longrightarrow> length (state_hash k w) = 32"
  by (simp add: state_hash_def hash32_def Let_def)

text \<open>A round of the differential test passes exactly when the contracts answer with the next state.\<close>

lemma differential_step_iff:
  assumes k: "hash32 k" and env: "env_keccak env = k" and hasher: "ev_keccak ev = k" and ok: "machine_ok k v" and run: "\<not> exited (vm_state v)"
    and st: "vm_step env True v = Inr (Some wit, v')"
  shows "(\<exists>s'. differential_step env ev (e, v) = Inr s') \<longleftrightarrow> (\<exists>e'. answers ev e wit e' (machine_witness k v'))"
proof
  assume "\<exists>s'. differential_step env ev (e, v) = Inr s'"
  then show "\<exists>e'. answers ev e wit e' (machine_witness k v')"
    using differential_step_Inr [OF k env ok run] st by (metis Inr_inject option.inject prod.inject surj_pair)
next
  have v: "state_ok k (vm_state v)" "length (mem_proof v) = 896" using ok by (simp_all add: machine_ok_def)
  note ok' = vm_step_ok(1) [OF k env v st]
  obtain s' where enc: "encode_witness k (vm_state v') = Inr (machine_witness k v', s')" by (rule encode_witness_ok [OF ok' k]) blast
  have len: "length (machine_witness k v') = 226" by (rule length_witness_of [OF length_mem_root [OF k] state_okD(2,3) [OF ok']])
  assume "\<exists>e'. answers ev e wit e' (machine_witness k v')"
  then obtain e2 where "evm_step ev wit e = Inr (machine_witness k v', e2)"
    unfolding evm_step_Inr check_post_state_Inr answers_def using len length_state_hash [OF k] hasher by auto
  with st enc env show "\<exists>s'. differential_step env ev (e, v) = Inr s'" by (auto simp: differential_step_def unwrap_res_def)
qed

text \<open>What one step of a passing test establishes: the plain machine makes the step, the witness is that of the same step made with a proof
  by a machine that differs in caches and tracking only, and the contracts answer it with the encoding of the next state.\<close>

definition checked_step ::
  "hash_fn \<Rightarrow> ('o, 'w) env \<Rightarrow> ('db, 'c) evm_env \<Rightarrow> ('o, 'w) instrumented \<times> 'db mips_evm \<Rightarrow> step_witness \<Rightarrow> ('o, 'w) instrumented \<times> 'db mips_evm \<Rightarrow> bool" where
  "checked_step k env ev s wit s' \<longleftrightarrow>
    (case (s, s') of ((u, e), (u', e')) \<Rightarrow>
       \<not> exited (vm_state u) \<and> vm_step env False u = Inr (None, u')
       \<and> (\<exists>x y. vm_sim k u x \<and> vm_step env True x = Inr (Some wit, y)) \<and> wit_state wit = machine_witness k u
       \<and> answers ev e wit e' (machine_witness k u'))"

lemma instruction_read:
  assumes ok: "machine_ok k v" and r: "(if b then rbind (unwrap_res (vm_get_memory a v)) (\<lambda>(x, v1). Inr (e, v1)) else Inr (e, v)) = Inr s1"
  obtains v1 where "s1 = (e, v1)" and "vm_sim k v v1" and "machine_ok k v1"
proof (cases b)
  case True
  then obtain x m where m: "get_memory a (vm_memory v) = Inr (x, m)" "s1 = (e, set_vm_memory m v)"
    using r by (auto simp: vm_get_memory_def)
  have v: "mem_ok k (vm_memory v)" using ok state_okD(1) by (auto simp: machine_ok_def)
  have "mem_ok k m" "mem_byte m = mem_byte (vm_memory v)" using wm.load_Inr [OF v m(1)] by auto
  then show thesis using that [OF m(2)] vm_sim_memory [OF v] ok by (simp add: machine_ok_def state_ok_def)
next
  case False
  then show thesis using that [of v] r ok vm_sim_refl state_okD(1) by (auto simp: machine_ok_def)
qed

lemma differential_step_checked:
  assumes k: "hash32 k" and env: "env_keccak env = k" and ok: "machine_ok k u" "machine_ok k v" and sim: "vm_sim k u v"
    and run: "\<not> exited (vm_state u)" and d: "differential_step env ev (e, v) = Inr (e', v')"
  obtains u' wit where "checked_step k env ev (u, e) wit (u', e')" and "vm_sim k u' v'" and "machine_ok k u'" and "machine_ok k v'"
proof -
  have run': "\<not> exited (vm_state v)" using run vm_sim_fields [OF sim] by simp
  obtain wit v1 where w: "vm_step env True v = Inr (Some wit, v1)" "answers ev e wit e' (machine_witness k v1)"
      "vm_sim k v1 v'" "machine_ok k v'" "wit_state wit = machine_witness k v"
    by (rule differential_step_Inr [OF k env ok(2) run' d])
  have uv: "state_ok k (vm_state u)" "state_ok k (vm_state v)" "length (mem_proof u) = 896" using ok by (simp_all add: machine_ok_def)
  obtain wo u' where u': "vm_step env False u = Inr (wo, u')" "vm_sim k u' v1"
    using vm_step_sim [OF k env sim uv(1,2), of False True] w(1) by (auto elim!: rel_sum.cases)
  have "wo = None" using vm_step_ok(3) [OF k env uv(1,3) u'(1)] by simp
  then have "checked_step k env ev (u, e) wit (u', e')"
    using run u' w(1,2,5) sim vm_sim_witness [OF sim] vm_sim_witness [OF u'(2)] by (auto simp: checked_step_def)
  moreover have "machine_ok k u'" using vm_step_ok(1,2) [OF k env uv(1,3) u'(1)] by (simp add: machine_ok_def)
  ultimately show thesis using that w(3,4) vm_sim_trans [OF u'(2)] by blast
qed

lemma differential_run_checked:
  assumes k: "hash32 k" and env: "env_keccak env = k" and ok: "machine_ok k u" "machine_ok k v" and sim: "vm_sim k u v"
    and d: "differential_run env ev i n (e, v) = Inr (e', v')" and i: "i \<le> n"
  shows "\<exists>j ss wits. i + j \<le> n \<and> ss 0 = (u, e) \<and> (i + j = n \<or> exited (vm_state (fst (ss j)))) \<and> vm_sim k (fst (ss j)) v' \<and> snd (ss j) = e'
    \<and> (\<forall>a<j. checked_step k env ev (ss a) (wits a) (ss (Suc a)))"
  using ok sim d i
proof (induction "n - i" arbitrary: i u v e)
  case 0
  then show ?case by (intro exI [of _ 0] exI [of _ "\<lambda>_. (u, e)"]) (simp add: differential_run.simps)
next
  case (Suc l)
  show ?case
  proof (cases "exited (vm_state v)")
    case True
    then show ?thesis using Suc.prems vm_sim_fields [OF Suc.prems(3)]
      by (intro exI [of _ 0] exI [of _ "\<lambda>_. (u, e)"]) (simp add: differential_run.simps)
  next
    case False
    from Suc.hyps(2) have "i < n" by simp
    with False Suc.prems(4) [unfolded differential_run.simps [of env ev i n "(e, v)"] fst_conv snd_conv] obtain s1 s2 where
      s1: "(if i mod 1000 = 0 then rbind (unwrap_res (vm_get_memory (pc (vm_state v)) v)) (\<lambda>(x, v1). Inr (e, v1)) else Inr (e, v)) = Inr s1"
      and s2: "differential_step env ev s1 = Inr s2" and rest: "differential_run env ev (Suc i) n s2 = Inr (e', v')"
      by (auto elim!: rbind_InrE)
    obtain v1 where v1: "s1 = (e, v1)" "vm_sim k v v1" "machine_ok k v1" by (rule instruction_read [OF Suc.prems(2) s1])
    obtain e2 v2 where e2: "s2 = (e2, v2)" by (rule prod.exhaust)
    have "\<not> exited (vm_state u)" using False vm_sim_fields [OF Suc.prems(3)] by simp
    then obtain u' wit where u': "checked_step k env ev (u, e) wit (u', e2)" "vm_sim k u' v2" "machine_ok k u'" "machine_ok k v2"
      by (rule differential_step_checked [OF k env Suc.prems(1) v1(3) vm_sim_trans [OF Suc.prems(3) v1(2)] _ s2 [unfolded v1(1) e2]])
    obtain j ss wits where IH: "Suc i + j \<le> n" "ss 0 = (u', e2)" "Suc i + j = n \<or> exited (vm_state (fst (ss j)))" "vm_sim k (fst (ss j)) v'"
        "snd (ss j) = e'" "\<forall>a<j. checked_step k env ev (ss a) (wits a) (ss (Suc a))"
      using Suc.hyps(1) [OF _ u'(3,4,2) rest [unfolded e2]] Suc.hyps(2) by fastforce
    have "\<forall>a<Suc j. checked_step k env ev (case_nat (u, e) ss a) (case_nat wit wits a) (case_nat (u, e) ss (Suc a))"
      using u'(1) IH(2,6) by (auto simp: less_Suc_eq_0_disj)
    with IH show ?thesis by (intro exI [of _ "Suc j"] exI [of _ "case_nat (u, e) ss"] exI [of _ "case_nat wit wits"]) simp
  qed
qed

section \<open>Properties\<close>

text \<open>C5. What a passing differential test shows, for any contracts. If the loop of the test comes to its end, the machine run
  without the test, with no proofs, no hashing and no reading of instructions in between, makes the same steps up to the
  bound or the exit of the program; and in each of them the contracts, called on a database into which the preimage of the
  witness has been loaded, with the encoding of the state before the step and the proof of the witness,
  returned the hash of the encoding of the state after it and logged that encoding.\<close>

theorem differential_test_sound:
  assumes "hash32 k" and "env_keccak env = k" and "machine_ok k v" and "differential_run env ev 0 n (e, v) = Inr (e', v')"
  shows "\<exists>j ss wits. j \<le> n \<and> ss 0 = (v, e) \<and> (j = n \<or> exited (vm_state (fst (ss j)))) \<and> vm_sim k (fst (ss j)) v' \<and> snd (ss j) = e'
    \<and> (\<forall>i<j. checked_step k env ev (ss i) (wits i) (ss (Suc i)))"
proof -
  have "vm_sim k v v" using vm_sim_refl assms(3) state_okD(1) by (auto simp: machine_ok_def)
  from differential_run_checked [OF assms(1,2,3,3) this assms(4)] show ?thesis by simp
qed

text \<open>A virtual machine that gives the same answer to every call, for the example.\<close>

definition canned_evm :: "hash_fn \<Rightarrow> bytes \<Rightarrow> (unit, bytes) evm_env" where
  "canned_evm k w = \<lparr>ev_keccak = k, ev_empty_db = (), ev_default_tx = evm_tx TxCreate [], ev_new_raw = id,
     ev_insert_contract = (\<lambda>acc db. (acc, db)), ev_insert_info = (\<lambda>a acc db. db),
     ev_transact = (\<lambda>tx db. Some (Success [\<lparr>log_address = MIPS_ADDR, log_topics = [], log_data = w\<rparr>] (CallOutput (state_hash k w)))),
     ev_commit = (\<lambda>tx db. None), ev_hex_decode = (\<lambda>s. Some []), ev_mips_creation_code = [], ev_oracle_deployed_code = [],
     ev_abi_local = (\<lambda>key w n off. w @ key), ev_abi_keccak = (\<lambda>off p. p), ev_abi_step = (@)\<rparr>"

lemma vm_step_wit:
  assumes "vm_step env True v = Inr (Some wit, v')"
  obtains w0 where "wit = complete_witness v' w0" and "wit_preimage_key w0 = None"
  using assms unfolding vm_step_def begin_witness_def Let_def by auto

lemma canned_round:
  assumes k: "hash32 k" and env: "env_keccak env = k" and ok: "machine_ok k v" "\<not> exited (vm_state v)" and st: "vm_step env True v = Inr (Some wit, v')"
    and off: "last_preimage_offset v' = 0xFFFFFFFF" and db: "inner_db e = Some ()"
  shows "\<exists>s'. differential_step env (canned_evm k (machine_witness k v')) (e, v) = Inr s'"
proof -
  let ?ev = "canned_evm k (machine_witness k v')"
  have "\<not> has_preimage wit"
    using off by (rule_tac vm_step_wit [OF st]) (simp add: has_preimage_def complete_witness_def Let_def)
  then have "answers ?ev e wit e (machine_witness k v')" using db by (simp add: answers_def load_preimage_def canned_evm_def)
  moreover have "ev_keccak ?ev = k" by (simp add: canned_evm_def)
  ultimately show ?thesis using differential_step_iff [OF k env _ ok st] by blast
qed

theorem differential_test_sound_witness:
  "\<exists>w e v wit u' e'. differential_run demo_env (canned_evm demo_hash w) 0 1 (mips_evm_new (canned_evm demo_hash w), demo_vm) = Inr (e, v)
    \<and> checked_step demo_hash demo_env (canned_evm demo_hash w) (demo_vm, mips_evm_new (canned_evm demo_hash w)) wit (u', e')"
proof -
  let ?k = demo_hash
  have ok0: "mem_ok ?k (vm_memory demo_vm)" by (rule state_okD(1) [OF demo_vm_facts(1)])
  obtain m where get: "get_memory (pc (vm_state demo_vm)) (vm_memory demo_vm) = Inr (0, m)"
    using get_memory_ok [OF ok0 demo_vm_facts(4)] demo_nop by metis
  have m: "mem_ok ?k m" "mem_byte m = mem_byte (vm_memory demo_vm)" using wm.load_Inr [OF ok0 get] by auto
  let ?v = "set_vm_memory m demo_vm"
  have v: "state_ok ?k (vm_state ?v)" "\<not> exited (vm_state ?v)" "length (mem_proof ?v) = 896" "unat (pc (vm_state ?v)) mod 4 = 0"
      "mem_word (vm_memory ?v) (pc (vm_state ?v)) = 0"
    using demo_vm_facts m demo_nop by (simp_all add: state_ok_def mem_word_def)
  then have ok: "machine_ok ?k ?v" by (simp add: machine_ok_def)
  obtain wit v' where st: "vm_step demo_env True ?v = Inr (Some wit, v')" "last_preimage_offset v' = 0xFFFFFFFF"
    using vm_step_nop [OF demo_hash32 demo_keccak v] by blast
  let ?ev = "canned_evm ?k (machine_witness ?k v')"
  have "inner_db (mips_evm_new ?ev) = Some ()" by (simp add: mips_evm_new_def)
  then obtain s' where "differential_step demo_env ?ev (mips_evm_new ?ev, ?v) = Inr s'" using canned_round [OF demo_hash32 demo_keccak ok v(2) st] by blast
  then have run: "differential_run demo_env ?ev 0 1 (mips_evm_new ?ev, demo_vm) = Inr (fst s', snd s')"
    using get demo_vm_facts(2) by (simp add: differential_run.simps unwrap_res_def vm_get_memory_def)
  from differential_test_sound [OF demo_hash32 demo_keccak demo_machine_ok run] obtain j ss wits where
    j: "j \<le> 1" "ss 0 = (demo_vm, mips_evm_new ?ev)" "j = 1 \<or> exited (vm_state (fst (ss j)))"
       "\<forall>i<j. checked_step ?k demo_env ?ev (ss i) (wits i) (ss (Suc i))" by blast
  then have "j = 1" using demo_vm_facts(2) by (cases j) auto
  with j have "checked_step ?k demo_env ?ev (demo_vm, mips_evm_new ?ev) (wits 0) (fst (ss 1), snd (ss 1))" by (metis One_nat_def lessI prod.collapse)
  with run show ?thesis by blast
qed

end
