(* ===== verification/Evm_Tests.thy ===== *)
theory Evm_Tests
  imports Evm_Proof Memory_Tests
begin

text \<open>
  The test \<open>evm_single_step\<close> of \<open>test_utils/evm.rs\<close>: single jumps on the machine and on the contracts. On the
  side of the machine the test cannot fail, whatever the oracle and the outputs are; a case passes exactly
  when the contracts answer with the state of the machine after the jump.
\<close>

section \<open>The test\<close>

definition single_step_cases :: "(u32 \<times> u32 \<times> u32) list" where
  "single_step_cases = [(0, 4, 0x0A000002), (0x10000000, 0x10000004, 0x08000002), (0, 4, 0x0E000002), (0x10000000, 0x10000004, 0x0C000002)]"

definition single_step_case ::
  "('o, 'w) env \<Rightarrow> ('db, 'c) evm_env \<Rightarrow> 'o \<Rightarrow> 'w \<Rightarrow> 'w \<Rightarrow> u32 \<times> u32 \<times> u32 \<Rightarrow> 'db mips_evm \<Rightarrow> 'db mips_evm res" where
  "single_step_case env ev orc out err c e =
    (case c of (start, next, instruction) \<Rightarrow>
       rbind (unwrap_res (set_memory (env_keccak env) start instruction memory_default)) (\<lambda>m.
       rbind (differential_step env ev (e, instrumented_new (state_default\<lparr>pc := start, next_pc := next, memory := m\<rparr>) orc out err))
         (\<lambda>(e1, v1). Inr e1)))"

definition evm_single_step :: "('o, 'w) env \<Rightarrow> ('db, 'c) evm_env \<Rightarrow> 'o \<Rightarrow> 'w \<Rightarrow> 'w \<Rightarrow> unit res" where
  "evm_single_step env ev orc out err =
     rbind (unwrap_res (try_init ev (mips_evm_new ev))) (\<lambda>e.
     rbind (for_each_with (single_step_case env ev orc out err) single_step_cases e) (\<lambda>_. Inr ()))"

section \<open>Jumps\<close>

lemma vm_step_jump:
  assumes k: "hash32 k" and env: "env_keccak env = k" and ok: "state_ok k (vm_state v)" and run: "\<not> exited (vm_state v)"
    and al: "unat (pc (vm_state v)) mod 4 = 0"
    and jump: "drop_bit 26 (mem_word (vm_memory v) (pc (vm_state v))) \<in> {2, 3}" and slot: "next_pc (vm_state v) = pc (vm_state v) + 4"
  shows "\<exists>wit v'. vm_step env True v = Inr (Some wit, v') \<and> last_preimage_offset v' = 0xFFFFFFFF
    \<and> pc (vm_state v') = pc (vm_state v) + 4
    \<and> next_pc (vm_state v') = (next_pc (vm_state v) AND 0xF0000000) OR shl32 (mem_word (vm_memory v) (pc (vm_state v)) AND 0x03FFFFFF) 2"
proof -
  let ?v0 = "v\<lparr>mem_proof_enabled := True, last_mem_access := 0xFFFFFFFF, last_preimage_offset := 0xFFFFFFFF\<rparr>"
  let ?i = "mem_word (vm_memory v) (pc (vm_state v))"
  let ?Q = "\<lambda>v'. last_preimage_offset v' = 0xFFFFFFFF \<and> pc (vm_state v') = pc (vm_state v) + 4
    \<and> next_pc (vm_state v') = (next_pc (vm_state v) AND 0xF0000000) OR shl32 (?i AND 0x03FFFFFF) 2"
  have ok0: "state_ok k (vm_state ?v0)" using ok by simp
  obtain m1 w0 where b: "begin_witness env ?v0 = Inr (w0, set_vm_memory m1 ?v0)" "mem_ok k m1" "mem_byte m1 = mem_byte (vm_memory v)"
    by (rule begin_witness_ok [OF k env ok0]) simp
  have "mem_word m1 (pc (vm_state v)) = ?i" using b(3) by (simp add: mem_word_def)
  then obtain m2 where "get_memory (pc (vm_state v)) m1 = Inr (?i, m2)" using get_memory_ok [OF b(2) al] by metis
  then have "\<exists>v2. inner_step env (set_vm_memory m1 ?v0) = Inr v2 \<and> ?Q v2"
    using run jump slot by (auto simp: inner_step_def vm_get_memory_def step_instruction_def on_state_def handle_jump_def Let_def)
  with b(1) show ?thesis unfolding vm_step_def Let_def max_u32 by auto
qed

lemma single_step_case_passes:
  assumes k: "hash32 k" and env: "env_keccak env = k" and hasher: "ev_keccak ev = k" and c: "(a, n, i) \<in> set single_step_cases"
  obtains m wit v' where "set_memory k a i memory_default = Inr m"
    and "vm_step env True (instrumented_new (state_default\<lparr>pc := a, next_pc := n, memory := m\<rparr>) orc out err) = Inr (Some wit, v')"
    and "pc (vm_state v') = n" and "next_pc (vm_state v') = (a AND 0xF0000000) OR shl32 (i AND 0x03FFFFFF) 2"
    and "(\<exists>e'. single_step_case env ev orc out err (a, n, i) e = Inr e') \<longleftrightarrow> (\<exists>e'. answers ev e wit e' (machine_witness k v'))"
proof -
  have a: "unat a mod 4 = 0" "n = a + 4" "drop_bit 26 i \<in> {2, 3}" "n AND 0xF0000000 = a AND 0xF0000000" using c by (auto simp: single_step_cases_def)
  obtain m where m: "set_memory k a i memory_default = Inr m" "mem_ok k m" "mem_byte m = overwrite (unat a) (u32_be i) (mem_byte memory_default)"
    by (rule set_memory_ok [OF memory_default_ok a(1)])
  let ?v = "instrumented_new (state_default\<lparr>pc := a, next_pc := n, memory := m\<rparr>) orc out err"
  have "stored memory_default a i m" using a(1) m(3) by (simp add: stored_def)
  then have w: "mem_word m a = i" using a(1) by (simp add: word_stored)
  have ok: "state_ok k (vm_state ?v)" "machine_ok k ?v" "\<not> exited (vm_state ?v)"
    using m(2) state_default_ok [of k] by (simp_all add: machine_ok_def state_ok_def instrumented_new_def state_default_def)
  obtain wit v' where st: "vm_step env True ?v = Inr (Some wit, v')" "pc (vm_state v') = n"
      "next_pc (vm_state v') = (a AND 0xF0000000) OR shl32 (i AND 0x03FFFFFF) 2"
    using vm_step_jump [OF k env ok(1,3)] a w by (auto simp: instrumented_new_def)
  show thesis
  proof (rule that [OF m(1) st])
    show "(\<exists>e'. single_step_case env ev orc out err (a, n, i) e = Inr e') \<longleftrightarrow> (\<exists>e'. answers ev e wit e' (machine_witness k v'))"
      unfolding differential_step_iff [OF k env hasher ok(2,3) st(1), symmetric] using m(1)
      by (auto simp: single_step_case_def env unwrap_res_def)
  qed
qed

end
