(* ===== verification/Spec2Isabelle.thy ===== *)
theory Spec2Isabelle
  imports Merkle_Binding Memory_History Mips_Ref_Proof Test_Oracles Cli_Proof Session Hint_Session Unit_Tests Evm_Tests
begin

text \<open>
  \<^bold>\<open>Cannon: a MIPS machine that proves its own steps.\<close>

  The program runs a MIPS32 program one instruction at a time. For any step it can emit a
  \<^emph>\<open>witness\<close>: the encoded state before the step, a Merkle branch for the instruction, a branch
  for the word of memory that the step accesses, and the preimage that it reads. A contract on a chain
  replays the step from the witness alone. The development shows that the machine, its memory with
  all caches, its witnesses, the files it reads and writes and the channels to its preimage server do
  what this use relies on.

  \<^bold>\<open>Parts and theories.\<close> Paths are relative to \<open>src/crates\<close>, or to \<open>src/bin\<close> for the binary.

  \<^item> \<open>Prelude\<close>: error values (every \<open>bail!\<close>, error and panic of the source is a constructor of \<open>error\<close>),
    the result type \<open>res\<close> with \<open>rbind\<close> for \<open>?\<close>, bytes, big endian words, slices.
  \<^item> \<open>Merkle\<close>: \<open>mipsevm/src/utils.rs\<close>, the table of zero hashes, the reference tree \<open>subtree\<close>, generalized
    indices.
  \<^item> \<open>Page\<close>: \<open>mipsevm/src/page.rs\<close>, a page of 4 KiB with its cache of 128 inner nodes.
  \<^item> \<open>Memory\<close>, \<open>Memory_Spec\<close>, \<open>Memory_Tree\<close>, \<open>Memory_Proof\<close>: \<open>mipsevm/src/memory.rs\<close>. The memory is a record of
    the page table, the cached nodes, the two pages looked up last, and a store of page cells for the
    \<open>Rc<RefCell<_>>\<close> handles. \<open>mem_ok\<close> is its invariant, \<open>mem_byte\<close> its abstraction to an array of bytes.
    The trees of pages and of the memory meet the interfaces of the locales for cached trees.
  \<^item> \<open>Memory_Reader\<close>, \<open>Memory_IO\<close>, \<open>Memory_Serde\<close>, \<open>State_Serde\<close>: \<open>MemoryReader\<close>, \<open>set_memory_range\<close> over any reader that
    meets the locale \<open>byte_reader\<close>, the serialized form of memories and states, \<open>usage\<close>.
  \<^item> \<open>Memory_History\<close>: the memory over whole histories of its operations, against an array of bytes with the reference tree over it.
  \<^item> \<open>State\<close>, \<open>Merkle_Binding\<close>: \<open>state.rs\<close>, \<open>types.rs\<close> and the state hash of \<open>witness.rs\<close>; what roots,
    branches and encodings commit to.
  \<^item> \<open>Mips_Alu\<close>, \<open>Mips_VM\<close>, \<open>Mips_Isa\<close>, \<open>Mips_Sys\<close>, \<open>Mips_Step\<close>, \<open>Mips_Sim\<close>: \<open>mips/mips_vm.rs\<close> and
    \<open>mips/instrumented.rs\<close>: instructions, system calls, the inner step, its invariant, and its independence
    of caches and tracking.
  \<^item> \<open>Mips_Ref\<close>, \<open>Mips_Ref_Values\<close>, \<open>Mips_Ref_Proof\<close>: the specification of the instruction set, an abstract processor
    with its instructions as a datatype and their encoding, and that the machine refines it. The abstraction
    \<open>cpu_of\<close> of a state is its registers, program counters, \<open>hi\<close>, \<open>lo\<close> and the array of bytes of its memory.
  \<^item> \<open>Witness\<close>, \<open>Preimage_Cache\<close>: \<open>InstrumentedState::step\<close> and \<open>StepWitness\<close> of \<open>witness.rs\<close>, and the preimage that
    the machine keeps between reads.
  \<^item> \<open>Replay\<close>, \<open>Replay_Proof\<close>: the specification of a step from the other side, a verifier that has the witness
    and no memory, and that the machine refines it. The abstraction \<open>view\<close> of a machine is its state without
    memory and the root of its memory.
  \<^item> \<open>Evm\<close>, \<open>Evm_Proof\<close>: \<open>mipsevm/src/test_utils/evm.rs\<close>, the harness that runs steps on the contracts, and the loop of
    its differential tests. The contracts and the virtual machine that runs them are parameters of which nothing is assumed.
  \<^item> \<open>Patch\<close>: \<open>mipsevm/src/patch.rs\<close>, from a parsed ELF file to an initial state.
  \<^item> \<open>Preimage_Keys\<close>, \<open>Channel\<close>: the crate \<open>preimage\<close> and \<open>cannon/src/proc_oracle.rs\<close>, over any channel that
    meets the locale \<open>byte_channel\<close>.
  \<^item> \<open>Session\<close>, \<open>Hint_Session\<close>: the two ends of the preimage channel and of the hint channel, running at the same time over
    two bounded pipes, as step relations, and the tests of \<open>oracle.rs\<close> and \<open>hints.rs\<close> on them. The preimage channel loops until
    its bytes are transferred; the ends of the hint channel are programs of the single calls that \<open>hints.rs\<close> makes.
  \<^item> \<open>Text\<close>: the string functions of the standard library that the program uses.
  \<^item> \<open>Kernel\<close>, \<open>Kernel_Proof\<close>: \<open>cannon/src/kernel.rs\<close>, the loop with its patterns, snapshots and proofs.
  \<^item> \<open>Cli\<close>, \<open>Cli_Proof\<close>: \<open>cannon/src/builder.rs\<close>, \<open>file_chan.rs\<close>, the start of the server, and \<open>main\<close> with the three
    subcommands of the binary.
  \<^item> \<open>Gzip\<close>: \<open>cannon/src/gz.rs\<close>, over any codec with the documented behaviour.
  \<^item> \<open>Memory_Tests\<close>, \<open>Unit_Tests\<close>, \<open>Evm_Tests\<close>: the unit tests of \<open>memory.rs\<close> and \<open>page.rs\<close>, the test of state hashes of
    \<open>instrumented.rs\<close> and the single steps of \<open>evm.rs\<close>, as sequences of calls and assertions on the model, with rules
    in the style of a Hoare logic that run them.
  \<^item> \<open>Test_Oracles\<close>: the oracles of \<open>mipsevm/src/test_utils/mod.rs\<close>. \<open>Demo\<close>: concrete instances of the
    parameters for the witnesses of the properties.

  \<^bold>\<open>What is shown.\<close>

  \<^item> The memory refines an array of bytes. Over every history in which ranges are filled before the first hash is computed, its
    roots and branches, cached or not, are those of the reference tree over the array; a range that is filled later leaves stale roots. Roots, branches and encodings bind what they stand for up to collisions of the hash.
  \<^item> The machine executes its instructions as MIPS32 defines them, arithmetic shifts by zero apart: a program
    runs as on the abstract processor as long as the architecture defines what it does.
  \<^item> Every step keeps the invariant, and a step behaves the same with and without a proof. A witness
    contains branches that check against the root in its own pre-state. A verifier that has only the witness
    finds the encoding of the next state, for every instruction and every system call, and no other witness over
    the same pre-state makes it accept another one, up to collisions of the hash.
  \<^item> A differential test that passes has compared the contracts, whatever they are, with the machine as it runs outside the
    test, step by step, and has seen them return the hash of its next state each time.
  \<^item> A run performs exactly the snapshots and proofs that were asked for; its proofs form a chain of
    state hashes that the verifier can follow; asking for them does not change the run; it ends at a stop step,
    and \<open>cannon run\<close> ends for every stop pattern but \<open>never\<close>.
  \<^item> What \<open>load-elf\<close> writes is the image of the file, the patches and the stack; \<open>witness\<close> prints its hash and
    \<open>run\<close> starts from it. States survive serialization, and preimages and hints survive the channels.
    The two ends of the preimage channel that run concurrently cannot deadlock, whatever the size of the pipes and the schedule. Those of the
    hint channel cannot as long as the system transfers whole messages; with partial transfers a hint can get lost and its writer wait for ever.
  \<^item> Lemmas of the theories of tests show that the unit tests of memory, pages and state pass for every digest, where they compare
    roots for inequality unless the digest collides, and the test of serialized memories on well-formed memories; it fails on some other
    memories that its generator can draw. These are checks of the model, not properties of the program.
  \<^item> Loads, stores, products, quotients and shifts compute what they should on words of 32 bits, with the
    exceptions that the properties name.

  \<^bold>\<open>Integers, loops and fuel.\<close> Registers and addresses are words of 32 bits and wrap around, as the build does
  (\<open>overflow-checks\<close> is off); page indices and lengths are natural numbers. No definition uses fuel. Loops that
  always end are total functions with a measure; the loops over a reader and over the steps of a program
  may run forever, so they are partial functions with the value \<open>None\<close> for divergence, and the properties
  about them prove that they return.

  \<^bold>\<open>Parameters.\<close> The digest \<open>keccak256\<close> (a C library), the hexadecimal codec, the JSON text, gzip, the ELF parser,
  the ABI encoders, the file system, pipes and processes, the preimage oracle, the writers and the virtual
  machine \<open>revm\<close> with the bytecode of the contracts are arguments, collected in the records \<open>env\<close>, \<open>kernel_env\<close>,
  \<open>cli_env\<close>, \<open>server_env\<close> and \<open>evm_env\<close>. What a property needs of them is one of its hypotheses: a digest of 32
  bytes (\<open>hash32\<close>), inverse codecs (\<open>hex_inverse\<close>), the laws \<open>cli_laws\<close> and \<open>gzip_laws\<close>, an oracle with short answers
  (\<open>short_preimages\<close>), or the absence of collisions among named inputs.

  \<^bold>\<open>Not modelled.\<close> The macros for tracing, and the code under the feature \<open>tracing\<close>, which the binary does not
  enable; argument parsing; the Solidity contracts, whose
  sources are not part of the repository; the benchmarks; the unit tests that run binaries, the loop that compares
  the machine with the contracts apart, and the test of faults, whose witnesses have another form than those of a
  machine. Concurrent channels are not closed by an end. A write to a file that fails leaves the file as it was created. The tasks that the kernel spawns run in the background; the model runs them where the
  kernel awaits them, so a run that fails earlier shows no files.
\<close>

section \<open>Step witnesses\<close>

text \<open>C4. The witness of a step is sound. If a step with proof generation succeeds, its witness
  holds the encoded pre-state, whose first 32 bytes are the root of the reference tree over the
  memory; the first 896 bytes of the memory proof are a branch at \<open>pc\<close> that checks against that
  root and contains the fetched instruction; and if the step accessed memory, the other 896 bytes
  are a branch at the accessed address that checks against the same root.\<close>

theorem step_witness_sound:
  assumes "hash32 k" and "env_keccak env = k" and "state_ok k (vm_state v)" and "\<not> exited (vm_state v)"
    and "length (mem_proof v) = 896" and "vm_step env True v = Inr (Some wit, v')"
  shows "take 32 (wit_state wit) = subtree k (mem_leaf (vm_memory v)) 27 0
    \<and> proof_root k (pc (vm_state v)) (take 896 (wit_mem_proof wit)) = take 32 (wit_state wit)
    \<and> proof_word (pc (vm_state v)) (take 896 (wit_mem_proof wit)) = mem_word (vm_memory v) (pc (vm_state v))
    \<and> (last_mem_access v' = 0xFFFFFFFF
       \<or> proof_root k (last_mem_access v') (drop 896 (wit_mem_proof wit)) = take 32 (wit_state wit)
         \<and> proof_word (last_mem_access v') (drop 896 (wit_mem_proof wit)) = mem_word (vm_memory v) (last_mem_access v'))"
proof -
  obtain w where w: "Some wit = Some w" "wit_state w = witness_of (mem_root k (vm_memory v)) (vm_state v)"
      "wit_mem_proof w = branch_of k (vm_memory v) (pc (vm_state v)) @ mem_proof v'"
      "one_word k (vm_memory v) (last_mem_access v') (mem_proof v') (vm_memory v')" "unat (pc (vm_state v)) mod 4 = 0"
    using vm_step_proof [OF assms(1-6)] by metis
  note k = assms(1)
  have root: "take 32 (wit_state wit) = mem_root k (vm_memory v)"
    using w(1,2) length_mem_root [OF k] by (simp add: witness_of_def del: subtree.simps)
  have t: "take 896 (wit_mem_proof wit) = branch_of k (vm_memory v) (pc (vm_state v))" "drop 896 (wit_mem_proof wit) = mem_proof v'"
    using w(1,3) length_branch_of [OF k] by simp_all
  show ?thesis
    unfolding t root using proof_root_branch [OF k] proof_word_branch [OF w(5)] one_word_proof(1,2) [OF k w(4)] by blast
qed

theorem step_witness_sound_witness:
  "\<exists>wit v'. vm_step demo_env True demo_vm = Inr (Some wit, v')
    \<and> proof_root demo_hash (pc (vm_state demo_vm)) (take 896 (wit_mem_proof wit)) = take 32 (wit_state wit)"
proof -
  obtain wit v' where "vm_step demo_env True demo_vm = Inr (Some wit, v')" by (rule demo_step)
  with step_witness_sound [OF demo_hash32 demo_keccak demo_vm_facts(1-3)] show ?thesis by blast
qed

text \<open>The memory root after a step follows from the witness alone: it is the old root if the
  step accessed no memory, and otherwise the root obtained from the branch in the witness by
  replacing the accessed word. All other bytes of the memory are as before.\<close>

lemma step_root_transition:
  assumes "hash32 k" and "env_keccak env = k" and "state_ok k (vm_state v)" and "\<not> exited (vm_state v)"
    and "length (mem_proof v) = 896" and "vm_step env True v = Inr (Some wit, v')"
  shows "if last_mem_access v' = 0xFFFFFFFF
    then mem_byte (vm_memory v') = mem_byte (vm_memory v)
      \<and> map_sum id fst (merkle_root k (vm_memory v')) = Inr (take 32 (wit_state wit))
    else (\<forall>b. b < unat (last_mem_access v') \<or> unat (last_mem_access v') + 4 \<le> b
          \<longrightarrow> mem_byte (vm_memory v') b = mem_byte (vm_memory v) b)
      \<and> map_sum id fst (merkle_root k (vm_memory v'))
         = Inr (proof_write_root k (last_mem_access v') (mem_word (vm_memory v') (last_mem_access v')) (drop 896 (wit_mem_proof wit)))"
proof -
  obtain w where w: "Some wit = Some w" "wit_state w = witness_of (mem_root k (vm_memory v)) (vm_state v)"
      "wit_mem_proof w = branch_of k (vm_memory v) (pc (vm_state v)) @ mem_proof v'" "state_ok k (vm_state v')"
      "one_word k (vm_memory v) (last_mem_access v') (mem_proof v') (vm_memory v')"
    using vm_step_proof [OF assms(1-6)] by metis
  note k = assms(1)
  have root: "take 32 (wit_state wit) = mem_root k (vm_memory v)"
    using w(1,2) length_mem_root [OF k] by (simp add: witness_of_def del: subtree.simps)
  have pf: "drop 896 (wit_mem_proof wit) = mem_proof v'" using w(1,3) length_branch_of [OF k] by simp
  have post: "map_sum id fst (merkle_root k (vm_memory v')) = Inr (mem_root k (vm_memory v'))"
    by (rule merkle_root_ok [OF state_okD(1) [OF w(4)]]) simp
  show ?thesis
  proof (cases "last_mem_access v' = 0xFFFFFFFF")
    case True
    then have "mem_byte (vm_memory v') = mem_byte (vm_memory v)" using w(5) one_word_none by metis
    with True post root mem_root_cong [OF this] show ?thesis by (simp only: if_True simp_thms)
  next
    case False
    with one_word_proof(3,4) [OF k w(5) False] post pf show ?thesis by (simp only: if_False) blast
  qed
qed

end
